(* ===== verification/Dag_Prelude.thy ===== *)
theory Dag_Prelude
  imports Main "HOL-Library.Word"
begin

text \<open>
  The prelude of the development: the machine types of the C++ sources as type synonyms, the
  faults that a modelled operation can end in, the result type with its bind, and the list
  facts on overwriting a segment, on chains of equally sized blocks and on iterated
  operations that the component theories share.

  The collections: \<open>dag_bind\<close> holds the rules that run or invert a sequence of fallible
  calls, \<open>overwrite_simps\<close> those on overwriting a segment of a list.
\<close>

unbundle bit_operations_syntax

named_theorems dag_bind \<open>running and inverting sequences of fallible calls\<close>
named_theorems overwrite_simps \<open>overwriting a segment of a list\<close>

section \<open>Machine types\<close>

type_synonym byte = "8 word"
type_synonym u8 = "8 word"
type_synonym u16 = "16 word"
type_synonym u32 = "32 word"
type_synonym u64 = "64 word"

text \<open>
  \<open>size_t\<close> values are natural numbers below \<open>2 ^ 64\<close>; the one operation on them that the
  sources can drive outside that range is subtraction, which wraps around.
\<close>

definition usub64 :: "nat \<Rightarrow> nat \<Rightarrow> nat" where
  "usub64 a b = (if b \<le> a then a - b else 2 ^ 64 + a - b)"

lemma unat_bound: "unat (w :: 'a::len word) < 2 ^ LENGTH('a)"
  by (rule unsigned_less)

text \<open>Conversions to \<open>int\<close> and \<open>int64_t\<close>, and the division of signed integers, which rounds towards zero.\<close>

definition to_int32 :: "int \<Rightarrow> int" where
  "to_int32 x = sint (word_of_int x :: 32 word)"

definition to_int64 :: "int \<Rightarrow> int" where
  "to_int64 x = sint (word_of_int x :: 64 word)"

definition tquot :: "int \<Rightarrow> int \<Rightarrow> int" where
  "tquot a b = sgn a * sgn b * (\<bar>a\<bar> div \<bar>b\<bar>)"

definition trem :: "int \<Rightarrow> int \<Rightarrow> int" where
  "trem a b = a - b * tquot a b"

lemma to_int32_small: "- (2 ^ 31) \<le> x \<Longrightarrow> x < 2 ^ 31 \<Longrightarrow> to_int32 x = x"
  by (simp add: to_int32_def sint_sbintrunc' signed_take_bit_int_eq_self)

lemma to_int64_small: "- (2 ^ 63) \<le> x \<Longrightarrow> x < 2 ^ 63 \<Longrightarrow> to_int64 x = x"
  by (simp add: to_int64_def sint_sbintrunc' signed_take_bit_int_eq_self)

lemma to_int64_mod: "to_int64 (x mod 2 ^ 64) = to_int64 x"
proof -
  have "(word_of_int (take_bit 64 x) :: 64 word) = word_of_int x"
    by (rule bit_word_eqI) (simp add: bit_simps)
  then show ?thesis by (simp add: to_int64_def take_bit_eq_mod)
qed

lemma tquot_pos [simp]: "0 \<le> a \<Longrightarrow> 0 < b \<Longrightarrow> tquot a b = a div b"
  by (auto simp: tquot_def sgn_if)

lemma trem_pos [simp]: "0 \<le> a \<Longrightarrow> 0 < b \<Longrightarrow> trem a b = a mod b"
  by (simp add: trem_def minus_mult_div_eq_mod)

section \<open>Faults and results\<close>

text \<open>
  How an operation can fail: it throws \<open>std::out_of_range\<close> or \<open>std::logic_error\<close>, an \<open>assert\<close> stops the program,
  or it runs into behaviour the language leaves undefined (a null pointer dereferenced, an
  access outside an allocated block or a vector, a division by zero, a shift by the width of
  the type or more), or a program calls \<open>exit\<close>.
\<close>

datatype fault =
    Out_Of_Range string
  | Logic_Error string
  | Assertion string
  | Null_Deref
  | Out_Of_Bounds
  | Div_By_Zero
  | Bad_Shift
  | Exit_Failure string

type_synonym 'a res = "fault + 'a"

fun rbind :: "'a res \<Rightarrow> ('a \<Rightarrow> 'b res) \<Rightarrow> 'b res" where
  "rbind (Inl e) f = Inl e"
| "rbind (Inr x) f = f x"

fun rmap :: "('a \<Rightarrow> 'b) \<Rightarrow> 'a res \<Rightarrow> 'b res" where
  "rmap f (Inl e) = Inl e"
| "rmap f (Inr x) = Inr (f x)"

lemma rbind_eq_Inr [dag_bind]: "rbind m f = Inr y \<longleftrightarrow> (\<exists>x. m = Inr x \<and> f x = Inr y)"
  by (cases m) auto

lemma rmap_eq_Inr [dag_bind]: "rmap f m = Inr y \<longleftrightarrow> (\<exists>x. m = Inr x \<and> y = f x)"
  by (cases m) auto

lemma rbind_Inr_right [simp]: "rbind m Inr = m"
  by (cases m) auto

lemma rbind_assoc: "rbind (rbind m f) g = rbind m (\<lambda>x. rbind (f x) g)"
  by (cases m) auto

lemma rbind_cong [fundef_cong]:
  "m = m' \<Longrightarrow> (\<And>x. m' = Inr x \<Longrightarrow> f x = f' x) \<Longrightarrow> rbind m f = rbind m' f'"
  by (cases m') auto

section \<open>Overwriting a segment of a list\<close>

definition overwrite :: "nat \<Rightarrow> 'a list \<Rightarrow> 'a list \<Rightarrow> 'a list" where
  "overwrite i bs xs = take i xs @ bs @ drop (i + length bs) xs"

lemma length_overwrite [overwrite_simps, simp]:
  "i + length bs \<le> length xs \<Longrightarrow> length (overwrite i bs xs) = length xs"
  by (simp add: overwrite_def)

lemma overwrite_Nil [overwrite_simps, simp]: "overwrite i [] xs = xs"
  by (simp add: overwrite_def)

lemma overwrite_overwrite [overwrite_simps]:
  assumes "i + length bs + length cs \<le> length xs"
  shows "overwrite (i + length bs) cs (overwrite i bs xs) = overwrite i (bs @ cs) xs"
  using assms by (simp add: overwrite_def add.commute add.left_commute)

lemma take_drop_overwrite [overwrite_simps]:
  "i + length bs \<le> length xs \<Longrightarrow> take (length bs) (drop i (overwrite i bs xs)) = bs"
  by (simp add: overwrite_def)

lemma take_overwrite_before [overwrite_simps]:
  "j \<le> i \<Longrightarrow> i \<le> length xs \<Longrightarrow> take j (overwrite i bs xs) = take j xs"
  by (simp add: overwrite_def min_def)

lemma nth_overwrite:
  assumes "i + length bs \<le> length xs" "j < length xs"
  shows "overwrite i bs xs ! j = (if i \<le> j \<and> j < i + length bs then bs ! (j - i) else xs ! j)"
  using assms by (auto simp: overwrite_def nth_append min_def)

lemma overwrite_append_left:
  "i + length bs \<le> length xs \<Longrightarrow> overwrite i bs (xs @ ys) = overwrite i bs xs @ ys"
  by (simp add: overwrite_def)

lemma overwrite_append_right:
  "overwrite (length xs + i) bs (xs @ ys) = xs @ overwrite i bs ys"
  by (simp add: overwrite_def)

lemma take_overwrite_grow:
  assumes "p \<le> s" "p + length bs \<le> length xs" "s \<le> length xs"
  shows "take (max s (p + length bs)) (overwrite p bs xs) =
    take p (take s xs) @ bs @ drop (p + length bs) (take s xs)"
proof (cases "p + length bs \<le> s")
  case True
  with assms show ?thesis
    by (simp add: overwrite_def max.absorb1 min.absorb2 drop_take)
next
  case False
  with assms show ?thesis by (simp add: overwrite_def max_def min_def)
qed

section \<open>Chains of blocks of one size\<close>

lemma length_concat_uniform:
  "\<forall>n \<in> set ns. length n = b \<Longrightarrow> length (concat ns) = length ns * b"
  by (induction ns) auto

lemma concat_uniform_split:
  assumes "\<forall>n \<in> set ns. length n = b" "c < length ns"
  shows "concat ns = concat (take c ns) @ ns ! c @ concat (drop (Suc c) ns)"
    and "length (concat (take c ns)) = c * b"
proof -
  show "concat ns = concat (take c ns) @ ns ! c @ concat (drop (Suc c) ns)"
    using id_take_nth_drop [OF assms(2)] by (metis concat.simps(2) concat_append)
  show "length (concat (take c ns)) = c * b"
    using assms length_concat_uniform [of "take c ns" b]
    by (metis in_set_takeD length_take min.absorb4)
qed

lemma concat_uniform_overwrite:
  assumes u: "\<forall>n \<in> set ns. length n = b" and c: "c < length ns" and l: "off + length bs \<le> b"
  shows "concat (ns[c := overwrite off bs (ns ! c)]) = overwrite (c * b + off) bs (concat ns)"
proof -
  note split = concat_uniform_split [OF u c]
  have ln: "length (ns ! c) = b" using u c by auto
  have "concat (ns[c := overwrite off bs (ns ! c)])
      = concat (take c ns) @ overwrite off bs (ns ! c) @ concat (drop (Suc c) ns)"
    using c by (simp add: upd_conv_take_nth_drop)
  also have "\<dots> = overwrite (c * b + off) bs (concat ns)"
    using l ln by (simp add: split(1) split(2) [symmetric] overwrite_append_right
        overwrite_append_left)
  finally show ?thesis .
qed

lemma concat_uniform_segment:
  assumes u: "\<forall>n \<in> set ns. length n = b" and c: "c < length ns" and l: "off + k \<le> b"
  shows "take k (drop off (ns ! c)) = take k (drop (c * b + off) (concat ns))"
proof -
  note split = concat_uniform_split [OF u c]
  have ln: "length (ns ! c) = b" using u c by auto
  show ?thesis
    using l ln split(2) by (subst split(1)) simp
qed

section \<open>Iterating a fallible operation over a list\<close>

fun rfold :: "('a \<Rightarrow> 's \<Rightarrow> 's res) \<Rightarrow> 'a list \<Rightarrow> 's \<Rightarrow> 's res" where
  "rfold f [] s = Inr s"
| "rfold f (x # xs) s = rbind (f x s) (rfold f xs)"

fun rtimes :: "nat \<Rightarrow> ('s \<Rightarrow> ('a \<times> 's) res) \<Rightarrow> 's \<Rightarrow> ('a list \<times> 's) res" where
  "rtimes 0 f s = Inr ([], s)"
| "rtimes (Suc n) f s = rbind (f s) (\<lambda>(x, s'). rmap (\<lambda>(xs, t). (x # xs, t)) (rtimes n f s'))"

lemma rfold_append: "rfold f (xs @ ys) s = rbind (rfold f xs s) (rfold f ys)"
  by (induction xs arbitrary: s) (simp_all add: rbind_assoc cong: rbind_cong)

section \<open>Decimal text\<close>

text \<open>How a stream prints an unsigned integer.\<close>

fun dec :: "nat \<Rightarrow> string" where
  "dec n = (if n < 10 then [char_of (48 + n)] else dec (n div 10) @ [char_of (48 + n mod 10)])"

declare dec.simps [simp del]

fun of_dec :: "string \<Rightarrow> nat" where
  "of_dec cs = foldl (\<lambda>a c. 10 * a + (of_char c - 48)) 0 cs"

declare of_dec.simps [simp del]

lemma of_dec_snoc: "of_dec (cs @ [c]) = 10 * of_dec cs + (of_char c - 48)"
  by (simp add: of_dec.simps)

lemma of_dec_dec: "of_dec (dec n) = n"
proof (induction n rule: dec.induct)
  case (1 n)
  then show ?case
    by (cases "n < 10") (auto simp: dec.simps [of n] of_dec_snoc of_dec.simps [of "[_]"])
qed

lemma dec_digits: "c \<in> set (dec n) \<Longrightarrow> 48 \<le> (of_char c :: nat) \<and> (of_char c :: nat) < 58"
  by (induction n rule: dec.induct) (subst (asm) (2) dec.simps, auto split: if_splits)

lemma dec_nonempty [simp]: "dec n \<noteq> []"
  by (subst dec.simps) simp

lemma dec_not: "of_char c < (48::nat) \<or> 58 \<le> (of_char c :: nat) \<Longrightarrow> c \<notin> set (dec n)"
  using dec_digits [of c n] by auto

definition dec_int :: "int \<Rightarrow> string" where
  "dec_int n = (if n < 0 then ''-'' @ dec (nat (- n)) else dec (nat n))"

definition dec_bool :: "bool \<Rightarrow> string" where
  "dec_bool b = (if b then ''1'' else ''0'')"

end
