(* ===== verification/Endian.thy ===== *)
theory Endian
  imports Dag_Prelude
begin

text \<open>
  The byte orders of \<open>dag/utils/endian.h\<close>: the two constants, the selection of the host's
  order, the \<open>byteswap\<close> templates and the two conditional swaps. An integer of \<open>n\<close> bytes is
  an \<open>8 n\<close>-bit word; its object representation in memory is the list of its bytes in host
  order, which is what \<open>memcpy\<close> and \<open>write(&value, sizeof(value))\<close> see. The host order,
  \<open>DAG_BYTE_ORDER\<close>, is an argument of every definition that depends on it, so each statement
  covers both branches of the conditional compilation.
\<close>

section \<open>Byte orders and object representations\<close>

datatype byte_order = DAG_LITTLE_ENDIAN | DAG_BIG_ENDIAN

definition bytes_le :: "'a::len word \<Rightarrow> byte list" where
  "bytes_le w = map (\<lambda>i. ucast (drop_bit (8 * i) w)) [0..<LENGTH('a) div 8]"

fun of_bytes_le :: "byte list \<Rightarrow> 'a::len word" where
  "of_bytes_le [] = 0"
| "of_bytes_le (b # bs) = ucast b OR push_bit 8 (of_bytes_le bs)"

definition bytes_in :: "byte_order \<Rightarrow> 'a::len word \<Rightarrow> byte list" where
  "bytes_in ord w = (case ord of DAG_LITTLE_ENDIAN \<Rightarrow> bytes_le w | DAG_BIG_ENDIAN \<Rightarrow> rev (bytes_le w))"

definition of_bytes_in :: "byte_order \<Rightarrow> byte list \<Rightarrow> 'a::len word" where
  "of_bytes_in ord bs =
     (case ord of DAG_LITTLE_ENDIAN \<Rightarrow> of_bytes_le bs | DAG_BIG_ENDIAN \<Rightarrow> of_bytes_le (rev bs))"

section \<open>The byteswap templates\<close>

text \<open>
  \<open>bswap_16\<close>, \<open>bswap_32\<close> and \<open>bswap_64\<close> of \<open><byteswap.h>\<close> reverse the bytes of their argument;
  the overload is chosen by the width of the type.
\<close>

definition byteswap :: "'a::len word \<Rightarrow> 'a word" where
  "byteswap value = of_bytes_le (rev (bytes_le value))"

definition byteswapOnLittleEndian :: "byte_order \<Rightarrow> 'a::len word \<Rightarrow> 'a word" where
  "byteswapOnLittleEndian host t = (if host = DAG_BIG_ENDIAN then t else byteswap t)"

definition byteswapOnBigEndian :: "byte_order \<Rightarrow> 'a::len word \<Rightarrow> 'a word" where
  "byteswapOnBigEndian host t = (if host = DAG_BIG_ENDIAN then byteswap t else t)"

section \<open>Facts on object representations\<close>

lemma length_bytes_le [simp]: "length (bytes_le (w :: 'a::len word)) = LENGTH('a) div 8"
  by (simp add: bytes_le_def)

lemma length_bytes_in [simp]: "length (bytes_in ord (w :: 'a::len word)) = LENGTH('a) div 8"
  by (simp add: bytes_in_def split: byte_order.split)

lemma bit_of_bytes_le:
  "bit (of_bytes_le bs :: 'a::len word) n \<longleftrightarrow>
     n < LENGTH('a) \<and> n div 8 < length bs \<and> bit (bs ! (n div 8)) (n mod 8)"
proof (induction bs arbitrary: n)
  case Nil
  then show ?case by simp
next
  case (Cons b bs)
  show ?case
  proof (cases "n < 8")
    case True
    then show ?thesis by (auto simp: bit_simps bit_imp_le_length)
  next
    case False
    then have n: "n div 8 = Suc ((n - 8) div 8)" "n mod 8 = (n - 8) mod 8"
      by (simp_all add: div_if le_mod_geq)
    have "\<not> bit b n" using False bit_imp_le_length [of b n] by auto
    then show ?thesis using False Cons.IH [of "n - 8"] n
      by (auto simp: bit_simps)
  qed
qed

lemma bit_nth_bytes_le:
  "i < LENGTH('a::len) div 8 \<Longrightarrow>
     bit (bytes_le (w :: 'a word) ! i) n \<longleftrightarrow> n < 8 \<and> bit w (8 * i + n)"
  by (auto simp: bytes_le_def bit_simps)

lemma of_bytes_le_bytes_le:
  assumes "8 dvd LENGTH('a::len)"
  shows "of_bytes_le (bytes_le (w :: 'a word)) = w"
proof (rule bit_word_eqI)
  fix n assume n: "n < LENGTH('a)"
  have "n div 8 < LENGTH('a) div 8" using assms n by auto
  then show "bit (of_bytes_le (bytes_le w) :: 'a word) n = bit w n"
    using n by (simp add: bit_of_bytes_le bit_nth_bytes_le)
qed

lemma bytes_le_of_bytes_le:
  assumes "length bs = LENGTH('a::len) div 8"
  shows "bytes_le (of_bytes_le bs :: 'a word) = bs"
proof (rule nth_equalityI)
  show "length (bytes_le (of_bytes_le bs :: 'a word)) = length bs" using assms by simp
next
  fix i assume "i < length (bytes_le (of_bytes_le bs :: 'a word))"
  then have i: "i < LENGTH('a) div 8" by simp
  show "bytes_le (of_bytes_le bs :: 'a word) ! i = bs ! i"
  proof (rule bit_word_eqI)
    fix n assume n: "n < LENGTH(8)"
    then have "8 * i + n < LENGTH('a)" using i by simp
    then show "bit (bytes_le (of_bytes_le bs :: 'a word) ! i) n = bit (bs ! i) n"
      using i n assms by (simp add: bit_nth_bytes_le bit_of_bytes_le)
  qed
qed

lemma of_bytes_in_bytes_in:
  "8 dvd LENGTH('a::len) \<Longrightarrow> of_bytes_in ord (bytes_in ord (w :: 'a word)) = w"
  by (simp add: of_bytes_in_def bytes_in_def of_bytes_le_bytes_le split: byte_order.split)

lemma bytes_in_of_bytes_in:
  "length bs = LENGTH('a::len) div 8 \<Longrightarrow> bytes_in ord (of_bytes_in ord bs :: 'a word) = bs"
  by (simp add: of_bytes_in_def bytes_in_def bytes_le_of_bytes_le split: byte_order.split)

lemma byteswap_byteswap [simp]:
  "8 dvd LENGTH('a::len) \<Longrightarrow> byteswap (byteswap (w :: 'a word)) = w"
  by (simp add: byteswap_def bytes_le_of_bytes_le of_bytes_le_bytes_le)

text \<open>Swapping where the wanted order is not the host's stores the value in the wanted order.\<close>

lemma bytes_in_swapped:
  "bytes_in host (if ord \<noteq> host then byteswap w else w) = bytes_in ord w"
  by (cases ord; cases host) (simp_all add: bytes_in_def byteswap_def bytes_le_of_bytes_le)

lemma of_bytes_in_swapped:
  "length bs = LENGTH('a::len) div 8 \<Longrightarrow>
   (if ord = host then of_bytes_in host bs else byteswap (of_bytes_in host bs :: 'a word)) =
     of_bytes_in ord bs"
  by (cases ord; cases host) (simp_all add: of_bytes_in_def byteswap_def bytes_le_of_bytes_le)

text \<open>
  The conditional swap is the conversion between host and network order: whatever the host,
  the object representation of the result is the big-endian one.
\<close>

lemma bytes_in_byteswapOnLittleEndian:
  "bytes_in host (byteswapOnLittleEndian host w) = bytes_in DAG_BIG_ENDIAN w"
  by (cases host)
    (simp_all add: byteswapOnLittleEndian_def bytes_in_def byteswap_def bytes_le_of_bytes_le)

lemma byteswapOnLittleEndian_inv [simp]:
  "8 dvd LENGTH('a::len) \<Longrightarrow>
   byteswapOnLittleEndian host (byteswapOnLittleEndian host (w :: 'a word)) = w"
  by (simp add: byteswapOnLittleEndian_def)

lemma byteswapOnBigEndian_inv [simp]:
  "8 dvd LENGTH('a::len) \<Longrightarrow>
   byteswapOnBigEndian host (byteswapOnBigEndian host (w :: 'a word)) = w"
  by (simp add: byteswapOnBigEndian_def)

text \<open>A swap moves bits and so commutes with the bitwise operations.\<close>

lemma bit_byteswap:
  assumes "8 dvd LENGTH('a::len)" "n < LENGTH('a)"
  shows "bit (byteswap (w :: 'a word)) n \<longleftrightarrow>
    bit w (8 * (LENGTH('a) div 8 - Suc (n div 8)) + n mod 8)"
proof -
  have k: "n div 8 < LENGTH('a) div 8" using assms by auto
  then have "LENGTH('a) div 8 - Suc (n div 8) < LENGTH('a) div 8" by simp
  with k assms show ?thesis
    by (simp add: byteswap_def bit_of_bytes_le rev_nth bit_nth_bytes_le)
qed

lemma byteswap_bitwise:
  assumes "8 dvd LENGTH('a::len)"
  shows "byteswap (v AND (w :: 'a word)) = byteswap v AND byteswap w"
    and "byteswap (v OR w) = byteswap v OR byteswap w"
    and "byteswap (NOT v) = NOT (byteswap v)"
proof -
  have low: "8 * (LENGTH('a) div 8 - Suc (n div 8)) + n mod 8 < LENGTH('a)"
    if "n < LENGTH('a)" for n
  proof -
    have "n div 8 < LENGTH('a) div 8" using assms that by auto
    then have "8 * (LENGTH('a) div 8 - Suc (n div 8)) + 8 \<le> 8 * (LENGTH('a) div 8)" by simp
    then show ?thesis using assms by (auto intro: le_less_trans)
  qed
  show "byteswap (v AND w) = byteswap v AND byteswap w"
    and "byteswap (v OR w) = byteswap v OR byteswap w"
    and "byteswap (NOT v) = NOT (byteswap v)"
    by (rule bit_word_eqI; simp add: bit_byteswap [OF assms] bit_simps low)+
qed

end
