(* ===== verification/Varint.thy ===== *)
theory Varint
  imports Endian
begin

text \<open>
  The integer codings of \<open>dag/bytearray.cpp\<close> as functions on machine words: the ZigZag
  mapping between signed and unsigned integers, and the base-128 loop that splits an unsigned
  integer into bytes of seven bits. An \<open>int32_t\<close> or \<open>int64_t\<close> is the word with its bits; \<open>sint\<close>
  reads its value. The signed arithmetic of the encoders wraps around as it does on every
  two's complement target; the arguments on which the C++ standard leaves the intermediate
  result undefined are singled out by \<open>EncodeZigzag32_overflows\<close> and \<open>EncodeZigzag64_overflows\<close>.
\<close>

section \<open>ZigZag\<close>

definition EncodeZigzag32 :: "u32 \<Rightarrow> u32" where
  "EncodeZigzag32 v = (if sint v < 0 then (- v) * 2 - 1 else v * 2)"

definition EncodeZigzag64 :: "u64 \<Rightarrow> u64" where
  "EncodeZigzag64 v = (if sint v < 0 then (- v) * 2 - 1 else v * 2)"

definition DecodeZigzag32 :: "u32 \<Rightarrow> u32" where
  "DecodeZigzag32 v = drop_bit 1 v XOR - (v AND 1)"

definition DecodeZigzag64 :: "u64 \<Rightarrow> u64" where
  "DecodeZigzag64 v = drop_bit 1 v XOR - (v AND 1)"

text \<open>
  The signed operation of the branch taken, \<open>-v\<close> or \<open>v * 2\<close>, has a value outside the signed type.
\<close>

definition EncodeZigzag32_overflows :: "u32 \<Rightarrow> bool" where
  "EncodeZigzag32_overflows v =
     (if sint v < 0 then - sint v \<ge> 2 ^ 31 else sint v * 2 \<ge> 2 ^ 31)"

definition EncodeZigzag64_overflows :: "u64 \<Rightarrow> bool" where
  "EncodeZigzag64_overflows v =
     (if sint v < 0 then - sint v \<ge> 2 ^ 63 else sint v * 2 \<ge> 2 ^ 63)"

section \<open>Base-128 bytes\<close>

text \<open>
  The loops of \<open>writeUint32\<close> and \<open>writeUint64\<close>: the bytes that end up in the local array \<open>tmp\<close>,
  in order.
\<close>

function varint32 :: "u32 \<Rightarrow> byte list" where
  "varint32 value =
     (if 0x80 \<le> value then ucast ((value AND 0x7F) OR 0x80) # varint32 (drop_bit 7 value)
      else [ucast value])"
  by pat_completeness auto
termination
  by (relation "measure unat") (auto simp: drop_bit_eq_div word_le_nat_alt unat_div)

function varint64 :: "u64 \<Rightarrow> byte list" where
  "varint64 value =
     (if 0x80 \<le> value then ucast ((value AND 0x7F) OR 0x80) # varint64 (drop_bit 7 value)
      else [ucast value])"
  by pat_completeness auto
termination
  by (relation "measure unat") (auto simp: drop_bit_eq_div word_le_nat_alt unat_div)

declare varint32.simps [simp del] varint64.simps [simp del]

text \<open>The reference: base-128 digits, least significant first, all but the last one marked.\<close>

fun varint_ref :: "nat \<Rightarrow> byte list" where
  "varint_ref n =
     (if n < 128 then [word_of_nat n]
      else (word_of_nat (n mod 128) OR 0x80) # varint_ref (n div 128))"

declare varint_ref.simps [simp del]

section \<open>Facts on ZigZag\<close>

lemma drop_double:
  fixes v :: "'a::len word"
  assumes "n < LENGTH('a)" "n \<noteq> LENGTH('a) - Suc 0"
  shows "bit (v * 2) (Suc n) = bit v n"
  using assms by (auto simp: mult.commute [of v] bit_double_iff)

lemma zigzag_inverse_nonneg:
  fixes v :: "'a::len word"
  assumes "0 \<le> sint v"
  shows "drop_bit 1 (v * 2) XOR - ((v * 2) AND 1) = v"
proof -
  have m: "\<not> bit v (LENGTH('a) - Suc 0)" using assms by (simp add: bit_last_iff)
  have "drop_bit 1 (v * 2) = v"
  proof (rule bit_word_eqI)
    fix n assume "n < LENGTH('a)"
    then show "bit (drop_bit 1 (v * 2)) n = bit v n"
      using m by (cases "n = LENGTH('a) - Suc 0") (auto simp: bit_simps drop_double)
  qed
  moreover have "(v * 2) AND 1 = 0"
    by (rule bit_word_eqI) (auto simp: bit_simps mult.commute [of v] bit_double_iff)
  ultimately show ?thesis by simp
qed

lemma zigzag_inverse_neg:
  fixes v :: "'a::len word"
  assumes "sint v < 0"
  shows "drop_bit 1 (- v * 2 - 1) XOR - ((- v * 2 - 1) AND 1) = v"
proof -
  have m: "bit v (LENGTH('a) - Suc 0)" using assms by (simp add: bit_last_iff)
  have eq: "- v * 2 - 1 = NOT (v * 2)" by (simp add: not_eq_complement)
  have "drop_bit 1 (NOT (v * 2)) XOR - 1 = v"
  proof (rule bit_word_eqI)
    fix n assume "n < LENGTH('a)"
    then show "bit (drop_bit 1 (NOT (v * 2)) XOR - 1) n = bit v n"
      using m by (cases "n = LENGTH('a) - Suc 0") (auto simp: bit_simps drop_double)
  qed
  moreover have "NOT (v * 2) AND 1 = 1"
    by (rule bit_word_eqI) (auto simp: bit_simps mult.commute [of v] bit_double_iff)
  ultimately show ?thesis unfolding eq by simp
qed

lemma DecodeZigzag32_Encode [simp]: "DecodeZigzag32 (EncodeZigzag32 v) = v"
  by (simp add: DecodeZigzag32_def EncodeZigzag32_def 
      zigzag_inverse_nonneg [simplified] zigzag_inverse_neg [simplified])

lemma DecodeZigzag64_Encode [simp]: "DecodeZigzag64 (EncodeZigzag64 v) = v"
  by (simp add: DecodeZigzag64_def EncodeZigzag64_def 
      zigzag_inverse_nonneg [simplified] zigzag_inverse_neg [simplified])

section \<open>Facts on base-128 bytes\<close>

lemma ucast_eq_of_nat: "(ucast (w :: 'a::len word) :: 'b::len word) = word_of_nat (unat w)"
  by transfer simp

lemma low7_byte: "(ucast ((value :: 'a::len word) AND 0x7F) :: byte) = word_of_nat (unat value mod 128)"
proof -
  have "value AND 0x7F = take_bit 7 value" by (simp add: take_bit_eq_mask mask_numeral)
  then have "unat (value AND 0x7F) = unat value mod 128"
    by (simp only: unsigned_take_bit_eq) (simp add: take_bit_eq_mod)
  then show ?thesis by (simp only: ucast_eq_of_nat)
qed

lemma marked_byte:
  assumes "8 \<le> LENGTH('a::len)"
  shows "(ucast (((value :: 'a word) AND 0x7F) OR 0x80) :: byte) = word_of_nat (unat value mod 128) OR 0x80"
proof -
  have "ucast (0x80 :: 'a word) = (0x80 :: byte)"
    using assms by (simp add: unsigned_numeral take_bit_word_eq_self)
  then show ?thesis by (simp only: unsigned_or_eq low7_byte)
qed

lemma varint32_ref: "varint32 v = varint_ref (unat v)"
proof (induction v rule: varint32.induct)
  case (1 x)
  have shift: "unat (drop_bit 7 x) = unat x div 128"
    by (simp add: drop_bit_eq_div unat_div)
  have mark: "(ucast ((x AND 0x7F) OR 0x80) :: byte) = word_of_nat (unat x mod 128) OR 0x80"
    by (rule marked_byte) simp
  show ?case
  proof (cases "0x80 \<le> x")
    case True
    moreover from True have "\<not> unat x < 128" by (simp add: word_le_nat_alt)
    ultimately show ?thesis using 1 shift
      by (subst varint32.simps, subst varint_ref.simps) (simp add: mark)
  next
    case False
    moreover from False have "unat x < 128" by (simp add: word_le_nat_alt)
    ultimately show ?thesis
      by (subst varint32.simps, subst varint_ref.simps) (simp only: ucast_eq_of_nat, simp)
  qed
qed

lemma varint64_ref: "varint64 v = varint_ref (unat v)"
proof (induction v rule: varint64.induct)
  case (1 x)
  have shift: "unat (drop_bit 7 x) = unat x div 128"
    by (simp add: drop_bit_eq_div unat_div)
  have mark: "(ucast ((x AND 0x7F) OR 0x80) :: byte) = word_of_nat (unat x mod 128) OR 0x80"
    by (rule marked_byte) simp
  show ?case
  proof (cases "0x80 \<le> x")
    case True
    moreover from True have "\<not> unat x < 128" by (simp add: word_le_nat_alt)
    ultimately show ?thesis using 1 shift
      by (subst varint64.simps, subst varint_ref.simps) (simp add: mark)
  next
    case False
    moreover from False have "unat x < 128" by (simp add: word_le_nat_alt)
    ultimately show ?thesis
      by (subst varint64.simps, subst varint_ref.simps) (simp only: ucast_eq_of_nat, simp)
  qed
qed

lemma length_varint_ref: "0 < k \<Longrightarrow> n < 2 ^ (7 * k) \<Longrightarrow> length (varint_ref n) \<le> k"
proof (induction n arbitrary: k rule: varint_ref.induct)
  case (1 n)
  show ?case
  proof (cases "n < 128")
    case True
    with 1 show ?thesis by (simp add: varint_ref.simps [of n])
  next
    case False
    then obtain j where k: "k = Suc j" "0 < j"
      using 1 by (cases k; cases "k - 1") auto
    have "n div 128 < 2 ^ (7 * j)"
      using 1 k by (simp add: div_less_iff_less_mult power_add mult.commute)
    then have "length (varint_ref (n div 128)) \<le> j" using 1(1) False k by blast
    with False k show ?thesis by (simp add: varint_ref.simps [of n])
  qed
qed

lemma varint_ref_nonempty [simp]: "varint_ref n \<noteq> []"
  by (subst varint_ref.simps) simp

text \<open>The arrays \<open>uint8_t tmp[5]\<close> and \<open>uint8_t tmp[10]\<close> are never overrun.\<close>

lemma length_varint32: "length (varint32 v) \<le> 5"
  unfolding varint32_ref
  by (rule length_varint_ref) (use unat_bound [of v] in simp_all)

lemma length_varint64: "length (varint64 v) \<le> 10"
  unfolding varint64_ref
  by (rule length_varint_ref) (use unat_bound [of v] in simp_all)

text \<open>How a byte of the coding reads back.\<close>

lemma unmarked_byte:
  assumes "m < 128"
  shows "(word_of_nat m :: byte) < 0x80"
    and "(ucast (word_of_nat m :: byte) :: 'a::len word) = word_of_nat m"
proof -
  have u: "unat (word_of_nat m :: byte) = m" using assms by (simp add: unat_of_nat)
  then show "(word_of_nat m :: byte) < 0x80" using assms by (simp add: word_less_nat_alt)
  show "(ucast (word_of_nat m :: byte) :: 'a word) = word_of_nat m"
    by (simp only: ucast_eq_of_nat u)
qed

lemma marked_byte_read:
  assumes "m < 128"
  shows "\<not> (word_of_nat m OR 0x80 :: byte) < 0x80"
    and "(ucast ((word_of_nat m OR 0x80) AND 0x7F :: byte) :: 'a::len word) = word_of_nat m"
proof -
  show "\<not> (word_of_nat m OR 0x80 :: byte) < 0x80" by (simp add: not_less le_word_or1)
  have "(word_of_nat m OR 0x80) AND 0x7F = (word_of_nat m AND 0x7F :: byte)"
    by (simp add: bit.conj_disj_distrib2)
  also have "\<dots> = take_bit 7 (word_of_nat m)"
    by (simp add: take_bit_eq_mask mask_numeral)
  also have "\<dots> = word_of_nat m"
    using assms by (simp add: word_unat_eq_iff unsigned_take_bit_eq unat_of_nat take_bit_eq_mod unat_mod)
  finally show "(ucast ((word_of_nat m OR 0x80) AND 0x7F :: byte) :: 'a word) = word_of_nat m"
    using unmarked_byte(2) [OF assms] by simp
qed

lemma word_of_nat_digits:
  "(word_of_nat m :: 'a::len word) = word_of_nat (m mod 128) OR push_bit 7 (word_of_nat (m div 128))"
  by (rule bit_word_eqI) (auto simp: bit_simps simp flip: take_bit_eq_mod [where n = 7, simplified]
      drop_bit_eq_div [where n = 7, simplified])

section \<open>Values and lengths of the codings\<close>

lemma uint_zigzag:
  fixes v :: "'a::len word"
  shows "uint (if sint v < 0 then (- v) * 2 - 1 else v * 2) =
    (if 0 \<le> sint v then 2 * sint v else - 2 * sint v - 1)"
proof -
  have b: "sint v < 2 ^ (LENGTH('a) - 1)" "- (2 ^ (LENGTH('a) - 1)) \<le> sint v"
    using sint_less [of v] sint_greater_eq [of v] by simp_all
  have p: "(2::int) ^ LENGTH('a) = 2 * 2 ^ (LENGTH('a) - 1)"
    by (metis One_nat_def Suc_pred len_gt_0 power_Suc)
  have u: "uint (word_of_int k :: 'a word) = k" if "0 \<le> k" "k < 2 ^ LENGTH('a)" for k
    using that by (simp add: uint_word_of_int)
  have v: "word_of_int (sint v) = v" by simp
  have "v * 2 = word_of_int (2 * sint v)" "(- v) * 2 - 1 = word_of_int (- 2 * sint v - 1)"
    by (simp_all add: algebra_simps)
  then show ?thesis using b p u [of "2 * sint v"] u [of "- 2 * sint v - 1"]
    by (cases "0 \<le> sint v") (simp_all only: not_le if_True if_False not_less [symmetric], auto)
qed

lemma varint_ref_above: "n < 128 ^ length (varint_ref n)"
proof (induction n rule: varint_ref.induct)
  case (1 n)
  then show ?case
    by (cases "n < 128") (simp_all add: varint_ref.simps [of n] div_less_iff_less_mult mult.commute)
qed

lemma varint_ref_below: "n < 128 ^ (length (varint_ref n) - 1) \<Longrightarrow> length (varint_ref n) = 1"
proof (induction n rule: varint_ref.induct)
  case (1 n)
  show ?case
  proof (cases "n < 128")
    case False
    let ?l = "length (varint_ref (n div 128))"
    have "0 < ?l" by simp
    then obtain k where k: "?l = Suc k" by (metis gr0_conv_Suc)
    have "n < 128 ^ ?l" using 1(2) False by (simp add: varint_ref.simps [of n])
    then have "n div 128 < 128 ^ (?l - 1)" using k by (simp add: div_less_iff_less_mult mult.commute)
    then have "n < 128 ^ 1" using 1(1) [OF False] \<open>n < 128 ^ ?l\<close> by metis
    with False show ?thesis by simp
  qed (simp add: varint_ref.simps [of n])
qed

lemmas varint_ref_length = varint_ref_above varint_ref_below

end
