(* ===== verification/ByteArray.thy ===== *)
theory ByteArray
  imports Varint
begin

text \<open>
  The chained buffer of \<open>dag/bytearray.cpp\<close>: the class \<open>ByteArray\<close> with its blocks, its cursor and
  the operations that move bytes. The chain that starts at \<open>m_root\<close> is the list of the blocks'
  contents in \<open>next\<close> order (a block's \<open>size\<close> is the length of its array, as both constructors of
  \<open>Node\<close> make it); the pointer \<open>m_cur\<close> is an index into that list or null. What an uninitialised
  array of \<open>new char[s]\<close> holds is not determined by the language: the field \<open>m_fresh\<close> stands for
  it, and every theorem holds whatever it is. Each dereference of a node pointer and each
  \<open>memcpy\<close> is checked, so that a null pointer or an access outside a block is a fault of the
  model. The abstraction is the pair of the written bytes and the position; the main results
  are that every operation keeps the invariant \<open>ba_inv\<close>, never faults beyond its documented
  exception, and acts on the abstraction as on a flat array with a cursor.
\<close>

section \<open>State\<close>

record ByteArray =
  m_baseSize :: nat
  m_position :: nat
  m_capacity :: nat
  m_size :: nat
  m_endian :: byte_order
  m_root :: "byte list list"
  m_cur :: "nat option"
  m_fresh :: "nat \<Rightarrow> byte"

definition Node_new :: "(nat \<Rightarrow> byte) \<Rightarrow> nat \<Rightarrow> byte list" where
  "Node_new fresh s = map fresh [0..<s]"

definition ByteArray_new :: "(nat \<Rightarrow> byte) \<Rightarrow> nat \<Rightarrow> ByteArray" where
  "ByteArray_new fresh base_size =
     \<lparr>m_baseSize = base_size, m_position = 0, m_capacity = base_size, m_size = 0,
      m_endian = DAG_BIG_ENDIAN, m_root = [Node_new fresh base_size], m_cur = Some 0,
      m_fresh = fresh\<rparr>"

definition isLittleEndian :: "ByteArray \<Rightarrow> bool" where
  "isLittleEndian ba = (m_endian ba = DAG_LITTLE_ENDIAN)"

definition setIsLittleEndian :: "bool \<Rightarrow> ByteArray \<Rightarrow> ByteArray" where
  "setIsLittleEndian val ba =
     (if val then ba\<lparr>m_endian := DAG_LITTLE_ENDIAN\<rparr> else ba\<lparr>m_endian := DAG_BIG_ENDIAN\<rparr>)"

definition getReadSize :: "ByteArray \<Rightarrow> nat" where
  "getReadSize ba = usub64 (m_size ba) (m_position ba)"

definition getCapacity :: "ByteArray \<Rightarrow> nat" where
  "getCapacity ba = usub64 (m_capacity ba) (m_position ba)"

section \<open>Node pointers and memory accesses\<close>

definition node_next :: "ByteArray \<Rightarrow> nat \<Rightarrow> nat option" where
  "node_next ba c = (if Suc c < length (m_root ba) then Some (Suc c) else None)"

definition node_size :: "ByteArray \<Rightarrow> nat option \<Rightarrow> nat res" where
  "node_size ba p =
     (case p of None \<Rightarrow> Inl Null_Deref
      | Some c \<Rightarrow> if c < length (m_root ba) then Inr (length (m_root ba ! c)) else Inl Out_Of_Bounds)"

definition node_store :: "nat \<Rightarrow> nat \<Rightarrow> byte list \<Rightarrow> ByteArray \<Rightarrow> ByteArray res" where
  "node_store c off bs ba =
     (if c < length (m_root ba) \<and> off + length bs \<le> length (m_root ba ! c)
      then Inr (ba\<lparr>m_root := (m_root ba)[c := overwrite off bs (m_root ba ! c)]\<rparr>)
      else Inl Out_Of_Bounds)"

definition node_load :: "nat \<Rightarrow> nat \<Rightarrow> nat \<Rightarrow> ByteArray \<Rightarrow> byte list res" where
  "node_load c off k ba =
     (if c < length (m_root ba) \<and> off + k \<le> length (m_root ba ! c)
      then Inr (take k (drop off (m_root ba ! c)))
      else Inl Out_Of_Bounds)"

section \<open>Growing the chain\<close>

fun add_nodes :: "nat \<Rightarrow> ByteArray \<Rightarrow> ByteArray" where
  "add_nodes 0 ba = ba"
| "add_nodes (Suc n) ba =
     add_nodes n (ba\<lparr>m_root := m_root ba @ [Node_new (m_fresh ba) (m_baseSize ba)],
                     m_capacity := m_capacity ba + m_baseSize ba\<rparr>)"

text \<open>
  The number of new blocks is \<open>ceil(1.0 * size / m_baseSize)\<close>; the division in \<open>double\<close> has the
  exact ceiling for sizes below \<open>2 ^ 53\<close>. With a block size of 0 the quotient is infinite and
  its conversion to \<open>size_t\<close> undefined.
\<close>

definition addCapacity :: "nat \<Rightarrow> ByteArray \<Rightarrow> ByteArray res" where
  "addCapacity n ba =
     (if n = 0 then Inr ba
      else let old_cap = getCapacity ba in
        if old_cap \<ge> n then Inr ba
        else if m_baseSize ba = 0 then Inl Div_By_Zero
        else let n' = n - old_cap;
                 count = (n' + m_baseSize ba - 1) div m_baseSize ba;
                 first = (if count = 0 then None else Some (length (m_root ba)));
                 ba' = add_nodes count ba
             in Inr (if old_cap = 0 then ba'\<lparr>m_cur := first\<rparr> else ba'))"

section \<open>Writing\<close>

text \<open>
  The loop of \<open>write\<close>. The list is what is left of the caller's buffer, so its length is the
  variable \<open>size\<close>. Every round that is not the last one moves to the next block.
\<close>

function write_loop :: "nat \<Rightarrow> nat \<Rightarrow> byte list \<Rightarrow> ByteArray \<Rightarrow> ByteArray res" where
  "write_loop npos ncap buf ba =
     (if buf = [] then Inr ba
      else case m_cur ba of
        None \<Rightarrow> Inl Null_Deref
      | Some c \<Rightarrow>
          if length buf \<le> ncap then
            rbind (node_store c npos buf ba) (\<lambda>ba'.
              let ba'' = (if length (m_root ba' ! c) = npos + length buf
                          then ba'\<lparr>m_cur := node_next ba' c\<rparr> else ba')
              in Inr (ba''\<lparr>m_position := m_position ba'' + length buf\<rparr>))
          else
            rbind (node_store c npos (take ncap buf) ba) (\<lambda>ba'.
              let ba'' = ba'\<lparr>m_position := m_position ba' + ncap, m_cur := node_next ba' c\<rparr>
              in rbind (node_size ba'' (m_cur ba'')) (\<lambda>sz.
                   write_loop 0 sz (drop ncap buf) ba'')))"
  by pat_completeness auto
termination
  by (relation "measure (\<lambda>(npos, ncap, buf, ba).
        case m_cur ba of None \<Rightarrow> 0 | Some c \<Rightarrow> length (m_root ba) - c)")
    (auto simp: node_store_def node_next_def split: if_splits)

declare write_loop.simps [simp del]

definition ba_write :: "byte list \<Rightarrow> ByteArray \<Rightarrow> ByteArray res" where
  "ba_write buf ba =
     (if buf = [] then Inr ba
      else rbind (addCapacity (length buf) ba) (\<lambda>ba.
        if m_baseSize ba = 0 then Inl Div_By_Zero
        else let npos = m_position ba mod m_baseSize ba in
          rbind (node_size ba (m_cur ba)) (\<lambda>sz.
            rbind (write_loop npos (usub64 sz npos) buf ba) (\<lambda>ba.
              Inr (if m_position ba > m_size ba then ba\<lparr>m_size := m_position ba\<rparr> else ba)))))"

section \<open>Reading\<close>

function read_loop :: "nat \<Rightarrow> nat \<Rightarrow> nat \<Rightarrow> ByteArray \<Rightarrow> (byte list \<times> ByteArray) res" where
  "read_loop npos ncap n ba =
     (if n = 0 then Inr ([], ba)
      else case m_cur ba of
        None \<Rightarrow> Inl Null_Deref
      | Some c \<Rightarrow>
          if n \<le> ncap then
            rbind (node_load c npos n ba) (\<lambda>bs.
              let ba' = (if length (m_root ba ! c) = npos + n
                         then ba\<lparr>m_cur := node_next ba c\<rparr> else ba)
              in Inr (bs, ba'\<lparr>m_position := m_position ba' + n\<rparr>))
          else
            rbind (node_load c npos ncap ba) (\<lambda>bs.
              let ba' = ba\<lparr>m_position := m_position ba + ncap, m_cur := node_next ba c\<rparr>
              in rbind (node_size ba' (m_cur ba')) (\<lambda>sz.
                   rmap (\<lambda>(bs', ba''). (bs @ bs', ba'')) (read_loop 0 sz (n - ncap) ba'))))"
  by pat_completeness auto
termination
  by (relation "measure (\<lambda>(npos, ncap, n, ba).
        case m_cur ba of None \<Rightarrow> 0 | Some c \<Rightarrow> length (m_root ba) - c)")
    (auto simp: node_load_def node_next_def split: if_splits)

declare read_loop.simps [simp del]

definition ba_read :: "nat \<Rightarrow> ByteArray \<Rightarrow> (byte list \<times> ByteArray) res" where
  "ba_read n ba =
     (if n > getReadSize ba then Inl (Out_Of_Range ''not enough len'')
      else if m_baseSize ba = 0 then Inl Div_By_Zero
      else let npos = m_position ba mod m_baseSize ba in
        rbind (node_size ba (m_cur ba)) (\<lambda>sz. read_loop npos (usub64 sz npos) n ba))"

text \<open>
  The overload that reads at a given position and leaves the array as it is: it walks to the
  block of the position, but takes the room left in that block from \<open>m_cur\<close>.
\<close>

fun node_walk :: "nat \<Rightarrow> ByteArray \<Rightarrow> nat option \<Rightarrow> nat option res" where
  "node_walk 0 ba cur = Inr cur"
| "node_walk (Suc k) ba cur =
     (case cur of None \<Rightarrow> Inl Null_Deref | Some c \<Rightarrow> node_walk k ba (node_next ba c))"

function read_at_loop :: "nat option \<Rightarrow> nat \<Rightarrow> nat \<Rightarrow> nat \<Rightarrow> ByteArray \<Rightarrow> byte list res" where
  "read_at_loop cur npos ncap n ba =
     (if n = 0 then Inr []
      else case cur of
        None \<Rightarrow> Inl Null_Deref
      | Some c \<Rightarrow>
          if n \<le> ncap then node_load c npos n ba
          else
            rbind (node_load c npos ncap ba) (\<lambda>bs.
              rbind (node_size ba (node_next ba c)) (\<lambda>sz.
                rmap (\<lambda>bs'. bs @ bs') (read_at_loop (node_next ba c) 0 sz (n - ncap) ba))))"
  by pat_completeness auto
termination
  by (relation "measure (\<lambda>(cur, npos, ncap, n, ba).
        case cur of None \<Rightarrow> 0 | Some c \<Rightarrow> length (m_root ba) - c)")
    (auto simp: node_load_def node_next_def split: if_splits)

declare read_at_loop.simps [simp del]

definition ba_read_at :: "nat \<Rightarrow> nat \<Rightarrow> ByteArray \<Rightarrow> byte list res" where
  "ba_read_at n position ba =
     (if n > usub64 (m_size ba) position then Inl (Out_Of_Range ''not enough len'')
      else if m_baseSize ba = 0 then Inl Div_By_Zero
      else rbind (node_walk (position div m_baseSize ba) ba (Some 0)) (\<lambda>cur.
        let npos = position mod m_baseSize ba in
        rbind (node_size ba (m_cur ba)) (\<lambda>sz. read_at_loop cur npos (usub64 sz npos) n ba)))"

section \<open>Moving the cursor\<close>

function seek_loop :: "nat \<Rightarrow> nat option \<Rightarrow> ByteArray \<Rightarrow> nat option res" where
  "seek_loop v cur ba =
     (case cur of
        None \<Rightarrow> Inl Null_Deref
      | Some c \<Rightarrow>
          if length (m_root ba) \<le> c then Inl Out_Of_Bounds
          else if v > length (m_root ba ! c)
          then seek_loop (v - length (m_root ba ! c)) (node_next ba c) ba
          else if v = length (m_root ba ! c) then Inr (node_next ba c)
          else Inr (Some c))"
  by pat_completeness auto
termination
  by (relation "measure (\<lambda>(v, cur, ba).
        case cur of None \<Rightarrow> 0 | Some c \<Rightarrow> length (m_root ba) - c)")
    (auto simp: node_next_def split: if_splits)

declare seek_loop.simps [simp del]

definition setPosition :: "nat \<Rightarrow> ByteArray \<Rightarrow> ByteArray res" where
  "setPosition v ba =
     (if v > m_capacity ba then Inl (Out_Of_Range ''set_position out of range'')
      else let ba' = ba\<lparr>m_position := v\<rparr>;
               ba'' = (if m_position ba' > m_size ba' then ba'\<lparr>m_size := m_position ba'\<rparr> else ba')
           in rmap (\<lambda>cur. ba''\<lparr>m_cur := cur\<rparr>) (seek_loop v (Some 0) ba''))"

definition ba_clear :: "ByteArray \<Rightarrow> ByteArray" where
  "ba_clear ba =
     ba\<lparr>m_position := 0, m_size := 0, m_capacity := m_baseSize ba,
        m_root := take 1 (m_root ba), m_cur := Some 0\<rparr>"

section \<open>Invariant and abstraction\<close>

definition cur_at :: "ByteArray \<Rightarrow> nat \<Rightarrow> nat option" where
  "cur_at ba p = (if p < m_capacity ba then Some (p div m_baseSize ba) else None)"

definition ba_shape :: "ByteArray \<Rightarrow> bool" where
  "ba_shape ba \<longleftrightarrow> 0 < m_baseSize ba \<and> m_root ba \<noteq> [] \<and>
     (\<forall>n \<in> set (m_root ba). length n = m_baseSize ba) \<and>
     m_capacity ba = length (m_root ba) * m_baseSize ba"

definition ba_inv :: "ByteArray \<Rightarrow> bool" where
  "ba_inv ba \<longleftrightarrow> ba_shape ba \<and> m_position ba \<le> m_size ba \<and> m_size ba \<le> m_capacity ba \<and>
     m_cur ba = cur_at ba (m_position ba)"

definition contents :: "ByteArray \<Rightarrow> byte list" where
  "contents ba = take (m_size ba) (concat (m_root ba))"

text \<open>The array with its cursor moved, and nothing else changed.\<close>

definition moved :: "nat \<Rightarrow> ByteArray \<Rightarrow> ByteArray" where
  "moved p ba = ba\<lparr>m_position := p, m_cur := cur_at ba p\<rparr>"

text \<open>The flat array with a cursor: writing replaces what it meets and extends the array.\<close>

definition spec_write :: "byte list \<Rightarrow> byte list \<times> nat \<Rightarrow> byte list \<times> nat" where
  "spec_write bs s = (case s of (d, p) \<Rightarrow> (take p d @ bs @ drop (p + length bs) d, p + length bs))"

section \<open>Facts on blocks and positions\<close>

lemma usub64_le [simp]: "b \<le> a \<Longrightarrow> usub64 a b = a - b"
  by (simp add: usub64_def)

lemma next_block_position:
  fixes b :: nat
  assumes "0 < b"
  shows "p + (b - p mod b) = Suc (p div b) * b"
proof -
  have "p mod b < b" "p div b * b + p mod b = p" using assms by simp_all
  then show ?thesis by (simp only: mult_Suc)
qed

lemma block_of_advance:
  fixes b :: nat
  assumes "0 < b" "p mod b + k \<le> b"
  shows "(p + k) div b = (if p mod b + k = b then Suc (p div b) else p div b)"
proof -
  have "p + k = p div b * b + (p mod b + k)" by simp
  then have "(p + k) div b = p div b + (p mod b + k) div b"
    using assms by (metis add.commute div_mult_self1 less_numeral_extra(3) mult.commute)
  then show ?thesis using assms by auto
qed

lemma block_in_chain:
  assumes "ba_shape ba" "p < m_capacity ba"
  shows "p div m_baseSize ba < length (m_root ba)"
  using assms by (simp add: ba_shape_def less_mult_imp_div_less)

lemma block_length:
  "ba_shape ba \<Longrightarrow> c < length (m_root ba) \<Longrightarrow> length (m_root ba ! c) = m_baseSize ba"
  by (simp add: ba_shape_def)

lemma length_chain: "ba_shape ba \<Longrightarrow> length (concat (m_root ba)) = m_capacity ba"
  by (simp add: ba_shape_def length_concat_uniform)

lemma node_size_chain:
  "ba_shape ba \<Longrightarrow> c < length (m_root ba) \<Longrightarrow> node_size ba (Some c) = Inr (m_baseSize ba)"
  by (simp add: node_size_def ba_shape_def)

lemma node_next_cur_at:
  assumes "ba_shape ba"
  shows "node_next ba c = cur_at ba (Suc c * m_baseSize ba)"
proof -
  have b: "0 < m_baseSize ba" using assms by (simp add: ba_shape_def)
  then have "Suc c * m_baseSize ba < m_capacity ba \<longleftrightarrow> Suc c < length (m_root ba)"
    using assms by (simp only: ba_shape_def mult_less_cancel2) simp
  with b show ?thesis by (simp only: node_next_def cur_at_def) simp
qed

lemma cur_at_cong:
  "m_capacity ba' = m_capacity ba \<Longrightarrow> m_baseSize ba' = m_baseSize ba \<Longrightarrow> cur_at ba' = cur_at ba"
  by (simp add: cur_at_def fun_eq_iff)

lemma cur_at_update [simp]:
  "cur_at (ba\<lparr>m_root := r\<rparr>) = cur_at ba"
  "cur_at (ba\<lparr>m_position := q\<rparr>) = cur_at ba"
  "cur_at (ba\<lparr>m_cur := c\<rparr>) = cur_at ba"
  "cur_at (ba\<lparr>m_size := n\<rparr>) = cur_at ba"
  "cur_at (ba\<lparr>m_endian := e\<rparr>) = cur_at ba"
  by (simp_all add: cur_at_def fun_eq_iff)

lemma ba_shape_update [simp]:
  "ba_shape (ba\<lparr>m_position := q\<rparr>) = ba_shape ba"
  "ba_shape (ba\<lparr>m_cur := c\<rparr>) = ba_shape ba"
  "ba_shape (ba\<lparr>m_size := n\<rparr>) = ba_shape ba"
  "ba_shape (ba\<lparr>m_endian := e\<rparr>) = ba_shape ba"
  by (simp_all add: ba_shape_def)

lemma node_next_update [simp]:
  "node_next (ba\<lparr>m_position := q\<rparr>) = node_next ba"
  "node_next (ba\<lparr>m_cur := d\<rparr>) = node_next ba"
  by (simp_all add: node_next_def fun_eq_iff)

lemma node_store_chain:
  assumes "ba_shape ba" "c < length (m_root ba)" "off + length bs \<le> m_baseSize ba"
  obtains r where "node_store c off bs ba = Inr (ba\<lparr>m_root := r\<rparr>)"
    and "ba_shape (ba\<lparr>m_root := r\<rparr>)" and "length r = length (m_root ba)"
    and "concat r = overwrite (c * m_baseSize ba + off) bs (concat (m_root ba))"
proof -
  define r where "r = (m_root ba)[c := overwrite off bs (m_root ba ! c)]"
  have l: "length (m_root ba ! c) = m_baseSize ba" using assms by (simp add: block_length)
  have "length (overwrite off bs (m_root ba ! c)) = m_baseSize ba"
    using assms l by simp
  then have "\<forall>n \<in> set r. length n = m_baseSize ba"
    using assms(1) set_update_subset_insert unfolding r_def ba_shape_def by fastforce
  then have "ba_shape (ba\<lparr>m_root := r\<rparr>)"
    using assms(1) by (auto simp: ba_shape_def r_def)
  moreover have "node_store c off bs ba = Inr (ba\<lparr>m_root := r\<rparr>)"
    using assms l by (simp add: node_store_def r_def)
  moreover have "concat r = overwrite (c * m_baseSize ba + off) bs (concat (m_root ba))"
    using assms concat_uniform_overwrite unfolding r_def ba_shape_def by blast
  ultimately show ?thesis by (intro that) (simp_all add: r_def)
qed

lemma node_load_chain:
  assumes "ba_shape ba" "p < m_capacity ba" "p mod m_baseSize ba + k \<le> m_baseSize ba"
  shows "node_load (p div m_baseSize ba) (p mod m_baseSize ba) k ba =
    Inr (take k (drop p (concat (m_root ba))))"
proof -
  note c = block_in_chain [OF assms(1,2)]
  have "take k (drop (p mod m_baseSize ba) (m_root ba ! (p div m_baseSize ba))) =
      take k (drop (p div m_baseSize ba * m_baseSize ba + p mod m_baseSize ba) (concat (m_root ba)))"
    using assms c by (intro concat_uniform_segment) (auto simp: ba_shape_def)
  then show ?thesis using assms c by (simp add: node_load_def block_length)
qed

section \<open>The loops\<close>

text \<open>
  Where the cursor of a loop goes: within the block or to the start of the next one in the
  last round, to the next block in any other.
\<close>

lemma cur_at_last:
  assumes sh: "ba_shape ba" and p: "p < m_capacity ba" and fits: "p mod m_baseSize ba + k \<le> m_baseSize ba"
  shows "cur_at ba (p + k) = (if m_baseSize ba = p mod m_baseSize ba + k
     then node_next ba (p div m_baseSize ba) else Some (p div m_baseSize ba))"
proof -
  let ?b = "m_baseSize ba"
  have b: "0 < ?b" using sh by (simp add: ba_shape_def)
  show ?thesis
  proof (cases "?b = p mod ?b + k")
    case True
    then have "p + k = Suc (p div ?b) * ?b" using next_block_position [OF b, of p] by simp
    with True show ?thesis by (simp add: node_next_cur_at [OF sh])
  next
    case False
    then have c: "(p + k) div ?b = p div ?b" using block_of_advance [OF b fits] by simp
    then have "(p + k) div ?b < length (m_root ba)" using block_in_chain [OF sh p] by simp
    then have "p + k < m_capacity ba" using sh b by (simp add: ba_shape_def div_less_iff_less_mult)
    with False c show ?thesis by (simp add: cur_at_def)
  qed
qed

lemma next_block:
  assumes sh: "ba_shape ba" and room: "p + (m_baseSize ba - p mod m_baseSize ba) < m_capacity ba"
  defines "q \<equiv> p + (m_baseSize ba - p mod m_baseSize ba)"
  shows "q div m_baseSize ba = Suc (p div m_baseSize ba)" "q mod m_baseSize ba = 0"
    and "node_next ba (p div m_baseSize ba) = Some (Suc (p div m_baseSize ba))"
    and "node_size ba (Some (Suc (p div m_baseSize ba))) = Inr (m_baseSize ba)"
proof -
  have b: "0 < m_baseSize ba" using sh by (simp add: ba_shape_def)
  have q: "q = Suc (p div m_baseSize ba) * m_baseSize ba"
    unfolding q_def by (rule next_block_position [OF b])
  show d: "q div m_baseSize ba = Suc (p div m_baseSize ba)" and "q mod m_baseSize ba = 0"
    using b unfolding q by (simp_all del: mult_Suc)
  have "q < m_capacity ba" using room by (simp add: q_def)
  then show "node_next ba (p div m_baseSize ba) = Some (Suc (p div m_baseSize ba))"
    using d by (simp only: node_next_cur_at [OF sh] q [symmetric]) (simp add: cur_at_def)
  show "node_size ba (Some (Suc (p div m_baseSize ba))) = Inr (m_baseSize ba)"
    using block_in_chain [OF sh \<open>q < m_capacity ba\<close>] d by (simp add: node_size_chain [OF sh])
qed

text \<open>One round of the write loop: the last one, and one that goes on in the next block.\<close>

lemma write_loop_last:
  assumes sh: "ba_shape ba" and cur: "m_cur ba = Some (m_position ba div m_baseSize ba)"
    and p: "m_position ba < m_capacity ba" and ne: "buf \<noteq> []"
    and fits: "m_position ba mod m_baseSize ba + length buf \<le> m_baseSize ba"
  shows "\<exists>r. write_loop (m_position ba mod m_baseSize ba)
        (m_baseSize ba - m_position ba mod m_baseSize ba) buf ba =
      Inr (ba\<lparr>m_root := r, m_position := m_position ba + length buf,
              m_cur := cur_at ba (m_position ba + length buf)\<rparr>) \<and>
      ba_shape (ba\<lparr>m_root := r\<rparr>) \<and> concat r = overwrite (m_position ba) buf (concat (m_root ba))"
proof -
  note c = block_in_chain [OF sh p]
  obtain r where r:
    "node_store (m_position ba div m_baseSize ba) (m_position ba mod m_baseSize ba) buf ba =
       Inr (ba\<lparr>m_root := r\<rparr>)"
    "ba_shape (ba\<lparr>m_root := r\<rparr>)" "length r = length (m_root ba)"
    "concat r = overwrite (m_position ba) buf (concat (m_root ba))"
    using node_store_chain [OF sh c fits] unfolding div_mult_mod_eq by blast
  have "length (r ! (m_position ba div m_baseSize ba)) = m_baseSize ba"
    using block_length [OF r(2)] c r(3) by simp
  moreover have "length buf \<le> m_baseSize ba - m_position ba mod m_baseSize ba"
    using fits by simp
  ultimately show ?thesis
    using ne cur r cur_at_last [OF r(2), of "m_position ba" "length buf"] p fits
    by (intro exI [of _ r]) (simp add: write_loop.simps Let_def)
qed

lemma write_loop_next:
  assumes sh: "ba_shape ba" and cur: "m_cur ba = Some (m_position ba div m_baseSize ba)"
    and room: "m_position ba + length buf \<le> m_capacity ba"
    and n: "n = m_baseSize ba - m_position ba mod m_baseSize ba" "n < length buf"
  obtains r where "ba_shape (ba\<lparr>m_root := r\<rparr>)"
    and "concat r = overwrite (m_position ba) (take n buf) (concat (m_root ba))"
    and "write_loop (m_position ba mod m_baseSize ba) n buf ba =
      write_loop ((m_position ba + n) mod m_baseSize ba)
        (m_baseSize ba - (m_position ba + n) mod m_baseSize ba) (drop n buf)
        (ba\<lparr>m_root := r, m_position := m_position ba + n, m_cur := cur_at ba (m_position ba + n)\<rparr>)"
proof -
  let ?b = "m_baseSize ba" and ?p = "m_position ba"
  have "0 < ?b" using sh by (simp add: ba_shape_def)
  then have le: "?p mod ?b + n = ?b" using n(1) mod_less_divisor [of ?b ?p] by simp
  have q: "?p + n < m_capacity ba" using n(2) room by linarith
  note c = block_in_chain [OF sh, of ?p]
  obtain r where r: "node_store (?p div ?b) (?p mod ?b) (take n buf) ba = Inr (ba\<lparr>m_root := r\<rparr>)"
    "ba_shape (ba\<lparr>m_root := r\<rparr>)" "concat r = overwrite ?p (take n buf) (concat (m_root ba))"
    using node_store_chain [OF sh c, of "?p mod ?b" "take n buf"] n(2) le q
    unfolding div_mult_mod_eq by (metis add_lessD1 length_take less_imp_le min_absorb2 order_refl)
  note nx = next_block [OF r(2), of ?p, simplified, folded n(1), OF q]
  have at: "cur_at ba (?p + n) = Some (Suc (?p div ?b))" using q nx(1) by (simp add: cur_at_def)
  have "node_size (ba\<lparr>m_root := r, m_position := ?p + n, m_cur := Some (Suc (?p div ?b))\<rparr>)
      (Some (Suc (?p div ?b))) = Inr ?b"
    using nx(4) by (simp add: node_size_def split: if_splits)
  with r nx at cur n(2) show ?thesis
    by (intro that [of r]) (auto simp: write_loop.simps [of "?p mod ?b" n] Let_def)
qed

lemma write_loop_correct:
  assumes "buf \<noteq> []" "ba_shape ba" "m_cur ba = Some (m_position ba div m_baseSize ba)"
    and "m_position ba + length buf \<le> m_capacity ba"
  shows "\<exists>r. write_loop (m_position ba mod m_baseSize ba)
        (m_baseSize ba - m_position ba mod m_baseSize ba) buf ba =
      Inr (ba\<lparr>m_root := r, m_position := m_position ba + length buf,
              m_cur := cur_at ba (m_position ba + length buf)\<rparr>) \<and>
      ba_shape (ba\<lparr>m_root := r\<rparr>) \<and> concat r = overwrite (m_position ba) buf (concat (m_root ba))"
  using assms
proof (induction buf arbitrary: ba rule: length_induct)
  case (1 buf)
  let ?b = "m_baseSize ba" and ?p = "m_position ba"
  let ?n = "?b - ?p mod ?b"
  have p: "?p < m_capacity ba" using 1(2,5) by (cases buf) auto
  have b: "0 < ?b" using 1(3) by (simp add: ba_shape_def)
  show ?case
  proof (cases "?n < length buf")
    case False
    then have "?p mod ?b + length buf \<le> ?b" using mod_less_divisor [OF b, of ?p] by linarith
    with write_loop_last [OF 1(3,4) p 1(2)] show ?thesis by blast
  next
    case True
    obtain r where r: "ba_shape (ba\<lparr>m_root := r\<rparr>)"
      "concat r = overwrite ?p (take ?n buf) (concat (m_root ba))"
      "write_loop (?p mod ?b) ?n buf ba =
        write_loop ((?p + ?n) mod ?b) (?b - (?p + ?n) mod ?b) (drop ?n buf)
          (ba\<lparr>m_root := r, m_position := ?p + ?n, m_cur := cur_at ba (?p + ?n)\<rparr>)"
      using write_loop_next [OF 1(3-5) refl True] by blast
    let ?ba = "ba\<lparr>m_root := r, m_position := ?p + ?n, m_cur := cur_at ba (?p + ?n)\<rparr>"
    have "drop ?n buf \<noteq> []" "length (drop ?n buf) < length buf"
      using True b mod_less_divisor [OF b, of ?p] by auto
    moreover have "ba_shape ?ba" using r(1) by (simp add: ba_shape_def)
    moreover have "m_cur ?ba = Some (m_position ?ba div m_baseSize ?ba)"
      using True 1(5) by (simp add: cur_at_def)
    moreover have "m_position ?ba + length (drop ?n buf) \<le> m_capacity ?ba" using True 1(5) by simp
    ultimately obtain r' where r': "write_loop ((?p + ?n) mod ?b) (?b - (?p + ?n) mod ?b) (drop ?n buf) ?ba =
        Inr (ba\<lparr>m_root := r', m_position := ?p + length buf, m_cur := cur_at ba (?p + length buf)\<rparr>)"
      "ba_shape (ba\<lparr>m_root := r'\<rparr>)" "concat r' = overwrite (?p + ?n) (drop ?n buf) (concat r)"
      using 1(1)[rule_format, of "drop ?n buf" ?ba] True by (auto simp: ba_shape_def)
    have "concat r' = overwrite ?p (take ?n buf @ drop ?n buf) (concat (m_root ba))"
      using overwrite_overwrite [of ?p "take ?n buf" "drop ?n buf" "concat (m_root ba)"]
        True 1(5) length_chain [OF 1(3)] by (simp add: r'(3) r(2))
    with r(3) r'(1,2) show ?thesis by auto
  qed
qed

text \<open>The read loop, in the same two kinds of rounds.\<close>

lemma read_loop_correct:
  assumes "ba_shape ba" "m_cur ba = Some (m_position ba div m_baseSize ba)"
    and "m_position ba < m_capacity ba" "m_position ba + n \<le> m_capacity ba"
  shows "read_loop (m_position ba mod m_baseSize ba)
      (m_baseSize ba - m_position ba mod m_baseSize ba) n ba =
    Inr (take n (drop (m_position ba) (concat (m_root ba))), moved (m_position ba + n) ba)"
  using assms
proof (induction n arbitrary: ba rule: less_induct)
  case (less n)
  let ?b = "m_baseSize ba" and ?p = "m_position ba"
  let ?k = "?b - ?p mod ?b"
  have b: "0 < ?b" using less(2) by (simp add: ba_shape_def)
  then have k: "0 < ?k" "?p mod ?b + ?k = ?b" using mod_less_divisor [OF b, of ?p] by simp_all
  note c = block_in_chain [OF less(2,4)]
  show ?case
  proof (cases "n \<le> ?k")
    case True
    then have fits: "?p mod ?b + n \<le> ?b" using k by linarith
    have "cur_at ba ?p = m_cur ba" using less(3,4) by (simp add: cur_at_def)
    with True show ?thesis
      using less(3) node_load_chain [OF less(2,4) fits] cur_at_last [OF less(2,4) fits]
        block_length [OF less(2) c] mod_less_divisor [OF b, of ?p]
      by (simp add: read_loop.simps [of _ ?k] moved_def Let_def)
  next
    case False
    let ?ba = "moved (?p + ?k) ba"
    have q: "?p + ?k < m_capacity ba" using False less(5) by linarith
    note nx = next_block [OF less(2) q]
    have at: "m_cur ?ba = Some (Suc (?p div ?b))" using q nx(1) by (simp add: moved_def cur_at_def)
    have "read_loop ((?p + ?k) mod ?b) (?b - (?p + ?k) mod ?b) (n - ?k) ?ba =
        Inr (take (n - ?k) (drop (?p + ?k) (concat (m_root ba))), moved (?p + n) ba)"
      using less(1)[of "n - ?k" ?ba] less(2,5) k q at nx(1) False
      by (simp add: moved_def)
    moreover have "node_size ?ba (m_cur ?ba) = Inr ?b" using nx(4) at
      by (simp add: moved_def node_size_def split: if_splits)
    moreover have "?ba = ba\<lparr>m_position := ?p + ?k, m_cur := node_next ba (?p div ?b)\<rparr>"
      using at nx(3) by (simp add: moved_def)
    moreover have "take ?k (drop ?p xs) @ take (n - ?k) (drop (?p + ?k) xs) = take n (drop ?p xs)"
      for xs :: "byte list"
      using False by (metis add.commute drop_drop le_add_diff_inverse nat_le_linear take_add)
    ultimately show ?thesis
      using False less(3) node_load_chain [OF less(2,4), of ?k] k nx(2)
      by (simp add: read_loop.simps [of "?p mod ?b" ?k] Let_def)
  qed
qed

lemma read_at_loop_correct:
  assumes "ba_shape ba" "p < m_capacity ba" "p + n \<le> m_capacity ba"
  shows "read_at_loop (Some (p div m_baseSize ba)) (p mod m_baseSize ba)
      (m_baseSize ba - p mod m_baseSize ba) n ba = Inr (take n (drop p (concat (m_root ba))))"
  using assms(2,3)
proof (induction n arbitrary: p rule: less_induct)
  case (less n)
  let ?b = "m_baseSize ba"
  let ?k = "?b - p mod ?b"
  have b: "0 < ?b" using assms(1) by (simp add: ba_shape_def)
  then have k: "0 < ?k" "p mod ?b + ?k = ?b" using mod_less_divisor [OF b, of p] by simp_all
  show ?case
  proof (cases "n \<le> ?k")
    case True
    then have "p mod ?b + n \<le> ?b" using k by linarith
    with True show ?thesis
      using node_load_chain [OF assms(1) less(2)] by (simp add: read_at_loop.simps [of _ _ ?k])
  next
    case False
    then have q: "p + ?k < m_capacity ba" using less(3) by linarith
    note nx = next_block [OF assms(1) q]
    have "read_at_loop (Some ((p + ?k) div ?b)) ((p + ?k) mod ?b) (?b - (p + ?k) mod ?b) (n - ?k) ba =
        Inr (take (n - ?k) (drop (p + ?k) (concat (m_root ba))))"
      using less(1)[of "n - ?k" "p + ?k"] less(3) k q False by simp
    moreover have "take ?k (drop p xs) @ take (n - ?k) (drop (p + ?k) xs) = take n (drop p xs)"
      for xs :: "byte list"
      using False by (metis add.commute drop_drop le_add_diff_inverse nat_le_linear take_add)
    ultimately show ?thesis
      using False node_load_chain [OF assms(1) less(2), of ?k] k nx
      by (simp add: read_at_loop.simps [of _ "p mod ?b" ?k])
  qed
qed

lemma node_walk_chain:
  "c + k < length (m_root ba) \<Longrightarrow> node_walk k ba (Some c) = Inr (Some (c + k))"
  by (induction k arbitrary: c) (auto simp: node_next_def)

lemma seek_loop_correct:
  assumes "ba_shape ba" "c < length (m_root ba)" "c * m_baseSize ba + v \<le> m_capacity ba"
  shows "seek_loop v (Some c) ba = Inr (cur_at ba (c * m_baseSize ba + v))"
  using assms(2,3)
proof (induction v arbitrary: c rule: less_induct)
  case (less v)
  let ?b = "m_baseSize ba"
  have b: "0 < ?b" using assms(1) by (simp add: ba_shape_def)
  note len = block_length [OF assms(1) less(2)]
  show ?case
  proof (cases "v > ?b")
    case True
    have "Suc c * ?b < m_capacity ba" using True less(3) by simp
    then have "Suc c * ?b < length (m_root ba) * ?b" using assms(1) by (simp add: ba_shape_def)
    then have "Suc c < length (m_root ba)" by (simp only: mult_less_cancel2)
    moreover from this have "node_next ba c = Some (Suc c)" by (simp add: node_next_def)
    ultimately show ?thesis
      using less(1)[of "v - ?b" "Suc c"] True less(2,3) b len
      by (simp add: seek_loop.simps [of v] algebra_simps)
  next
    case False
    have "c * ?b < m_capacity ba" using less(2) assms(1) b by (simp add: ba_shape_def)
    then have "cur_at ba (c * ?b + v) = (if ?b = v then node_next ba c else Some c)"
      using cur_at_last [OF assms(1), of "c * ?b" v] False b by simp
    with False less(2) len show ?thesis by (auto simp: seek_loop.simps [of v])
  qed
qed

section \<open>The operations on the abstraction\<close>

lemma add_nodes_eq:
  "add_nodes k ba = ba\<lparr>m_root := m_root ba @ replicate k (Node_new (m_fresh ba) (m_baseSize ba)),
     m_capacity := m_capacity ba + k * m_baseSize ba\<rparr>"
  by (induction k arbitrary: ba) (simp_all add: replicate_append_same algebra_simps)

lemma ceil_div_ge: "0 < b \<Longrightarrow> n \<le> (n + b - 1) div b * (b :: nat)"
  using div_mult_mod_eq [of "n + b - 1" b] mod_less_divisor [of b "n + b - 1"] by linarith

lemma addCapacity_correct:
  assumes "ba_inv ba"
  obtains r cap cur where
    "addCapacity n ba = Inr (ba\<lparr>m_root := m_root ba @ r, m_capacity := cap, m_cur := cur\<rparr>)"
    and "ba_inv (ba\<lparr>m_root := m_root ba @ r, m_capacity := cap, m_cur := cur\<rparr>)"
    and "m_position ba + n \<le> cap"
proof (cases "n \<le> m_capacity ba - m_position ba")
  case True
  with assms show ?thesis
    by (intro that [of "m_cur ba" "m_capacity ba" "[]"])
      (auto simp: addCapacity_def getCapacity_def ba_inv_def)
next
  case False
  have sh: "ba_shape ba" and p: "m_position ba \<le> m_capacity ba"
    and cur: "m_cur ba = cur_at ba (m_position ba)" using assms by (auto simp: ba_inv_def)
  let ?b = "m_baseSize ba"
  define m where "m = n - (m_capacity ba - m_position ba)"
  define count where "count = (m + ?b - 1) div ?b"
  let ?r = "replicate count (Node_new (m_fresh ba) ?b)"
  let ?cap = "m_capacity ba + count * ?b"
  let ?cur = "if m_position ba = m_capacity ba then Some (length (m_root ba)) else m_cur ba"
  have b: "0 < ?b" using sh by (simp add: ba_shape_def)
  have m: "0 < m" using False by (simp add: m_def)
  have "m \<le> count * ?b" unfolding count_def by (rule ceil_div_ge [OF b])
  then have room: "m_position ba + n \<le> ?cap" and count: "0 < count"
    using False m p by (auto simp: m_def intro: gr0I)
  have "(m + ?b - Suc 0) div ?b = count" by (simp add: count_def)
  then have "addCapacity n ba = Inr (ba\<lparr>m_root := m_root ba @ ?r, m_capacity := ?cap, m_cur := ?cur\<rparr>)"
    using False b p count
    by (simp add: addCapacity_def getCapacity_def add_nodes_eq Let_def m_def [symmetric] not_le)
  moreover have "ba_inv (ba\<lparr>m_root := m_root ba @ ?r, m_capacity := ?cap, m_cur := ?cur\<rparr>)"
    using assms sh p cur b count
    by (auto simp: ba_inv_def ba_shape_def cur_at_def Node_new_def algebra_simps)
  ultimately show ?thesis using room that by blast
qed

lemma ba_inv_moved:
  assumes "ba_inv ba" "p \<le> m_size ba"
  shows "ba_inv (moved p ba)" "contents (moved p ba) = contents ba"
    "m_position (moved p ba) = p" "m_endian (moved p ba) = m_endian ba" "m_size (moved p ba) = m_size ba"
    "m_capacity (moved p ba) = m_capacity ba"
  using assms by (auto simp: ba_inv_def moved_def contents_def)

lemma moved_moved [simp]: "moved q (moved p ba) = moved q ba"
  by (simp add: moved_def)

lemma length_contents [simp]: "ba_inv ba \<Longrightarrow> length (contents ba) = m_size ba"
  by (simp add: contents_def ba_inv_def length_chain)

lemma ba_write_correct:
  assumes "ba_inv ba"
  shows "\<exists>ba'. ba_write bs ba = Inr ba' \<and> ba_inv ba' \<and>
    (contents ba', m_position ba') = spec_write bs (contents ba, m_position ba) \<and>
    m_endian ba' = m_endian ba \<and> m_baseSize ba' = m_baseSize ba"
proof (cases "bs = []")
  case True
  with assms show ?thesis by (simp add: ba_write_def spec_write_def)
next
  case False
  obtain r cap cur where a: "addCapacity (length bs) ba =
      Inr (ba\<lparr>m_root := m_root ba @ r, m_capacity := cap, m_cur := cur\<rparr>)"
    "ba_inv (ba\<lparr>m_root := m_root ba @ r, m_capacity := cap, m_cur := cur\<rparr>)"
    "m_position ba + length bs \<le> cap"
    using addCapacity_correct [OF assms] .
  let ?a = "ba\<lparr>m_root := m_root ba @ r, m_capacity := cap, m_cur := cur\<rparr>"
  have sh: "ba_shape ?a" and sz: "m_position ba \<le> m_size ba" "m_size ba \<le> cap"
    using a(2) by (auto simp: ba_inv_def)
  have p: "m_position ?a < m_capacity ?a" using False a(3) by (cases bs) auto
  have cur: "m_cur ?a = Some (m_position ?a div m_baseSize ?a)"
    using a(2) p by (simp add: ba_inv_def cur_at_def)
  obtain r' where w: "write_loop (m_position ba mod m_baseSize ba)
        (m_baseSize ba - m_position ba mod m_baseSize ba) bs ?a =
      Inr (?a\<lparr>m_root := r', m_position := m_position ba + length bs,
              m_cur := cur_at ?a (m_position ba + length bs)\<rparr>)"
    "ba_shape (?a\<lparr>m_root := r'\<rparr>)"
    "concat r' = overwrite (m_position ba) bs (concat (m_root ba @ r))"
    using write_loop_correct [OF False sh cur] a(3) by auto
  let ?w = "?a\<lparr>m_root := r', m_position := m_position ba + length bs,
      m_cur := cur_at ?a (m_position ba + length bs),
      m_size := max (m_size ba) (m_position ba + length bs)\<rparr>"
  have b: "0 < m_baseSize ba" using sh by (simp add: ba_shape_def)
  have "node_size ?a (m_cur ?a) = Inr (m_baseSize ba)"
    unfolding cur using node_size_chain [OF sh block_in_chain [OF sh p]] by simp
  then have res: "ba_write bs ba = Inr ?w"
    using False a(1) w(1) b cur by (simp add: ba_write_def Let_def less_imp_le max_def)
  have "ba_inv ?w" using w(2) a(3) sz by (simp add: ba_inv_def ba_shape_def cur_at_def)
  moreover have "contents ?w = take (m_position ba) (contents ba) @ bs @
      drop (m_position ba + length bs) (contents ba)"
  proof -
    let ?f = "concat (m_root ba @ r)"
    have "contents ba = take (m_size ba) ?f"
      using assms by (simp add: contents_def ba_inv_def length_chain)
    moreover have "contents ?w = take (max (m_size ba) (m_position ba + length bs))
        (overwrite (m_position ba) bs ?f)"
      by (simp add: contents_def w(3) del: concat_append)
    moreover have "\<dots> = take (m_position ba) (take (m_size ba) ?f) @ bs @
        drop (m_position ba + length bs) (take (m_size ba) ?f)"
      by (rule take_overwrite_grow) (use a(3) sz length_chain [OF sh] in simp_all)
    ultimately show ?thesis by simp
  qed
  ultimately show ?thesis using res by (simp add: spec_write_def)
qed

lemma getReadSize_inv [simp]: "ba_inv ba \<Longrightarrow> getReadSize ba = m_size ba - m_position ba"
  by (simp add: getReadSize_def ba_inv_def)

lemma drop_contents:
  assumes "ba_inv ba" "p + n \<le> m_size ba"
  shows "take n (drop p (concat (m_root ba))) = take n (drop p (contents ba))"
  using assms by (simp add: contents_def drop_take min_def)

lemma ba_read_correct:
  assumes inv: "ba_inv ba" and n: "m_position ba + n \<le> m_size ba" and p: "m_position ba < m_capacity ba"
  shows "ba_read n ba = Inr (take n (drop (m_position ba) (contents ba)), moved (m_position ba + n) ba)"
proof -
  have sh: "ba_shape ba" and b: "0 < m_baseSize ba"
    and cur: "m_cur ba = Some (m_position ba div m_baseSize ba)"
    using inv p by (auto simp: ba_inv_def ba_shape_def cur_at_def)
  have "node_size ba (m_cur ba) = Inr (m_baseSize ba)"
    unfolding cur by (rule node_size_chain [OF sh block_in_chain [OF sh p]])
  moreover have "m_position ba + n \<le> m_capacity ba" using inv n by (simp add: ba_inv_def)
  ultimately show ?thesis
    using read_loop_correct [OF sh cur p] inv n b drop_contents [OF inv n]
    by (simp add: ba_read_def Let_def less_imp_le)
qed

text \<open>Reading more than is left throws, and an empty read at the end of the last block does not return.\<close>

lemma ba_read_out_of_range:
  "ba_inv ba \<Longrightarrow> m_size ba < m_position ba + n \<Longrightarrow>
   ba_read n ba = Inl (Out_Of_Range ''not enough len'')"
  by (auto simp: ba_read_def getReadSize_def ba_inv_def less_diff_conv2)

lemma ba_read_at_end:
  "ba_inv ba \<Longrightarrow> m_position ba = m_capacity ba \<Longrightarrow> ba_read 0 ba = Inl Null_Deref"
  by (simp add: ba_read_def ba_inv_def ba_shape_def cur_at_def node_size_def)

lemma ba_read_at_correct:
  assumes inv: "ba_inv ba" and n: "p + n \<le> m_size ba" and p: "p < m_capacity ba"
    and cur: "m_position ba < m_capacity ba"
  shows "ba_read_at n p ba = Inr (take n (drop p (contents ba)))"
proof -
  have sh: "ba_shape ba" and b: "0 < m_baseSize ba" using inv by (auto simp: ba_inv_def ba_shape_def)
  have "node_walk (p div m_baseSize ba) ba (Some 0) = Inr (Some (p div m_baseSize ba))"
    using node_walk_chain [of 0 "p div m_baseSize ba" ba] block_in_chain [OF sh p] by simp
  moreover have "node_size ba (m_cur ba) = Inr (m_baseSize ba)"
    using inv cur node_size_chain [OF sh block_in_chain [OF sh cur]]
    by (simp add: ba_inv_def cur_at_def)
  moreover have "p + n \<le> m_capacity ba" using inv n by (simp add: ba_inv_def)
  ultimately show ?thesis
    using read_at_loop_correct [OF sh p] n b drop_contents [OF inv n]
    by (simp add: ba_read_at_def Let_def less_imp_le)
qed

lemma setPosition_correct:
  assumes "ba_inv ba" "v \<le> m_capacity ba"
  shows "setPosition v ba = Inr (moved v (ba\<lparr>m_size := max (m_size ba) v\<rparr>))"
proof -
  let ?ba = "ba\<lparr>m_position := v, m_size := max (m_size ba) v\<rparr>"
  have sh: "ba_shape ?ba" using assms by (simp add: ba_inv_def ba_shape_def)
  then have "0 < length (m_root ?ba)" by (simp add: ba_shape_def)
  then have "seek_loop v (Some 0) ?ba = Inr (cur_at ba v)"
    using seek_loop_correct [OF sh, of 0 v] assms(2) by simp
  then show ?thesis using assms
    by (auto simp: setPosition_def moved_def max_def Let_def not_less)
qed

lemma setPosition_within:
  "ba_inv ba \<Longrightarrow> v \<le> m_size ba \<Longrightarrow> setPosition v ba = Inr (moved v ba)"
  by (subst setPosition_correct) (auto simp: ba_inv_def max_def)

lemma ba_inv_setPosition:
  "ba_inv ba \<Longrightarrow> setPosition v ba = Inr ba' \<Longrightarrow>
   ba_inv ba' \<and> m_position ba' = v \<and> m_size ba' = max (m_size ba) v"
  using setPosition_correct [of ba v]
  by (cases "v \<le> m_capacity ba") (auto simp: ba_inv_def moved_def setPosition_def)

lemma ba_inv_new: "0 < b \<Longrightarrow> ba_inv (ByteArray_new fresh b)"
  by (simp add: ba_inv_def ba_shape_def ByteArray_new_def cur_at_def Node_new_def)

lemma contents_new [simp]:
  "contents (ByteArray_new fresh b) = []" "m_position (ByteArray_new fresh b) = 0"
  "m_endian (ByteArray_new fresh b) = DAG_BIG_ENDIAN"
  by (simp_all add: contents_def ByteArray_new_def)

lemma ba_inv_clear: "ba_inv ba \<Longrightarrow> ba_inv (ba_clear ba)"
  by (cases "m_root ba") (auto simp: ba_inv_def ba_shape_def ba_clear_def cur_at_def)

lemma ba_clear_correct:
  "contents (ba_clear ba) = []" "m_position (ba_clear ba) = 0" "m_capacity (ba_clear ba) = m_baseSize ba"
  "m_endian (ba_clear ba) = m_endian ba"
  by (simp_all add: ba_clear_def contents_def)

lemma ba_inv_setIsLittleEndian: "ba_inv ba \<Longrightarrow> ba_inv (setIsLittleEndian e ba)"
  by (simp add: ba_inv_def setIsLittleEndian_def)

section \<open>The interface to its clients\<close>

text \<open>
  What the typed accessors rely on: a buffer with a position, on which a write acts as on a
  flat array, a non-empty read within the data returns it and advances, and the position can
  be set within the data. \<open>fmt\<close> is the part of the state, here the byte order, that decides
  how a client encodes; none of the three operations changes it.
\<close>

locale cursor_buffer =
  fixes inv :: "'b \<Rightarrow> bool"
    and data :: "'b \<Rightarrow> byte list"
    and pos :: "'b \<Rightarrow> nat"
    and fmt :: "'b \<Rightarrow> 'e"
    and put :: "byte list \<Rightarrow> 'b \<Rightarrow> 'b res"
    and get :: "nat \<Rightarrow> 'b \<Rightarrow> (byte list \<times> 'b) res"
    and seek :: "nat \<Rightarrow> 'b \<Rightarrow> 'b res"
  assumes pos_le: "inv s \<Longrightarrow> pos s \<le> length (data s)"
    and put_spec: "inv s \<Longrightarrow> \<exists>s'. put bs s = Inr s' \<and> inv s' \<and>
      (data s', pos s') = spec_write bs (data s, pos s) \<and> fmt s' = fmt s"
    and get_spec: "inv s \<Longrightarrow> 0 < n \<Longrightarrow> pos s + n \<le> length (data s) \<Longrightarrow>
      \<exists>s'. get n s = Inr (take n (drop (pos s) (data s)), s') \<and> inv s' \<and>
        data s' = data s \<and> pos s' = pos s + n \<and> fmt s' = fmt s"
    and seek_spec: "inv s \<Longrightarrow> p \<le> length (data s) \<Longrightarrow>
      \<exists>s'. seek p s = Inr s' \<and> inv s' \<and> data s' = data s \<and> pos s' = p \<and> fmt s' = fmt s"
begin

text \<open>The bytes between two positions, as the next reads will see them.\<close>

definition ahead :: "'b \<Rightarrow> byte list" where
  "ahead s = drop (pos s) (data s)"

lemma get_ahead:
  assumes "inv s" "ahead s = bs @ rest" "bs \<noteq> []"
  shows "\<exists>s'. get (length bs) s = Inr (bs, s') \<and> inv s' \<and> ahead s' = rest \<and>
    data s' = data s \<and> pos s' = pos s + length bs \<and> fmt s' = fmt s"
proof -
  have l: "length (data s) - pos s = length bs + length rest"
    using arg_cong [OF assms(2), of length] by (simp add: ahead_def)
  then have "pos s + length bs \<le> length (data s)" using assms(3) by (cases bs) auto
  then obtain s' where s': "get (length bs) s = Inr (take (length bs) (ahead s), s')" "inv s'"
    "data s' = data s" "pos s' = pos s + length bs" "fmt s' = fmt s"
    using get_spec [OF assms(1), of "length bs"] assms(3) unfolding ahead_def by auto
  moreover have "ahead s' = rest"
  proof -
    have "ahead s' = drop (length bs) (ahead s)"
      using s'(3,4) by (simp add: ahead_def add.commute)
    then show ?thesis using assms(2) by simp
  qed
  ultimately show ?thesis using assms(2) by auto
qed

lemma put_then_seek:
  assumes "inv s" "put bs s = Inr s1" "p \<le> pos s"
  shows "\<exists>s2. seek p s1 = Inr s2 \<and> inv s2 \<and> data s2 = data s1 \<and> pos s2 = p \<and> fmt s2 = fmt s \<and>
    ahead s2 = drop p (take (pos s) (data s)) @ bs @ drop (pos s + length bs) (data s)"
proof -
  have d: "inv s1" "data s1 = take (pos s) (data s) @ bs @ drop (pos s + length bs) (data s)"
    "fmt s1 = fmt s"
    using put_spec [OF assms(1), of bs] assms(2) by (auto simp: spec_write_def)
  moreover have "pos s \<le> length (data s)" using pos_le [OF assms(1)] .
  ultimately have "p \<le> length (data s1)" using assms(3) by simp
  with d(1) obtain s2 where "seek p s1 = Inr s2" "inv s2" "data s2 = data s1" "pos s2 = p" "fmt s2 = fmt s1"
    using seek_spec by blast
  with d assms(3) \<open>pos s \<le> length (data s)\<close> show ?thesis by (auto simp: ahead_def)
qed

lemma put_seek_get:
  assumes "inv s" "bs \<noteq> []"
  shows "\<exists>s1 s2 s3. put bs s = Inr s1 \<and> seek (pos s) s1 = Inr s2 \<and>
    get (length bs) s2 = Inr (bs, s3) \<and> pos s3 = pos s1 \<and> data s3 = data s1"
proof -
  obtain s1 where s1: "put bs s = Inr s1" "pos s1 = pos s + length bs"
    using put_spec [OF assms(1), of bs] by (auto simp: spec_write_def)
  obtain s2 where s2: "seek (pos s) s1 = Inr s2" "inv s2" "data s2 = data s1" "pos s2 = pos s"
    "ahead s2 = bs @ drop (pos s + length bs) (data s)"
    using put_then_seek [OF assms(1) s1(1) order_refl] by auto
  then show ?thesis using get_ahead [OF s2(2,5) assms(2)] s1 by auto
qed

end

text \<open>The buffer of the program provides it.\<close>

interpretation chain: cursor_buffer ba_inv contents m_position m_endian ba_write ba_read setPosition
proof (unfold_locales, goal_cases)
  case (1 s)
  then show ?case by (simp add: ba_inv_def contents_def length_chain)
next
  case (2 s bs)
  then show ?case using ba_write_correct by blast
next
  case (3 s n)
  then have "m_position s < m_capacity s" by (auto simp: ba_inv_def)
  with 3 show ?case using ba_read_correct [of s n] ba_inv_moved [of s "m_position s + n"] by auto
next
  case (4 s p)
  then show ?case using setPosition_within [of s p] ba_inv_moved [of s p] by auto
qed

end
