(* ===== verification/ByteArray_Codec.thy ===== *)
theory ByteArray_Codec
  imports ByteArray
begin

text \<open>
  The typed accessors of \<open>ByteArray\<close> in \<open>dag/bytearray.cpp\<close>: integers of fixed width in the byte
  order of the array, ZigZag and base-128 integers, floating point numbers by their object
  representation, and strings with their length in front. Each accessor is written over
  \<open>ba_write\<close> and \<open>ba_read\<close> as the source does. The locale \<open>serializer\<close> states what a pair of a
  writer and a reader promises; its theorem, that what a sequence of writes stored is what the
  same sequence of reads returns, is proved once and holds for every accessor by
  interpretation.

  A signed integer is the word with its bits, a \<open>float\<close> or \<open>double\<close> the word with its object
  representation, a \<open>std::string\<close> the list of its bytes.
\<close>

section \<open>Writing integers of fixed width\<close>

definition writeFint8 :: "byte_order \<Rightarrow> u8 \<Rightarrow> ByteArray \<Rightarrow> ByteArray res" where
  "writeFint8 host v ba = ba_write (bytes_in host v) ba"

definition writeFuint8 :: "byte_order \<Rightarrow> u8 \<Rightarrow> ByteArray \<Rightarrow> ByteArray res" where
  "writeFuint8 host v ba = ba_write (bytes_in host v) ba"

definition writeFint16 :: "byte_order \<Rightarrow> u16 \<Rightarrow> ByteArray \<Rightarrow> ByteArray res" where
  "writeFint16 host v ba =
     (let v' = (if m_endian ba \<noteq> host then byteswap v else v) in ba_write (bytes_in host v') ba)"

definition writeFuint16 :: "byte_order \<Rightarrow> u16 \<Rightarrow> ByteArray \<Rightarrow> ByteArray res" where
  "writeFuint16 host v ba =
     (let v' = (if m_endian ba \<noteq> host then byteswap v else v) in ba_write (bytes_in host v') ba)"

definition writeFint32 :: "byte_order \<Rightarrow> u32 \<Rightarrow> ByteArray \<Rightarrow> ByteArray res" where
  "writeFint32 host v ba =
     (let v' = (if m_endian ba \<noteq> host then byteswap v else v) in ba_write (bytes_in host v') ba)"

definition writeFuint32 :: "byte_order \<Rightarrow> u32 \<Rightarrow> ByteArray \<Rightarrow> ByteArray res" where
  "writeFuint32 host v ba =
     (let v' = (if m_endian ba \<noteq> host then byteswap v else v) in ba_write (bytes_in host v') ba)"

definition writeFint64 :: "byte_order \<Rightarrow> u64 \<Rightarrow> ByteArray \<Rightarrow> ByteArray res" where
  "writeFint64 host v ba =
     (let v' = (if m_endian ba \<noteq> host then byteswap v else v) in ba_write (bytes_in host v') ba)"

definition writeFuint64 :: "byte_order \<Rightarrow> u64 \<Rightarrow> ByteArray \<Rightarrow> ByteArray res" where
  "writeFuint64 host v ba =
     (let v' = (if m_endian ba \<noteq> host then byteswap v else v) in ba_write (bytes_in host v') ba)"

section \<open>Writing base-128 integers, floating point numbers and strings\<close>

definition writeUint32 :: "u32 \<Rightarrow> ByteArray \<Rightarrow> ByteArray res" where
  "writeUint32 v ba = ba_write (varint32 v) ba"

definition writeInt32 :: "u32 \<Rightarrow> ByteArray \<Rightarrow> ByteArray res" where
  "writeInt32 v ba = writeUint32 (EncodeZigzag32 v) ba"

definition writeUint64 :: "u64 \<Rightarrow> ByteArray \<Rightarrow> ByteArray res" where
  "writeUint64 v ba = ba_write (varint64 v) ba"

definition writeInt64 :: "u64 \<Rightarrow> ByteArray \<Rightarrow> ByteArray res" where
  "writeInt64 v ba = writeUint64 (EncodeZigzag64 v) ba"

definition writeFloat :: "byte_order \<Rightarrow> u32 \<Rightarrow> ByteArray \<Rightarrow> ByteArray res" where
  "writeFloat host v ba = writeFuint32 host v ba"

definition writeDouble :: "byte_order \<Rightarrow> u64 \<Rightarrow> ByteArray \<Rightarrow> ByteArray res" where
  "writeDouble host v ba = writeFuint64 host v ba"

definition writeStringF16 :: "byte_order \<Rightarrow> byte list \<Rightarrow> ByteArray \<Rightarrow> ByteArray res" where
  "writeStringF16 host v ba = rbind (writeFuint16 host (word_of_nat (length v)) ba) (ba_write v)"

definition writeStringF32 :: "byte_order \<Rightarrow> byte list \<Rightarrow> ByteArray \<Rightarrow> ByteArray res" where
  "writeStringF32 host v ba = rbind (writeFuint32 host (word_of_nat (length v)) ba) (ba_write v)"

definition writeStringF64 :: "byte_order \<Rightarrow> byte list \<Rightarrow> ByteArray \<Rightarrow> ByteArray res" where
  "writeStringF64 host v ba = rbind (writeFuint64 host (word_of_nat (length v)) ba) (ba_write v)"

definition writeStringVint :: "byte list \<Rightarrow> ByteArray \<Rightarrow> ByteArray res" where
  "writeStringVint v ba = rbind (writeUint64 (word_of_nat (length v)) ba) (ba_write v)"

definition writeStringWithoutLength :: "byte list \<Rightarrow> ByteArray \<Rightarrow> ByteArray res" where
  "writeStringWithoutLength v ba = ba_write v ba"

section \<open>Reading\<close>

definition readFint8 :: "byte_order \<Rightarrow> ByteArray \<Rightarrow> (u8 \<times> ByteArray) res" where
  "readFint8 host ba = rmap (\<lambda>(bs, ba'). (of_bytes_in host bs, ba')) (ba_read 1 ba)"

definition readFuint8 :: "byte_order \<Rightarrow> ByteArray \<Rightarrow> (u8 \<times> ByteArray) res" where
  "readFuint8 host ba = rmap (\<lambda>(bs, ba'). (of_bytes_in host bs, ba')) (ba_read 1 ba)"

text \<open>The macro \<open>XX(type)\<close> that is the body of the six readers below.\<close>

definition read_XX :: "byte_order \<Rightarrow> ByteArray \<Rightarrow> ('a::len word \<times> ByteArray) res" where
  "read_XX host ba =
     rmap (\<lambda>(bs, ba'). let v = of_bytes_in host bs
                        in (if m_endian ba' = host then v else byteswap v, ba'))
       (ba_read (LENGTH('a) div 8) ba)"

definition readFint16 :: "byte_order \<Rightarrow> ByteArray \<Rightarrow> (u16 \<times> ByteArray) res" where
  "readFint16 host ba = read_XX host ba"

definition readFuint16 :: "byte_order \<Rightarrow> ByteArray \<Rightarrow> (u16 \<times> ByteArray) res" where
  "readFuint16 host ba = read_XX host ba"

definition readFint32 :: "byte_order \<Rightarrow> ByteArray \<Rightarrow> (u32 \<times> ByteArray) res" where
  "readFint32 host ba = read_XX host ba"

definition readFuint32 :: "byte_order \<Rightarrow> ByteArray \<Rightarrow> (u32 \<times> ByteArray) res" where
  "readFuint32 host ba = read_XX host ba"

definition readFint64 :: "byte_order \<Rightarrow> ByteArray \<Rightarrow> (u64 \<times> ByteArray) res" where
  "readFint64 host ba = read_XX host ba"

definition readFuint64 :: "byte_order \<Rightarrow> ByteArray \<Rightarrow> (u64 \<times> ByteArray) res" where
  "readFuint64 host ba = read_XX host ba"

function readUint32_loop :: "byte_order \<Rightarrow> nat \<Rightarrow> u32 \<Rightarrow> ByteArray \<Rightarrow> (u32 \<times> ByteArray) res" where
  "readUint32_loop host i result ba =
     (if i < 32 then
        rbind (readFuint8 host ba) (\<lambda>(b, ba').
          if b < 0x80 then Inr (result OR push_bit i (ucast b), ba')
          else readUint32_loop host (i + 7) (result OR push_bit i (ucast (b AND 0x7F))) ba')
      else Inr (result, ba))"
  by pat_completeness auto
termination
  by (relation "measure (\<lambda>(host, i, result, ba). 32 - i)") auto

function readUint64_loop :: "byte_order \<Rightarrow> nat \<Rightarrow> u64 \<Rightarrow> ByteArray \<Rightarrow> (u64 \<times> ByteArray) res" where
  "readUint64_loop host i result ba =
     (if i < 64 then
        rbind (readFuint8 host ba) (\<lambda>(b, ba').
          if b < 0x80 then Inr (result OR push_bit i (ucast b), ba')
          else readUint64_loop host (i + 7) (result OR push_bit i (ucast (b AND 0x7F))) ba')
      else Inr (result, ba))"
  by pat_completeness auto
termination
  by (relation "measure (\<lambda>(host, i, result, ba). 64 - i)") auto

declare readUint32_loop.simps [simp del] readUint64_loop.simps [simp del]

definition readUint32 :: "byte_order \<Rightarrow> ByteArray \<Rightarrow> (u32 \<times> ByteArray) res" where
  "readUint32 host ba = readUint32_loop host 0 0 ba"

definition readInt32 :: "byte_order \<Rightarrow> ByteArray \<Rightarrow> (u32 \<times> ByteArray) res" where
  "readInt32 host ba = rmap (\<lambda>(v, ba'). (DecodeZigzag32 v, ba')) (readUint32 host ba)"

definition readUint64 :: "byte_order \<Rightarrow> ByteArray \<Rightarrow> (u64 \<times> ByteArray) res" where
  "readUint64 host ba = readUint64_loop host 0 0 ba"

definition readInt64 :: "byte_order \<Rightarrow> ByteArray \<Rightarrow> (u64 \<times> ByteArray) res" where
  "readInt64 host ba = rmap (\<lambda>(v, ba'). (DecodeZigzag64 v, ba')) (readUint64 host ba)"

definition readFloat :: "byte_order \<Rightarrow> ByteArray \<Rightarrow> (u32 \<times> ByteArray) res" where
  "readFloat host ba = readFuint32 host ba"

definition readDouble :: "byte_order \<Rightarrow> ByteArray \<Rightarrow> (u64 \<times> ByteArray) res" where
  "readDouble host ba = readFuint64 host ba"

definition readStringF16 :: "byte_order \<Rightarrow> ByteArray \<Rightarrow> (byte list \<times> ByteArray) res" where
  "readStringF16 host ba = rbind (readFuint16 host ba) (\<lambda>(len, ba'). ba_read (unat len) ba')"

definition readStringF32 :: "byte_order \<Rightarrow> ByteArray \<Rightarrow> (byte list \<times> ByteArray) res" where
  "readStringF32 host ba = rbind (readFuint32 host ba) (\<lambda>(len, ba'). ba_read (unat len) ba')"

definition readStringF64 :: "byte_order \<Rightarrow> ByteArray \<Rightarrow> (byte list \<times> ByteArray) res" where
  "readStringF64 host ba = rbind (readFuint64 host ba) (\<lambda>(len, ba'). ba_read (unat len) ba')"

definition readStringVint :: "byte_order \<Rightarrow> ByteArray \<Rightarrow> (byte list \<times> ByteArray) res" where
  "readStringVint host ba = rbind (readUint64 host ba) (\<lambda>(len, ba'). ba_read (unat len) ba')"

section \<open>The contract of a writer and a reader\<close>

lemma spec_write_append:
  "p \<le> length d \<Longrightarrow> spec_write bs (spec_write as (d, p)) = spec_write (as @ bs) (d, p)"
  by (simp add: spec_write_def add.commute add.left_commute)

lemma spec_write_Nil [simp]: "p \<le> length d \<Longrightarrow> spec_write [] (d, p) = (d, p)"
  by (simp add: spec_write_def)

locale serializer = cursor_buffer inv data pos fmt put get seek
  for inv :: "'b \<Rightarrow> bool" and data :: "'b \<Rightarrow> byte list" and pos :: "'b \<Rightarrow> nat" and fmt :: "'b \<Rightarrow> 'e"
    and put :: "byte list \<Rightarrow> 'b \<Rightarrow> 'b res" and get :: "nat \<Rightarrow> 'b \<Rightarrow> (byte list \<times> 'b) res"
    and seek :: "nat \<Rightarrow> 'b \<Rightarrow> 'b res" +
  fixes ok :: "'v \<Rightarrow> bool"
    and enc :: "'e \<Rightarrow> 'v \<Rightarrow> byte list"
    and wr :: "'v \<Rightarrow> 'b \<Rightarrow> 'b res"
    and rd :: "'b \<Rightarrow> ('v \<times> 'b) res"
  assumes wr_spec: "inv s \<Longrightarrow> ok v \<Longrightarrow> \<exists>s'. wr v s = Inr s' \<and> inv s' \<and>
      (data s', pos s') = spec_write (enc (fmt s) v) (data s, pos s) \<and> fmt s' = fmt s"
    and rd_spec: "inv s \<Longrightarrow> ok v \<Longrightarrow> drop (pos s) (data s) = enc (fmt s) v @ rest \<Longrightarrow>
      \<exists>s'. rd s = Inr (v, s') \<and> inv s' \<and> drop (pos s') (data s') = rest \<and> data s' = data s \<and>
        pos s' = pos s + length (enc (fmt s) v) \<and> fmt s' = fmt s"
begin

lemma wr_all:
  assumes "inv s" "\<forall>v \<in> set vs. ok v"
  shows "\<exists>s'. rfold wr vs s = Inr s' \<and> inv s' \<and>
    (data s', pos s') = spec_write (concat (map (enc (fmt s)) vs)) (data s, pos s) \<and> fmt s' = fmt s"
  using assms
proof (induction vs arbitrary: s)
  case Nil
  then show ?case using pos_le by simp
next
  case (Cons v vs)
  then obtain t where t: "wr v s = Inr t" "inv t"
    "(data t, pos t) = spec_write (enc (fmt s) v) (data s, pos s)" "fmt t = fmt s"
    using wr_spec [of s v] by auto
  with Cons obtain u where "rfold wr vs t = Inr u" "inv u"
    "(data u, pos u) = spec_write (concat (map (enc (fmt s)) vs)) (data t, pos t)" "fmt u = fmt s"
    by (metis list.set_intros(2))
  with t Cons.prems(1) show ?case using pos_le [of s] by (simp add: spec_write_append)
qed

lemma rd_all:
  assumes "inv s" "\<forall>v \<in> set vs. ok v"
    and "drop (pos s) (data s) = concat (map (enc (fmt s)) vs) @ rest"
  shows "\<exists>s'. rtimes (length vs) rd s = Inr (vs, s') \<and> inv s' \<and> data s' = data s \<and>
    pos s' = pos s + length (concat (map (enc (fmt s)) vs))"
  using assms
proof (induction vs arbitrary: s)
  case Nil
  then show ?case by simp
next
  case (Cons v vs)
  then obtain t where t: "rd s = Inr (v, t)" "inv t" "data t = data s" "fmt t = fmt s"
    "drop (pos t) (data t) = concat (map (enc (fmt s)) vs) @ rest"
    "pos t = pos s + length (enc (fmt s) v)"
    using rd_spec [of s v "concat (map (enc (fmt s)) vs) @ rest"] by auto
  with Cons.IH [of t] Cons.prems(2) show ?case by (auto simp: rmap_eq_Inr)
qed

text \<open>What a sequence of writes stored, the same sequence of reads returns.\<close>

lemma write_all_read_all:
  assumes "inv s" "\<forall>v \<in> set vs. ok v"
  shows "\<exists>s1 s2 s3. rfold wr vs s = Inr s1 \<and> seek (pos s) s1 = Inr s2 \<and>
    rtimes (length vs) rd s2 = Inr (vs, s3) \<and> pos s3 = pos s1 \<and> data s3 = data s1"
proof -
  let ?bs = "concat (map (enc (fmt s)) vs)"
  obtain s1 where s1: "rfold wr vs s = Inr s1" "inv s1" "fmt s1 = fmt s"
    "(data s1, pos s1) = spec_write ?bs (data s, pos s)"
    using wr_all [OF assms] by blast
  then have d: "data s1 = take (pos s) (data s) @ ?bs @ drop (pos s + length ?bs) (data s)"
    "pos s1 = pos s + length ?bs" by (simp_all add: spec_write_def)
  have le: "pos s \<le> length (data s)" using pos_le [OF assms(1)] .
  then have "pos s \<le> length (data s1)" unfolding d by simp
  then obtain s2 where s2: "seek (pos s) s1 = Inr s2" "inv s2" "data s2 = data s1" "pos s2 = pos s"
    "fmt s2 = fmt s" using seek_spec [OF s1(2)] s1(3) by metis
  have "drop (pos s2) (data s2) = concat (map (enc (fmt s2)) vs) @ drop (pos s + length ?bs) (data s)"
    using s2 d le by simp
  then show ?thesis using rd_all [OF s2(2) assms(2)] s1(1) s2 d(2) by fastforce
qed

end

text \<open>
  A string format is a format of its length followed by the bytes. It inherits the contract from
  the one of the length, for the strings that are not empty and whose length the format holds.
\<close>

locale length_prefix = serializer inv data pos fmt put get seek ok enc wr rd
  for inv :: "'b \<Rightarrow> bool" and data :: "'b \<Rightarrow> byte list" and pos :: "'b \<Rightarrow> nat" and fmt :: "'b \<Rightarrow> 'e"
    and put :: "byte list \<Rightarrow> 'b \<Rightarrow> 'b res" and get :: "nat \<Rightarrow> 'b \<Rightarrow> (byte list \<times> 'b) res"
    and seek :: "nat \<Rightarrow> 'b \<Rightarrow> 'b res" and ok :: "'v \<Rightarrow> bool" and enc :: "'e \<Rightarrow> 'v \<Rightarrow> byte list"
    and wr :: "'v \<Rightarrow> 'b \<Rightarrow> 'b res" and rd :: "'b \<Rightarrow> ('v \<times> 'b) res" +
  fixes of_len :: "nat \<Rightarrow> 'v" and to_len :: "'v \<Rightarrow> nat" and lim :: nat
    and wrs :: "byte list \<Rightarrow> 'b \<Rightarrow> 'b res" and rds :: "'b \<Rightarrow> (byte list \<times> 'b) res"
  assumes len_ok: "n < lim \<Longrightarrow> ok (of_len n) \<and> to_len (of_len n) = n"
    and wrs_def: "wrs v s = rbind (wr (of_len (length v)) s) (put v)"
    and rds_def: "rds s = rbind (rd s) (\<lambda>(l, s'). get (to_len l) s')"

sublocale length_prefix \<subseteq> str: serializer inv data pos fmt put get seek
  "\<lambda>v. v \<noteq> [] \<and> length v < lim" "\<lambda>e v. enc e (of_len (length v)) @ v" wrs rds
proof (unfold_locales, goal_cases)
  case (1 s v)
  then obtain t where t: "wr (of_len (length v)) s = Inr t" "inv t" "fmt t = fmt s"
    "(data t, pos t) = spec_write (enc (fmt s) (of_len (length v))) (data s, pos s)"
    using wr_spec [of s "of_len (length v)"] len_ok by blast
  with put_spec [OF t(2), of v] 1(1) pos_le [of s] show ?case
    by (auto simp: wrs_def spec_write_append)
next
  case (2 s v rest)
  then obtain t where t: "rd s = Inr (of_len (length v), t)" "inv t" "fmt t = fmt s" "data t = data s"
    "drop (pos t) (data t) = v @ rest"
    "pos t = pos s + length (enc (fmt s) (of_len (length v)))"
    using rd_spec [of s "of_len (length v)" "v @ rest"] len_ok by auto
  with get_ahead [OF t(2), of v rest] 2 len_ok show ?case
    by (auto simp: rds_def ahead_def)
qed

section \<open>The accessors keep the contract\<close>

lemma write_swapped:
  "ba_write (bytes_in host (if m_endian ba \<noteq> host then byteswap v else v)) ba =
   ba_write (bytes_in (m_endian ba) v) ba"
  by (simp only: bytes_in_swapped)

lemma single_byte: "bytes_in ord (v :: u8) = [v]" "of_bytes_in ord [b] = (b :: u8)"
  by (simp_all add: bytes_in_def of_bytes_in_def bytes_le_def split: byte_order.split)

lemma fixed_write:
  assumes "ba_inv ba" "wr v ba = ba_write (bytes_in (m_endian ba) v) ba"
  shows "\<exists>ba'. wr v ba = Inr ba' \<and> ba_inv ba' \<and>
    (contents ba', m_position ba') = spec_write (bytes_in (m_endian ba) v) (contents ba, m_position ba) \<and>
    m_endian ba' = m_endian ba"
  using ba_write_correct [OF assms(1)] assms(2) by metis

lemma fixed_read:
  fixes v :: "'a::len word"
  assumes "ba_inv ba" "drop (m_position ba) (contents ba) = bytes_in (m_endian ba) v @ rest"
    and "8 dvd LENGTH('a)"
  shows "\<exists>ba'. read_XX host ba = Inr (v, ba') \<and> ba_inv ba' \<and>
    drop (m_position ba') (contents ba') = rest \<and> contents ba' = contents ba \<and>
    m_position ba' = m_position ba + length (bytes_in (m_endian ba) v) \<and> m_endian ba' = m_endian ba"
proof -
  have "8 \<le> LENGTH('a)" using assms(3) by (rule dvd_imp_le) simp
  then have "LENGTH('a) div 8 \<noteq> 0" by (simp add: div_eq_0_iff)
  then have "bytes_in (m_endian ba) v \<noteq> []"
    by (metis length_bytes_in list.size(3))
  then obtain t where "ba_read (LENGTH('a) div 8) ba = Inr (bytes_in (m_endian ba) v, t)" "ba_inv t"
    "drop (m_position t) (contents t) = rest" "contents t = contents ba"
    "m_position t = m_position ba + LENGTH('a) div 8" "m_endian t = m_endian ba"
    using chain.get_ahead [OF assms(1), of "bytes_in (m_endian ba) v" rest] assms(2)
    by (auto simp: chain.ahead_def)
  then show ?thesis
    using of_bytes_in_swapped [of "bytes_in (m_endian ba) v" "m_endian ba" host, where 'a = 'a]
      of_bytes_in_bytes_in [OF assms(3), of "m_endian ba" v]
    by (auto simp: read_XX_def Let_def)
qed

lemma byte_read:
  assumes "ba_inv ba" "drop (m_position ba) (contents ba) = b # rest"
  shows "\<exists>ba'. readFuint8 host ba = Inr (b, ba') \<and> ba_inv ba' \<and>
    drop (m_position ba') (contents ba') = rest \<and> contents ba' = contents ba \<and>
    m_position ba' = Suc (m_position ba) \<and> m_endian ba' = m_endian ba"
  using chain.get_ahead [OF assms(1), of "[b]" rest] assms(2)
  by (auto simp: chain.ahead_def readFuint8_def single_byte)

text \<open>
  The base-128 loops: from bit \<open>i\<close> on, the digits of \<open>m\<close> are or-ed into the result. The loop
  bound of 32 or 64 is reached only after the last digit.
\<close>

lemma push_digits:
  "result OR push_bit i (word_of_nat m) =
   (result OR push_bit i (word_of_nat (m mod 128))) OR
   push_bit (i + 7) (word_of_nat (m div 128) :: 'a::len word)"
  by (subst word_of_nat_digits) (simp add: push_bit_or or.assoc)

lemma readUint32_loop_correct:
  assumes "m < 2 ^ (32 - i)" "i < 32" "ba_inv ba"
    and "drop (m_position ba) (contents ba) = varint_ref m @ rest"
  shows "\<exists>ba'. readUint32_loop host i result ba = Inr (result OR push_bit i (word_of_nat m), ba') \<and>
    ba_inv ba' \<and> drop (m_position ba') (contents ba') = rest \<and> contents ba' = contents ba \<and>
    m_position ba' = m_position ba + length (varint_ref m) \<and> m_endian ba' = m_endian ba"
  using assms
proof (induction m arbitrary: i result ba rule: varint_ref.induct)
  case (1 m)
  show ?case
  proof (cases "m < 128")
    case True
    then show ?thesis
      using byte_read [OF 1(4), of "word_of_nat m" rest host] 1(3,5) unmarked_byte(1) [OF True] unmarked_byte(2) [OF True, where 'a = 32]
      by (auto simp: varint_ref.simps [of m] readUint32_loop.simps [of host i])
  next
    case False
    let ?b = "word_of_nat (m mod 128) OR 0x80 :: byte"
    have "(2::nat) ^ 7 < 2 ^ (32 - i)" using False 1(2) 1(3) power_inject_exp [of "2::nat" 7 "32 - i"]
      by simp
    then have i: "i + 7 < 32" using power_less_imp_less_exp [of "2::nat" 7 "32 - i"] by simp
    then have "(2::nat) ^ (32 - i) = 128 * 2 ^ (32 - (i + 7))"
      using power_add [of "2::nat" 7 "32 - (i + 7)"] by (simp add: Suc_diff_le)
    then have "m div 128 < 2 ^ (32 - (i + 7))" using 1(2) by (simp add: div_less_iff_less_mult)
    moreover obtain t where t: "readFuint8 host ba = Inr (?b, t)" "ba_inv t"
      "drop (m_position t) (contents t) = varint_ref (m div 128) @ rest" "contents t = contents ba"
      "m_position t = Suc (m_position ba)" "m_endian t = m_endian ba"
      using byte_read [OF 1(4), of ?b "varint_ref (m div 128) @ rest" host] 1(5) False
      by (auto simp: varint_ref.simps [of m])
    ultimately show ?thesis
      using 1(1)[OF False _ i t(2,3)] 1(3) False marked_byte_read(1) [of "m mod 128"] marked_byte_read(2) [of "m mod 128", where 'a = 32] push_digits [of result i m]
      by (auto simp: varint_ref.simps [of m] readUint32_loop.simps [of host i])
  qed
qed

lemma readUint64_loop_correct:
  assumes "m < 2 ^ (64 - i)" "i < 64" "ba_inv ba"
    and "drop (m_position ba) (contents ba) = varint_ref m @ rest"
  shows "\<exists>ba'. readUint64_loop host i result ba = Inr (result OR push_bit i (word_of_nat m), ba') \<and>
    ba_inv ba' \<and> drop (m_position ba') (contents ba') = rest \<and> contents ba' = contents ba \<and>
    m_position ba' = m_position ba + length (varint_ref m) \<and> m_endian ba' = m_endian ba"
  using assms
proof (induction m arbitrary: i result ba rule: varint_ref.induct)
  case (1 m)
  show ?case
  proof (cases "m < 128")
    case True
    then show ?thesis
      using byte_read [OF 1(4), of "word_of_nat m" rest host] 1(3,5) unmarked_byte(1) [OF True] unmarked_byte(2) [OF True, where 'a = 64]
      by (auto simp: varint_ref.simps [of m] readUint64_loop.simps [of host i])
  next
    case False
    let ?b = "word_of_nat (m mod 128) OR 0x80 :: byte"
    have "(2::nat) ^ 7 < 2 ^ (64 - i)" using False 1(2) 1(3) power_inject_exp [of "2::nat" 7 "64 - i"]
      by simp
    then have i: "i + 7 < 64" using power_less_imp_less_exp [of "2::nat" 7 "64 - i"] by simp
    then have "(2::nat) ^ (64 - i) = 128 * 2 ^ (64 - (i + 7))"
      using power_add [of "2::nat" 7 "64 - (i + 7)"] by (simp add: Suc_diff_le)
    then have "m div 128 < 2 ^ (64 - (i + 7))" using 1(2) by (simp add: div_less_iff_less_mult)
    moreover obtain t where t: "readFuint8 host ba = Inr (?b, t)" "ba_inv t"
      "drop (m_position t) (contents t) = varint_ref (m div 128) @ rest" "contents t = contents ba"
      "m_position t = Suc (m_position ba)" "m_endian t = m_endian ba"
      using byte_read [OF 1(4), of ?b "varint_ref (m div 128) @ rest" host] 1(5) False
      by (auto simp: varint_ref.simps [of m])
    ultimately show ?thesis
      using 1(1)[OF False _ i t(2,3)] 1(3) False marked_byte_read(1) [of "m mod 128"] marked_byte_read(2) [of "m mod 128", where 'a = 64] push_digits [of result i m]
      by (auto simp: varint_ref.simps [of m] readUint64_loop.simps [of host i])
  qed
qed

lemmas varint_spec = varint32_ref varint64_ref

lemma readUint32_correct:
  assumes "ba_inv ba" "drop (m_position ba) (contents ba) = varint32 v @ rest"
  shows "\<exists>ba'. readUint32 host ba = Inr (v, ba') \<and>
    ba_inv ba' \<and> drop (m_position ba') (contents ba') = rest \<and> contents ba' = contents ba \<and>
    m_position ba' = m_position ba + length (varint32 v) \<and> m_endian ba' = m_endian ba"
  using readUint32_loop_correct [of "unat v" 0 ba rest host 0] assms unat_bound [of v]
  by (simp add: varint_spec readUint32_def)

lemma readUint64_correct:
  assumes "ba_inv ba" "drop (m_position ba) (contents ba) = varint64 v @ rest"
  shows "\<exists>ba'. readUint64 host ba = Inr (v, ba') \<and>
    ba_inv ba' \<and> drop (m_position ba') (contents ba') = rest \<and> contents ba' = contents ba \<and>
    m_position ba' = m_position ba + length (varint64 v) \<and> m_endian ba' = m_endian ba"
  using readUint64_loop_correct [of "unat v" 0 ba rest host 0] assms unat_bound [of v]
  by (simp add: varint_spec readUint64_def)

interpretation Fint16: serializer ba_inv contents m_position m_endian ba_write ba_read setPosition
  "\<lambda>_. True" bytes_in "writeFint16 host" "readFint16 host" for host
proof (unfold_locales, goal_cases)
  case (1 s v)
  then show ?case by (intro fixed_write) (simp_all only: writeFint16_def Let_def write_swapped)
next
  case (2 s v rest)
  then show ?case using fixed_read [of s v rest host] by (simp add: readFint16_def )
qed

interpretation Fuint16: serializer ba_inv contents m_position m_endian ba_write ba_read setPosition
  "\<lambda>_. True" bytes_in "writeFuint16 host" "readFuint16 host" for host
proof (unfold_locales, goal_cases)
  case (1 s v)
  then show ?case by (intro fixed_write) (simp_all only: writeFuint16_def Let_def write_swapped)
next
  case (2 s v rest)
  then show ?case using fixed_read [of s v rest host] by (simp add: readFuint16_def )
qed

interpretation Fint32: serializer ba_inv contents m_position m_endian ba_write ba_read setPosition
  "\<lambda>_. True" bytes_in "writeFint32 host" "readFint32 host" for host
proof (unfold_locales, goal_cases)
  case (1 s v)
  then show ?case by (intro fixed_write) (simp_all only: writeFint32_def Let_def write_swapped)
next
  case (2 s v rest)
  then show ?case using fixed_read [of s v rest host] by (simp add: readFint32_def )
qed

interpretation Fuint32: serializer ba_inv contents m_position m_endian ba_write ba_read setPosition
  "\<lambda>_. True" bytes_in "writeFuint32 host" "readFuint32 host" for host
proof (unfold_locales, goal_cases)
  case (1 s v)
  then show ?case by (intro fixed_write) (simp_all only: writeFuint32_def Let_def write_swapped)
next
  case (2 s v rest)
  then show ?case using fixed_read [of s v rest host] by (simp add: readFuint32_def )
qed

interpretation Fint64: serializer ba_inv contents m_position m_endian ba_write ba_read setPosition
  "\<lambda>_. True" bytes_in "writeFint64 host" "readFint64 host" for host
proof (unfold_locales, goal_cases)
  case (1 s v)
  then show ?case by (intro fixed_write) (simp_all only: writeFint64_def Let_def write_swapped)
next
  case (2 s v rest)
  then show ?case using fixed_read [of s v rest host] by (simp add: readFint64_def )
qed

interpretation Fuint64: serializer ba_inv contents m_position m_endian ba_write ba_read setPosition
  "\<lambda>_. True" bytes_in "writeFuint64 host" "readFuint64 host" for host
proof (unfold_locales, goal_cases)
  case (1 s v)
  then show ?case by (intro fixed_write) (simp_all only: writeFuint64_def Let_def write_swapped)
next
  case (2 s v rest)
  then show ?case using fixed_read [of s v rest host] by (simp add: readFuint64_def )
qed

interpretation Float: serializer ba_inv contents m_position m_endian ba_write ba_read setPosition
  "\<lambda>_. True" bytes_in "writeFloat host" "readFloat host" for host
proof (unfold_locales, goal_cases)
  case (1 s v)
  then show ?case by (intro fixed_write) (simp_all only: writeFloat_def writeFuint32_def readFuint32_def Let_def write_swapped)
next
  case (2 s v rest)
  then show ?case using fixed_read [of s v rest host] by (simp add: readFloat_def  readFuint32_def )
qed

interpretation Double: serializer ba_inv contents m_position m_endian ba_write ba_read setPosition
  "\<lambda>_. True" bytes_in "writeDouble host" "readDouble host" for host
proof (unfold_locales, goal_cases)
  case (1 s v)
  then show ?case by (intro fixed_write) (simp_all only: writeDouble_def writeFuint64_def readFuint64_def Let_def write_swapped)
next
  case (2 s v rest)
  then show ?case using fixed_read [of s v rest host] by (simp add: readDouble_def  readFuint64_def )
qed

interpretation Fint8: serializer ba_inv contents m_position m_endian ba_write ba_read setPosition
  "\<lambda>_. True" bytes_in "writeFint8 host" "readFint8 host" for host
proof (unfold_locales, goal_cases)
  case (1 s v)
  then show ?case by (intro fixed_write) (simp_all only: writeFint8_def single_byte)
next
  case (2 s v rest)
  then show ?case using byte_read [of s v rest host]
    by (simp add: readFint8_def readFuint8_def single_byte)
qed

interpretation Fuint8: serializer ba_inv contents m_position m_endian ba_write ba_read setPosition
  "\<lambda>_. True" bytes_in "writeFuint8 host" "readFuint8 host" for host
proof (unfold_locales, goal_cases)
  case (1 s v)
  then show ?case by (intro fixed_write) (simp_all only: writeFuint8_def single_byte)
next
  case (2 s v rest)
  then show ?case using byte_read [of s v rest host]
    by (simp add: readFint8_def readFuint8_def single_byte)
qed

interpretation Uint32: serializer ba_inv contents m_position m_endian ba_write ba_read setPosition
  "\<lambda>_. True" "\<lambda>_. varint32" writeUint32 "readUint32 host" for host
proof (unfold_locales, goal_cases)
  case (1 s v)
  then show ?case using ba_write_correct [of s "varint32 v"] by (auto simp: writeUint32_def)
next
  case (2 s v rest)
  then show ?case by (intro readUint32_correct)
qed

interpretation Int32: serializer ba_inv contents m_position m_endian ba_write ba_read setPosition
  "\<lambda>_. True" "\<lambda>_ v. varint32 (EncodeZigzag32 v)" writeInt32 "readInt32 host" for host
proof (unfold_locales, goal_cases)
  case (1 s v)
  then show ?case using Uint32.wr_spec [of s "EncodeZigzag32 v"] by (simp add: writeInt32_def)
next
  case (2 s v rest)
  then show ?case using Uint32.rd_spec [of s "EncodeZigzag32 v" rest host]
    by (auto simp: readInt32_def)
qed

interpretation Uint64: serializer ba_inv contents m_position m_endian ba_write ba_read setPosition
  "\<lambda>_. True" "\<lambda>_. varint64" writeUint64 "readUint64 host" for host
proof (unfold_locales, goal_cases)
  case (1 s v)
  then show ?case using ba_write_correct [of s "varint64 v"] by (auto simp: writeUint64_def)
next
  case (2 s v rest)
  then show ?case by (intro readUint64_correct)
qed

interpretation Int64: serializer ba_inv contents m_position m_endian ba_write ba_read setPosition
  "\<lambda>_. True" "\<lambda>_ v. varint64 (EncodeZigzag64 v)" writeInt64 "readInt64 host" for host
proof (unfold_locales, goal_cases)
  case (1 s v)
  then show ?case using Uint64.wr_spec [of s "EncodeZigzag64 v"] by (simp add: writeInt64_def)
next
  case (2 s v rest)
  then show ?case using Uint64.rd_spec [of s "EncodeZigzag64 v" rest host]
    by (auto simp: readInt64_def)
qed

interpretation StringF16: length_prefix ba_inv contents m_position m_endian ba_write ba_read setPosition
  "\<lambda>_. True" bytes_in "writeFuint16 host" "readFuint16 host"
  word_of_nat unat "2 ^ 16" "writeStringF16 host" "readStringF16 host" for host
  by unfold_locales (auto simp: unat_of_nat writeStringF16_def readStringF16_def)

interpretation StringF32: length_prefix ba_inv contents m_position m_endian ba_write ba_read setPosition
  "\<lambda>_. True" bytes_in "writeFuint32 host" "readFuint32 host"
  word_of_nat unat "2 ^ 32" "writeStringF32 host" "readStringF32 host" for host
  by unfold_locales (auto simp: unat_of_nat writeStringF32_def readStringF32_def)

interpretation StringF64: length_prefix ba_inv contents m_position m_endian ba_write ba_read setPosition
  "\<lambda>_. True" bytes_in "writeFuint64 host" "readFuint64 host"
  word_of_nat unat "2 ^ 64" "writeStringF64 host" "readStringF64 host" for host
  by unfold_locales (auto simp: unat_of_nat writeStringF64_def readStringF64_def)

interpretation StringVint: length_prefix ba_inv contents m_position m_endian ba_write ba_read setPosition
  "\<lambda>_. True" "\<lambda>_. varint64" writeUint64 "readUint64 host"
  word_of_nat unat "2 ^ 64" writeStringVint "readStringVint host" for host
  by unfold_locales (auto simp: unat_of_nat writeStringVint_def readStringVint_def)

end
