(* ===== verification/ByteArray_IO.thy ===== *)
theory ByteArray_IO
  imports ByteArray_Codec
begin

text \<open>
  The operations of \<open>ByteArray\<close> that hand the bytes to somebody else (\<open>dag/bytearray.cpp\<close>, lines
  465 to 511 and 544 to 663): copies into strings and files, and the \<open>iovec\<close> lists over the blocks
  that vectored socket calls read from or write into. An \<open>iovec\<close> is a block with an offset and a
  length. The results are that the lists denote the bytes a read or a write at the position would
  touch, and that a file or a hexadecimal dump holds the unread bytes.
\<close>

section \<open>Copies into strings\<close>

definition toString :: "ByteArray \<Rightarrow> byte list res" where
  "toString ba =
     (if getReadSize ba = 0 then Inr [] else ba_read_at (getReadSize ba) (m_position ba) ba)"

definition hex_digit :: "nat \<Rightarrow> char" where
  "hex_digit n = (if n < 10 then char_of (48 + n) else char_of (87 + n))"

fun hex_dump :: "nat \<Rightarrow> byte list \<Rightarrow> string" where
  "hex_dump i [] = []"
| "hex_dump i (b # bs) =
     (if i > 0 \<and> i mod 32 = 0 then ''\<newline>'' else []) @
     [hex_digit (unat b div 16), hex_digit (unat b mod 16), CHR '' ''] @ hex_dump (Suc i) bs"

definition toHexString :: "ByteArray \<Rightarrow> string res" where
  "toHexString ba = rmap (hex_dump 0) (toString ba)"

section \<open>Files\<close>

text \<open>
  The file system is a map from names to contents; whether a file can be opened is an input. The
  streams are assumed to transfer what they are given, since the code does not look at their state.
\<close>

function writeToFile_loop :: "nat option \<Rightarrow> nat \<Rightarrow> nat \<Rightarrow> ByteArray \<Rightarrow> byte list res" where
  "writeToFile_loop cur pos read_size ba =
     (if read_size = 0 then Inr []
      else if m_baseSize ba = 0 then Inl Div_By_Zero
      else case cur of
        None \<Rightarrow> Inl Null_Deref
      | Some c \<Rightarrow>
          let diff = pos mod m_baseSize ba;
              len = min (m_baseSize ba - diff) read_size
          in rbind (node_load c diff len ba) (\<lambda>bs.
               rmap (\<lambda>bs'. bs @ bs')
                 (writeToFile_loop (node_next ba c) (pos + len) (read_size - len) ba)))"
  by pat_completeness auto
termination
  by (relation "measure (\<lambda>(cur, pos, read_size, ba). read_size)") auto

declare writeToFile_loop.simps [simp del]

definition writeToFile ::
  "bool \<Rightarrow> string \<Rightarrow> ByteArray \<Rightarrow> (string \<rightharpoonup> byte list) \<Rightarrow> (bool \<times> (string \<rightharpoonup> byte list)) res" where
  "writeToFile opened name ba fs =
     (if \<not> opened then Inr (False, fs)
      else rmap (\<lambda>bs. (True, fs(name \<mapsto> bs)))
             (writeToFile_loop (m_cur ba) (m_position ba) (getReadSize ba) ba))"

text \<open>
  The loop ends when a read delivers less than a block, which sets the end-of-file flag; with
  blocks of size 0 it never does.
\<close>

partial_function (option) readFromFile_loop :: "byte list \<Rightarrow> ByteArray \<Rightarrow> ByteArray res option" where
  "readFromFile_loop rest ba =
     (let chunk = take (m_baseSize ba) rest in
      case ba_write chunk ba of
        Inl e \<Rightarrow> Some (Inl e)
      | Inr ba' \<Rightarrow>
          if length chunk < m_baseSize ba then Some (Inr ba')
          else readFromFile_loop (drop (m_baseSize ba) rest) ba')"

definition readFromFile ::
  "bool \<Rightarrow> string \<Rightarrow> (string \<rightharpoonup> byte list) \<Rightarrow> ByteArray \<Rightarrow> (bool \<times> ByteArray) res option" where
  "readFromFile opened name fs ba =
     (case fs name of
        Some bs \<Rightarrow>
          if opened then map_option (rmap (\<lambda>ba'. (True, ba'))) (readFromFile_loop bs ba)
          else Some (Inr (False, ba))
      | None \<Rightarrow> Some (Inr (False, ba)))"

section \<open>Buffers for vectored calls\<close>

record iovec =
  iov_node :: nat
  iov_off :: nat
  iov_len :: nat

text \<open>The loop that the three functions below share.\<close>

function iov_loop :: "nat option \<Rightarrow> nat \<Rightarrow> nat \<Rightarrow> nat \<Rightarrow> ByteArray \<Rightarrow> iovec list res" where
  "iov_loop cur npos ncap len ba =
     (if len = 0 then Inr []
      else case cur of
        None \<Rightarrow> Inl Null_Deref
      | Some c \<Rightarrow>
          if len \<le> ncap then Inr [\<lparr>iov_node = c, iov_off = npos, iov_len = len\<rparr>]
          else rbind (node_size ba (node_next ba c)) (\<lambda>sz.
                 rmap (\<lambda>iovs. \<lparr>iov_node = c, iov_off = npos, iov_len = ncap\<rparr> # iovs)
                   (iov_loop (node_next ba c) 0 sz (len - ncap) ba)))"
  by pat_completeness auto
termination
  by (relation "measure (\<lambda>(cur, npos, ncap, len, ba).
        case cur of None \<Rightarrow> 0 | Some c \<Rightarrow> length (m_root ba) - c)")
    (auto simp: node_next_def node_size_def split: if_splits)

declare iov_loop.simps [simp del]

definition getReadBuffers :: "nat \<Rightarrow> ByteArray \<Rightarrow> (nat \<times> iovec list) res" where
  "getReadBuffers len ba =
     (let len = (if len > getReadSize ba then getReadSize ba else len) in
      if len = 0 then Inr (0, [])
      else if m_baseSize ba = 0 then Inl Div_By_Zero
      else let npos = m_position ba mod m_baseSize ba in
        rbind (node_size ba (m_cur ba)) (\<lambda>sz.
          rmap (\<lambda>iovs. (len, iovs)) (iov_loop (m_cur ba) npos (usub64 sz npos) len ba)))"

text \<open>The overload with a position takes the room from the block it has walked to.\<close>

definition getReadBuffers_at :: "nat \<Rightarrow> nat \<Rightarrow> ByteArray \<Rightarrow> (nat \<times> iovec list) res" where
  "getReadBuffers_at len position ba =
     (let len = (if len > getReadSize ba then getReadSize ba else len) in
      if len = 0 then Inr (0, [])
      else if m_baseSize ba = 0 then Inl Div_By_Zero
      else let npos = position mod m_baseSize ba in
        rbind (node_walk (position div m_baseSize ba) ba (Some 0)) (\<lambda>cur.
          rbind (node_size ba cur) (\<lambda>sz.
            rmap (\<lambda>iovs. (len, iovs)) (iov_loop cur npos (usub64 sz npos) len ba))))"

definition getWriteBuffers :: "nat \<Rightarrow> ByteArray \<Rightarrow> (nat \<times> iovec list \<times> ByteArray) res" where
  "getWriteBuffers len ba =
     (if len = 0 then Inr (0, [], ba)
      else rbind (addCapacity len ba) (\<lambda>ba.
        if m_baseSize ba = 0 then Inl Div_By_Zero
        else let npos = m_position ba mod m_baseSize ba in
          rbind (node_size ba (m_cur ba)) (\<lambda>sz.
            rmap (\<lambda>iovs. (len, iovs, ba)) (iov_loop (m_cur ba) npos (usub64 sz npos) len ba))))"

text \<open>
  What \<open>writev\<close> collects from such a list, and what \<open>readv\<close> stores through it when it received
  \<open>bs\<close>: the entries are filled in order, the last one it reaches partly.
\<close>

fun iov_gather :: "iovec list \<Rightarrow> ByteArray \<Rightarrow> byte list res" where
  "iov_gather [] ba = Inr []"
| "iov_gather (v # vs) ba =
     rbind (node_load (iov_node v) (iov_off v) (iov_len v) ba) (\<lambda>bs.
       rmap (\<lambda>bs'. bs @ bs') (iov_gather vs ba))"

fun iov_scatter :: "iovec list \<Rightarrow> byte list \<Rightarrow> ByteArray \<Rightarrow> ByteArray res" where
  "iov_scatter [] bs ba = Inr ba"
| "iov_scatter (v # vs) bs ba =
     (if bs = [] then Inr ba
      else rbind (node_store (iov_node v) (iov_off v) (take (iov_len v) bs) ba)
             (iov_scatter vs (drop (iov_len v) bs)))"

section \<open>What the copies hold\<close>

lemma toString_correct:
  assumes "ba_inv ba"
  shows "toString ba = Inr (drop (m_position ba) (contents ba))"
proof (cases "getReadSize ba = 0")
  case True
  with assms show ?thesis by (simp add: toString_def)
next
  case False
  with assms have "m_position ba < m_size ba" "m_size ba \<le> m_capacity ba" "m_position ba \<le> m_size ba"
    by (auto simp: ba_inv_def)
  with assms False show ?thesis
    by (simp add: toString_def ba_read_at_correct)
qed

lemma writeToFile_loop_read_at:
  assumes "ba_shape ba" "p < m_capacity ba" "p + n \<le> m_capacity ba"
  shows "writeToFile_loop (Some (p div m_baseSize ba)) p n ba = Inr (take n (drop p (concat (m_root ba))))"
  using assms(2,3)
proof (induction n arbitrary: p rule: less_induct)
  case (less n)
  let ?b = "m_baseSize ba"
  let ?k = "?b - p mod ?b"
  have b: "0 < ?b" using assms(1) by (simp add: ba_shape_def)
  have c: "p div ?b < length (m_root ba)" by (rule block_in_chain [OF assms(1) less(2)])
  have load: "node_load (p div ?b) (p mod ?b) k ba = Inr (take k (drop p (concat (m_root ba))))"
    if "k \<le> ?k" for k
    using that concat_uniform_segment [of "m_root ba" ?b "p div ?b" "p mod ?b" k] c assms(1) b
      mod_less_divisor [OF b, of p]
    by (simp add: node_load_def ba_shape_def del: mod_less_divisor)
  show ?case
  proof (cases "n \<le> ?k")
    case True
    then show ?thesis using b load [of n] by (auto simp: writeToFile_loop.simps)
  next
    case False
    then have n: "?k < n" "0 < ?k" using b by simp_all
    have nx: "p + ?k = Suc (p div ?b) * ?b" by (rule next_block_position [OF b])
    have "p + ?k < m_capacity ba" using n less(3) by simp
    then have "node_next ba (p div ?b) = Some ((p + ?k) div ?b)"
      using b by (simp only: node_next_cur_at [OF assms(1)] nx [symmetric] cur_at_def if_True)
    moreover have "writeToFile_loop (Some ((p + ?k) div ?b)) (p + ?k) (n - ?k) ba =
      Inr (take (n - ?k) (drop (p + ?k) (concat (m_root ba))))"
      using less(1) [of "n - ?k" "p + ?k"] n less(3) \<open>p + ?k < m_capacity ba\<close> by simp
    moreover have "take n xs = take ?k xs @ take (n - ?k) (drop ?k xs)" for xs :: "byte list"
      using take_add [of ?k "n - ?k" xs] n by simp
    ultimately show ?thesis using b n load [of ?k]
      by (simp add: writeToFile_loop.simps [of "Some (p div ?b)"] Let_def min_def add.commute)
  qed
qed

lemma writeToFile_correct:
  assumes "ba_inv ba"
  shows "writeToFile True name ba fs =
    Inr (True, fs(name \<mapsto> drop (m_position ba) (contents ba)))"
proof (cases "getReadSize ba = 0")
  case True
  with assms show ?thesis by (simp add: writeToFile_def writeToFile_loop.simps)
next
  case False
  with assms have p: "m_position ba < m_capacity ba" "m_size ba \<le> m_capacity ba" "ba_shape ba"
    "m_position ba \<le> m_size ba" by (auto simp: ba_inv_def)
  then have "m_cur ba = Some (m_position ba div m_baseSize ba)"
    using assms by (simp add: ba_inv_def cur_at_def)
  then show ?thesis
    using assms p writeToFile_loop_read_at [of ba "m_position ba" "getReadSize ba"]
      drop_contents [of ba "m_position ba" "getReadSize ba"]
    by (simp add: writeToFile_def)
qed

lemma readFromFile_loop_correct:
  assumes "ba_inv ba"
  shows "\<exists>ba'. readFromFile_loop bs ba = Some (Inr ba') \<and> ba_inv ba' \<and>
    (contents ba', m_position ba') = spec_write bs (contents ba, m_position ba)"
  using assms
proof (induction bs arbitrary: ba rule: length_induct)
  case (1 bs)
  let ?b = "m_baseSize ba"
  let ?chunk = "take ?b bs"
  have b: "0 < ?b" using 1(2) by (simp add: ba_inv_def ba_shape_def)
  obtain t where t: "ba_write ?chunk ba = Inr t" "ba_inv t" "m_baseSize t = ?b"
    "(contents t, m_position t) = spec_write ?chunk (contents ba, m_position ba)"
    using ba_write_correct [OF 1(2)] by blast
  have le: "m_position ba \<le> length (contents ba)" using 1(2) by (rule chain.pos_le)
  show ?case
  proof (cases "length bs < ?b")
    case True
    with t show ?thesis by (simp add: readFromFile_loop.simps [of bs] Let_def)
  next
    case False
    then have "length (drop ?b bs) < length bs" using b by simp
    then obtain u where "readFromFile_loop (drop ?b bs) t = Some (Inr u)" "ba_inv u"
      "(contents u, m_position u) = spec_write (drop ?b bs) (contents t, m_position t)"
      using 1(1) t(2) by blast
    with False t le show ?thesis
      by (simp add: readFromFile_loop.simps [of bs] Let_def spec_write_append)
  qed
qed

section \<open>What the buffer lists denote\<close>

lemma iov_loop_read_at:
  "read_at_loop cur npos ncap n ba = Inr bs \<Longrightarrow>
   \<exists>iovs. iov_loop cur npos ncap n ba = Inr iovs \<and> iov_gather iovs ba = Inr bs"
proof (induction cur npos ncap n ba arbitrary: bs rule: read_at_loop.induct)
  case (1 cur npos ncap n ba)
  show ?case
  proof (cases "n = 0 \<or> n \<le> ncap")
    case True
    with 1(2) show ?thesis
      by (cases cur) (auto simp: read_at_loop.simps [of _ _ _ n] iov_loop.simps [of _ _ _ n] split: if_splits)
  next
    case False
    with 1(2) obtain c as sz bs' where "cur = Some c" "node_load c npos ncap ba = Inr as"
      "node_size ba (node_next ba c) = Inr sz"
      "read_at_loop (node_next ba c) 0 sz (n - ncap) ba = Inr bs'" "bs = as @ bs'"
      by (cases cur) (auto simp: read_at_loop.simps [of _ _ _ n] dag_bind)
    moreover from this 1(1) False
    have "\<exists>iovs. iov_loop (node_next ba c) 0 sz (n - ncap) ba = Inr iovs \<and> iov_gather iovs ba = Inr bs'"
      by simp
    ultimately show ?thesis using False by (auto simp: iov_loop.simps [of _ _ _ n])
  qed
qed

lemma getReadBuffers_correct:
  assumes "ba_inv ba"
  shows "\<exists>iovs. getReadBuffers len ba = Inr (min len (m_size ba - m_position ba), iovs) \<and>
    iov_gather iovs ba = Inr (take len (drop (m_position ba) (contents ba)))"
proof (cases "min len (m_size ba - m_position ba) = 0")
  case True
  with assms show ?thesis by (auto simp: getReadBuffers_def min_def split: if_splits)
next
  case False
  let ?n = "min len (m_size ba - m_position ba)"
  have p: "m_position ba < m_capacity ba" "m_position ba + ?n \<le> m_size ba" "ba_shape ba"
    "m_size ba \<le> m_capacity ba" "0 < m_baseSize ba"
    and cur: "m_cur ba = Some (m_position ba div m_baseSize ba)"
    using assms False by (auto simp: ba_inv_def cur_at_def ba_shape_def)
  then obtain iovs where "iov_loop (m_cur ba) (m_position ba mod m_baseSize ba)
      (m_baseSize ba - m_position ba mod m_baseSize ba) ?n ba = Inr iovs"
    "iov_gather iovs ba = Inr (take ?n (drop (m_position ba) (contents ba)))"
    using iov_loop_read_at [OF read_at_loop_correct [of ba "m_position ba" ?n]]
      drop_contents [OF assms, of "m_position ba" ?n] by auto
  moreover have "take ?n (drop (m_position ba) (contents ba)) = take len (drop (m_position ba) (contents ba))"
    using assms by (simp add: min_def)
  moreover have "node_size ba (m_cur ba) = Inr (m_baseSize ba)"
    unfolding cur by (rule node_size_chain [OF p(3) block_in_chain [OF p(3,1)]])
  moreover have "(if len > getReadSize ba then getReadSize ba else len) = ?n"
    using assms by (simp add: min_def)
  ultimately show ?thesis using False p(5) mod_less_divisor [OF p(5), of "m_position ba"]
    by (auto simp: getReadBuffers_def Let_def simp del: mod_less_divisor getReadSize_inv)
qed

lemma node_store_root_only:
  "node_store c off bs ba = Inr ba' \<Longrightarrow>
   ba' = ba\<lparr>m_root := m_root ba'\<rparr> \<and> node_next ba' = node_next ba \<and> node_size ba' = node_size ba"
  by (auto simp: node_store_def node_next_def node_size_def fun_eq_iff nth_list_update
      split: if_splits option.splits)

lemma node_update [simp]:
  "node_next (ba\<lparr>m_position := q\<rparr>) = node_next ba" "node_size (ba\<lparr>m_position := q\<rparr>) = node_size ba"
  "node_next (ba\<lparr>m_cur := x\<rparr>) = node_next ba" "node_size (ba\<lparr>m_cur := x\<rparr>) = node_size ba"
  by (simp_all add: fun_eq_iff node_next_def node_size_def split: option.split)

lemma node_store_update:
  "node_store c off bs (ba\<lparr>m_position := q, m_cur := x\<rparr>) =
   rmap (\<lambda>b. b\<lparr>m_position := q, m_cur := x\<rparr>) (node_store c off bs ba)"
  by (simp add: node_store_def)

lemma iov_scatter_update:
  "iov_scatter iovs bs (ba\<lparr>m_position := q, m_cur := x\<rparr>) =
   rmap (\<lambda>b. b\<lparr>m_position := q, m_cur := x\<rparr>) (iov_scatter iovs bs ba)"
proof (induction iovs bs ba rule: iov_scatter.induct)
  case (2 v vs bs ba)
  then show ?case
    by (cases "node_store (iov_node v) (iov_off v) (take (iov_len v) bs) ba")
      (auto simp: node_store_update)
qed simp

lemma root_only_trans:
  "x = ba\<lparr>m_root := m_root x\<rparr> \<Longrightarrow> b = x\<lparr>m_root := m_root b\<rparr> \<Longrightarrow> b = (ba :: ByteArray)\<lparr>m_root := m_root b\<rparr>"
  by (cases ba; cases x; cases b) simp

lemma iov_scatter_chain: "iov_scatter iovs bs ba = Inr b \<Longrightarrow> b = ba\<lparr>m_root := m_root b\<rparr>"
proof (induction iovs bs ba rule: iov_scatter.induct)
  case (2 v vs bs ba)
  show ?case
  proof (cases "bs = []")
    case False
    with 2 obtain x where x: "node_store (iov_node v) (iov_off v) (take (iov_len v) bs) ba = Inr x"
      "iov_scatter vs (drop (iov_len v) bs) x = Inr b"
      by (auto simp: dag_bind)
    with 2(1) False show ?thesis using node_store_root_only [OF x(1)] root_only_trans [of x ba b] by blast
  qed (use 2 in simp)
qed simp

lemma iov_loop_cong:
  assumes "node_next ba' = node_next ba" "node_size ba' = node_size ba"
  shows "iov_loop cur npos ncap n ba' = iov_loop cur npos ncap n ba"
  using assms
proof (induction cur npos ncap n ba rule: iov_loop.induct)
  case (1 cur npos ncap n ba)
  then show ?case
    by (cases cur; cases "node_size ba (node_next ba (the cur))")
      (simp_all add: iov_loop.simps [of _ npos ncap n])
qed

lemma iov_scatter_empty [simp]: "iov_scatter iovs [] ba = Inr ba"
  by (cases iovs) simp_all

lemma iov_scatter_write:
  "write_loop npos ncap buf ba = Inr ba' \<Longrightarrow> iov_loop (m_cur ba) npos ncap n ba = Inr iovs \<Longrightarrow>
   length buf \<le> n \<Longrightarrow> iov_scatter iovs buf ba = Inr (ba\<lparr>m_root := m_root ba'\<rparr>)"
proof (induction npos ncap buf ba arbitrary: n iovs rule: write_loop.induct)
  case (1 npos ncap buf ba)
  consider "buf = []" | c where "buf \<noteq> []" "m_cur ba = Some c" "length buf \<le> ncap"
    | c where "m_cur ba = Some c" "\<not> length buf \<le> ncap"
    using 1(2) by (cases "m_cur ba"; cases "buf = []"; cases "length buf \<le> ncap")
      (auto simp: write_loop.simps [of _ _ buf])
  then show ?case
  proof cases
    case 1
    with "1.prems"(1) show ?thesis by (simp add: write_loop.simps)
  next
    case 2
    then obtain ba1 where st: "node_store c npos buf ba = Inr ba1" "m_root ba' = m_root ba1"
      using "1.prems"(1) by (auto simp: write_loop.simps [of _ _ buf] dag_bind Let_def split: if_splits)
    from 2 "1.prems"(2,3) obtain l vs where
      "iovs = \<lparr>iov_node = c, iov_off = npos, iov_len = l\<rparr> # vs" "length buf \<le> l"
      by (auto simp: iov_loop.simps [of _ _ _ n] dag_bind split: if_splits)
    then show ?thesis using 2 st node_store_root_only [OF st(1)] by auto
  next
    case 3
    then have ne: "buf \<noteq> []" "\<not> n \<le> ncap" "n \<noteq> 0" using "1.prems"(3) by auto
    with 3 "1.prems"(1) obtain ba1 sz where st: "node_store c npos (take ncap buf) ba = Inr ba1"
      "node_size ba1 (node_next ba1 c) = Inr sz"
      "write_loop 0 sz (drop ncap buf)
        (ba1\<lparr>m_position := m_position ba1 + ncap, m_cur := node_next ba1 c\<rparr>) = Inr ba'"
      by (auto simp: write_loop.simps [of _ _ buf] dag_bind Let_def)
    note same = node_store_root_only [OF st(1)]
    with 3 ne "1.prems"(2) st(2) obtain vs where
      vs: "iovs = \<lparr>iov_node = c, iov_off = npos, iov_len = ncap\<rparr> # vs"
        "iov_loop (node_next ba c) 0 sz (n - ncap) ba = Inr vs"
      by (auto simp: iov_loop.simps [of _ _ _ n] dag_bind)
    let ?ba2 = "ba1\<lparr>m_position := m_position ba1 + ncap, m_cur := node_next ba1 c\<rparr>"
    have "iov_loop (m_cur ?ba2) 0 sz (n - ncap) ?ba2 = Inr vs"
      using vs(2) same iov_loop_cong [of ?ba2 ba] by simp
    then have "iov_scatter vs (drop ncap buf) ?ba2 = Inr (?ba2\<lparr>m_root := m_root ba'\<rparr>)"
      using "1.IH" [of c ba1 ?ba2 sz "n - ncap" vs] 3 ne st "1.prems"(3) by simp
    then obtain b where b: "iov_scatter vs (drop ncap buf) ba1 = Inr b" "m_root b = m_root ba'"
      by (auto simp: iov_scatter_update rmap_eq_Inr dest: arg_cong [of _ _ m_root])
    then have "b = ba\<lparr>m_root := m_root ba'\<rparr>"
      using root_only_trans [OF conjunct1 [OF same] iov_scatter_chain [OF b(1)]] by simp
    with b vs ne st(1) show ?thesis by simp
  qed
qed

lemma filled_contents:
  assumes inv: "ba_inv ba" and room: "m_position ba + length bs \<le> m_capacity ba"
    and sh: "ba_shape (ba\<lparr>m_root := r\<rparr>)"
    and r: "concat r = overwrite (m_position ba) bs (concat (m_root ba))"
  shows "\<exists>ba'. setPosition (m_position ba + length bs) (ba\<lparr>m_root := r\<rparr>) = Inr ba' \<and> ba_inv ba' \<and>
    (contents ba', m_position ba') = spec_write bs (contents ba, m_position ba) \<and> m_endian ba' = m_endian ba"
proof -
  let ?r = "ba\<lparr>m_root := r\<rparr>"
  let ?p = "m_position ba + length bs"
  have "ba_inv ?r" using inv sh by (simp add: ba_inv_def)
  then have set: "setPosition ?p ?r = Inr (moved ?p (?r\<lparr>m_size := max (m_size ba) ?p\<rparr>))"
    using setPosition_correct [of ?r ?p] room by simp
  have "m_position ba \<le> m_size ba" "m_size ba \<le> length (concat (m_root ba))"
    using inv length_chain by (auto simp: ba_inv_def)
  moreover have "?p \<le> length (concat (m_root ba))" using room inv length_chain by (auto simp: ba_inv_def)
  ultimately have "take (max (m_size ba) ?p) (concat r) =
      take (m_position ba) (contents ba) @ bs @ drop ?p (contents ba)"
    unfolding r contents_def by (intro take_overwrite_grow)
  with set ba_inv_setPosition [OF \<open>ba_inv ?r\<close> set] show ?thesis
    by (simp add: spec_write_def contents_def moved_def)
qed

lemma getWriteBuffers_correct:
  assumes inv: "ba_inv ba" and n: "length bs \<le> n"
  shows "\<exists>iovs ba1 ba2 ba3. getWriteBuffers n ba = Inr (n, iovs, ba1) \<and> ba_inv ba1 \<and>
    contents ba1 = contents ba \<and> iov_scatter iovs bs ba1 = Inr ba2 \<and>
    setPosition (m_position ba + length bs) ba2 = Inr ba3 \<and> ba_inv ba3 \<and>
    (contents ba3, m_position ba3) = spec_write bs (contents ba, m_position ba) \<and> m_endian ba3 = m_endian ba"
proof (cases "n = 0")
  case True
  with n inv filled_contents [OF inv, of "[]" "m_root ba"] show ?thesis
    by (simp add: getWriteBuffers_def ba_inv_def)
next
  case False
  obtain r cap cur where a: "addCapacity n ba =
      Inr (ba\<lparr>m_root := m_root ba @ r, m_capacity := cap, m_cur := cur\<rparr>)"
    "ba_inv (ba\<lparr>m_root := m_root ba @ r, m_capacity := cap, m_cur := cur\<rparr>)"
    "m_position ba + n \<le> cap"
    using addCapacity_correct [OF inv] .
  let ?a = "ba\<lparr>m_root := m_root ba @ r, m_capacity := cap, m_cur := cur\<rparr>"
  have sh: "ba_shape ?a" using a(2) by (auto simp: ba_inv_def)
  have p: "m_position ?a < m_capacity ?a" "m_position ?a + n \<le> m_capacity ?a" using False a(3) by auto
  have cur: "m_cur ?a = Some (m_position ?a div m_baseSize ?a)"
    using a(2) p by (simp add: ba_inv_def cur_at_def)
  have same: "contents ?a = contents ba"
    using inv by (simp add: contents_def ba_inv_def length_chain)
  have b: "0 < m_baseSize ba" using sh by (simp add: ba_shape_def)
  let ?l = "\<lambda>f. f (m_position ba mod m_baseSize ba) (m_baseSize ba - m_position ba mod m_baseSize ba)"
  obtain iovs where iovs: "?l (iov_loop (m_cur ?a)) n ?a = Inr iovs"
    using iov_loop_read_at [OF read_at_loop_correct [OF sh p]] cur by auto
  have "node_size ?a (m_cur ?a) = Inr (m_baseSize ba)"
    unfolding cur using node_size_chain [OF sh block_in_chain [OF sh p(1)]] by simp
  then have get: "getWriteBuffers n ba = Inr (n, iovs, ?a)"
    using False a(1) iovs b cur by (simp add: getWriteBuffers_def Let_def less_imp_le)
  obtain r' where w: "iov_scatter iovs bs ?a = Inr (?a\<lparr>m_root := r'\<rparr>)" "ba_shape (?a\<lparr>m_root := r'\<rparr>)"
    "concat r' = overwrite (m_position ?a) bs (concat (m_root ?a))"
  proof (cases "bs = []")
    case True
    with sh that [of "m_root ?a"] show thesis by (simp add: ba_shape_def)
  next
    case False
    with write_loop_correct [OF False sh cur] n p obtain r' ba' where
      "?l write_loop bs ?a = Inr ba'" "m_root ba' = r'" "ba_shape (?a\<lparr>m_root := r'\<rparr>)"
      "concat r' = overwrite (m_position ?a) bs (concat (m_root ?a))" by auto
    with that [of r'] iov_scatter_write [OF _ iovs n] show thesis by simp
  qed
  have "m_position ?a + length bs \<le> m_capacity ?a" using p(2) n by linarith
  from filled_contents [OF a(2) this w(2,3)] show ?thesis
    using get a(2) same w(1) by fastforce
qed

section \<open>Reading a hexadecimal dump back\<close>

definition hex_value :: "char \<Rightarrow> nat" where
  "hex_value c = (if of_char c < (58::nat) then of_char c - 48 else of_char c - 87)"

fun read_hex :: "string \<Rightarrow> byte list" where
  "read_hex (h # l # sp # cs) = word_of_nat (16 * hex_value h + hex_value l) # read_hex cs"
| "read_hex _ = []"

lemma hex_value_digit: "n < 16 \<Longrightarrow> hex_value (hex_digit n) = n"
  by (auto simp: hex_value_def hex_digit_def)

lemma hex_digit_not_newline: "n < 16 \<Longrightarrow> hex_digit n \<noteq> CHR ''\<newline>''"
  by (auto simp: hex_digit_def dest!: arg_cong [of _ _ "of_char :: char \<Rightarrow> nat"])

lemma byte_digits:
  "unat b div 16 < 16" "unat b mod 16 < 16" "word_of_nat (16 * (unat b div 16) + unat b mod 16) = (b :: byte)"
  using unat_bound [of b] by (simp_all add: less_mult_imp_div_less)

lemma read_hex_dump: "read_hex (filter (\<lambda>c. c \<noteq> CHR ''\<newline>'') (hex_dump i bs)) = bs"
  by (induction i bs rule: hex_dump.induct)
    (simp_all add: byte_digits hex_digit_not_newline hex_value_digit del: of_nat_add of_nat_mult)

end
