(* ===== verification/ByteArray_Correct.thy ===== *)
theory ByteArray_Correct
  imports ByteArray_IO
begin

text \<open>
  The theorems on \<open>ByteArray\<close> as a whole: the invariant of every array that the public operations
  can produce, the refinement of the flat array, the round trip of messages made of fields of every
  format, and the formats of the vectored, file and text interfaces.
\<close>

section \<open>Messages\<close>

text \<open>One value with the accessors that write and read it; reading follows a template.\<close>

datatype field =
    VFint8 u8
  | VFuint8 u8
  | VFint16 u16
  | VFuint16 u16
  | VFint32 u32
  | VFuint32 u32
  | VFint64 u64
  | VFuint64 u64
  | VInt32 u32
  | VUint32 u32
  | VInt64 u64
  | VUint64 u64
  | VFloat u32
  | VDouble u64
  | VStringF16 "byte list"
  | VStringF32 "byte list"
  | VStringF64 "byte list"
  | VStringVint "byte list"

fun write_field :: "byte_order \<Rightarrow> field \<Rightarrow> ByteArray \<Rightarrow> ByteArray res" where
  "write_field host (VFint8 v) = writeFint8 host v"
| "write_field host (VFuint8 v) = writeFuint8 host v"
| "write_field host (VFint16 v) = writeFint16 host v"
| "write_field host (VFuint16 v) = writeFuint16 host v"
| "write_field host (VFint32 v) = writeFint32 host v"
| "write_field host (VFuint32 v) = writeFuint32 host v"
| "write_field host (VFint64 v) = writeFint64 host v"
| "write_field host (VFuint64 v) = writeFuint64 host v"
| "write_field host (VInt32 v) = writeInt32 v"
| "write_field host (VUint32 v) = writeUint32 v"
| "write_field host (VInt64 v) = writeInt64 v"
| "write_field host (VUint64 v) = writeUint64 v"
| "write_field host (VFloat v) = writeFloat host v"
| "write_field host (VDouble v) = writeDouble host v"
| "write_field host (VStringF16 v) = writeStringF16 host v"
| "write_field host (VStringF32 v) = writeStringF32 host v"
| "write_field host (VStringF64 v) = writeStringF64 host v"
| "write_field host (VStringVint v) = writeStringVint v"

fun read_field :: "byte_order \<Rightarrow> field \<Rightarrow> ByteArray \<Rightarrow> (field \<times> ByteArray) res" where
  "read_field host (VFint8 _) ba = rmap (\<lambda>(v, ba'). (VFint8 v, ba')) (readFint8 host ba)"
| "read_field host (VFuint8 _) ba = rmap (\<lambda>(v, ba'). (VFuint8 v, ba')) (readFuint8 host ba)"
| "read_field host (VFint16 _) ba = rmap (\<lambda>(v, ba'). (VFint16 v, ba')) (readFint16 host ba)"
| "read_field host (VFuint16 _) ba = rmap (\<lambda>(v, ba'). (VFuint16 v, ba')) (readFuint16 host ba)"
| "read_field host (VFint32 _) ba = rmap (\<lambda>(v, ba'). (VFint32 v, ba')) (readFint32 host ba)"
| "read_field host (VFuint32 _) ba = rmap (\<lambda>(v, ba'). (VFuint32 v, ba')) (readFuint32 host ba)"
| "read_field host (VFint64 _) ba = rmap (\<lambda>(v, ba'). (VFint64 v, ba')) (readFint64 host ba)"
| "read_field host (VFuint64 _) ba = rmap (\<lambda>(v, ba'). (VFuint64 v, ba')) (readFuint64 host ba)"
| "read_field host (VInt32 _) ba = rmap (\<lambda>(v, ba'). (VInt32 v, ba')) (readInt32 host ba)"
| "read_field host (VUint32 _) ba = rmap (\<lambda>(v, ba'). (VUint32 v, ba')) (readUint32 host ba)"
| "read_field host (VInt64 _) ba = rmap (\<lambda>(v, ba'). (VInt64 v, ba')) (readInt64 host ba)"
| "read_field host (VUint64 _) ba = rmap (\<lambda>(v, ba'). (VUint64 v, ba')) (readUint64 host ba)"
| "read_field host (VFloat _) ba = rmap (\<lambda>(v, ba'). (VFloat v, ba')) (readFloat host ba)"
| "read_field host (VDouble _) ba = rmap (\<lambda>(v, ba'). (VDouble v, ba')) (readDouble host ba)"
| "read_field host (VStringF16 _) ba = rmap (\<lambda>(v, ba'). (VStringF16 v, ba')) (readStringF16 host ba)"
| "read_field host (VStringF32 _) ba = rmap (\<lambda>(v, ba'). (VStringF32 v, ba')) (readStringF32 host ba)"
| "read_field host (VStringF64 _) ba = rmap (\<lambda>(v, ba'). (VStringF64 v, ba')) (readStringF64 host ba)"
| "read_field host (VStringVint _) ba = rmap (\<lambda>(v, ba'). (VStringVint v, ba')) (readStringVint host ba)"

fun read_fields :: "byte_order \<Rightarrow> field list \<Rightarrow> ByteArray \<Rightarrow> (field list \<times> ByteArray) res" where
  "read_fields host [] ba = Inr ([], ba)"
| "read_fields host (f # fs) ba =
     rbind (read_field host f ba) (\<lambda>(g, ba'). rmap (\<lambda>(gs, ba''). (g # gs, ba'')) (read_fields host fs ba'))"

text \<open>
  The strings that a format can hold. The empty string is left out: reading it back fails when it
  ends a block (see below).
\<close>

fun field_ok :: "field \<Rightarrow> bool" where
  "field_ok (VStringF16 v) \<longleftrightarrow> v \<noteq> [] \<and> length v < 2 ^ 16"
| "field_ok (VStringF32 v) \<longleftrightarrow> v \<noteq> [] \<and> length v < 2 ^ 32"
| "field_ok (VStringF64 v) \<longleftrightarrow> v \<noteq> [] \<and> length v < 2 ^ 64"
| "field_ok (VStringVint v) \<longleftrightarrow> v \<noteq> [] \<and> length v < 2 ^ 64"
| "field_ok _ \<longleftrightarrow> True"

text \<open>The bytes of a field in a byte order; no host occurs in it.\<close>

fun field_bytes :: "byte_order \<Rightarrow> field \<Rightarrow> byte list" where
  "field_bytes e (VFint8 v) = bytes_in e v"
| "field_bytes e (VFuint8 v) = bytes_in e v"
| "field_bytes e (VFint16 v) = bytes_in e v"
| "field_bytes e (VFuint16 v) = bytes_in e v"
| "field_bytes e (VFint32 v) = bytes_in e v"
| "field_bytes e (VFuint32 v) = bytes_in e v"
| "field_bytes e (VFint64 v) = bytes_in e v"
| "field_bytes e (VFuint64 v) = bytes_in e v"
| "field_bytes e (VInt32 v) = varint32 (EncodeZigzag32 v)"
| "field_bytes e (VUint32 v) = varint32 v"
| "field_bytes e (VInt64 v) = varint64 (EncodeZigzag64 v)"
| "field_bytes e (VUint64 v) = varint64 v"
| "field_bytes e (VFloat v) = bytes_in e v"
| "field_bytes e (VDouble v) = bytes_in e v"
| "field_bytes e (VStringF16 v) = bytes_in e (word_of_nat (length v) :: u16) @ v"
| "field_bytes e (VStringF32 v) = bytes_in e (word_of_nat (length v) :: u32) @ v"
| "field_bytes e (VStringF64 v) = bytes_in e (word_of_nat (length v) :: u64) @ v"
| "field_bytes e (VStringVint v) = varint64 (word_of_nat (length v)) @ v"

lemmas field_wr =
  Fint8.wr_spec
  Fuint8.wr_spec
  Fint16.wr_spec
  Fuint16.wr_spec
  Fint32.wr_spec
  Fuint32.wr_spec
  Fint64.wr_spec
  Fuint64.wr_spec
  Int32.wr_spec
  Uint32.wr_spec
  Int64.wr_spec
  Uint64.wr_spec
  Float.wr_spec
  Double.wr_spec
  StringF16.str.wr_spec
  StringF32.str.wr_spec
  StringF64.str.wr_spec
  StringVint.str.wr_spec

lemmas field_rd =
  Fint8.rd_spec
  Fuint8.rd_spec
  Fint16.rd_spec
  Fuint16.rd_spec
  Fint32.rd_spec
  Fuint32.rd_spec
  Fint64.rd_spec
  Fuint64.rd_spec
  Int32.rd_spec
  Uint32.rd_spec
  Int64.rd_spec
  Uint64.rd_spec
  Float.rd_spec
  Double.rd_spec
  StringF16.str.rd_spec
  StringF32.str.rd_spec
  StringF64.str.rd_spec
  StringVint.str.rd_spec

lemma field_write:
  assumes "ba_inv ba" "field_ok f"
  shows "\<exists>ba'. write_field host f ba = Inr ba' \<and> ba_inv ba' \<and>
    (contents ba', m_position ba') = spec_write (field_bytes (m_endian ba) f) (contents ba, m_position ba) \<and>
    m_endian ba' = m_endian ba"
  using assms by (cases f; simp only: write_field.simps field_bytes.simps field_ok.simps)
    (rule field_wr; simp)+

lemma tagged_read:
  "\<exists>s'. m = Inr (v, s') \<and> P s' \<Longrightarrow> \<exists>s'. rmap (\<lambda>(v, s'). (F v, s')) m = Inr (F v, s') \<and> P s'"
  by auto

lemma field_read:
  assumes "ba_inv ba" "field_ok f"
    and "drop (m_position ba) (contents ba) = field_bytes (m_endian ba) f @ rest"
  shows "\<exists>ba'. read_field host f ba = Inr (f, ba') \<and> ba_inv ba' \<and>
    drop (m_position ba') (contents ba') = rest \<and> contents ba' = contents ba \<and>
    m_position ba' = m_position ba + length (field_bytes (m_endian ba) f) \<and> m_endian ba' = m_endian ba"
  using assms by (cases f; simp only: read_field.simps field_bytes.simps field_ok.simps)
    (rule tagged_read, rule field_rd; simp)+

lemma message_write:
  assumes "ba_inv ba" "\<forall>f \<in> set fs. field_ok f"
  shows "\<exists>ba'. rfold (write_field host) fs ba = Inr ba' \<and> ba_inv ba' \<and>
    (contents ba', m_position ba') =
      spec_write (concat (map (field_bytes (m_endian ba)) fs)) (contents ba, m_position ba) \<and>
    m_endian ba' = m_endian ba"
  using assms
proof (induction fs arbitrary: ba)
  case Nil
  then show ?case using chain.pos_le by simp
next
  case (Cons f fs)
  then obtain t where t: "write_field host f ba = Inr t" "ba_inv t" "m_endian t = m_endian ba"
    "(contents t, m_position t) = spec_write (field_bytes (m_endian ba) f) (contents ba, m_position ba)"
    using field_write [of ba f host] by auto
  with Cons obtain u where "rfold (write_field host) fs t = Inr u" "ba_inv u" "m_endian u = m_endian ba"
    "(contents u, m_position u) =
      spec_write (concat (map (field_bytes (m_endian ba)) fs)) (contents t, m_position t)"
    by (metis list.set_intros(2))
  with t Cons.prems(1) show ?case using chain.pos_le [of ba] by (simp add: spec_write_append)
qed

lemma message_read:
  assumes "ba_inv ba" "\<forall>f \<in> set fs. field_ok f"
    and "drop (m_position ba) (contents ba) = concat (map (field_bytes (m_endian ba)) fs) @ rest"
  shows "\<exists>ba'. read_fields host fs ba = Inr (fs, ba') \<and> ba_inv ba' \<and> contents ba' = contents ba \<and>
    m_position ba' = m_position ba + length (concat (map (field_bytes (m_endian ba)) fs))"
  using assms
proof (induction fs arbitrary: ba)
  case (Cons f fs)
  then obtain t where t: "read_field host f ba = Inr (f, t)" "ba_inv t" "m_endian t = m_endian ba"
    "drop (m_position t) (contents t) = concat (map (field_bytes (m_endian ba)) fs) @ rest"
    "contents t = contents ba" "m_position t = m_position ba + length (field_bytes (m_endian ba) f)"
    using field_read [of ba f "concat (map (field_bytes (m_endian ba)) fs) @ rest" host] by auto
  with Cons.IH [of t] Cons.prems(2) show ?case by auto
qed simp

section \<open>Reachable arrays\<close>

inductive ba_step :: "ByteArray \<Rightarrow> ByteArray \<Rightarrow> bool" where
  step_write: "ba_write bs ba = Inr ba' \<Longrightarrow> ba_step ba ba'"
| step_read: "ba_read n ba = Inr (bs, ba') \<Longrightarrow> ba_step ba ba'"
| step_seek: "setPosition v ba = Inr ba' \<Longrightarrow> ba_step ba ba'"
| step_clear: "ba_step ba (ba_clear ba)"
| step_endian: "ba_step ba (setIsLittleEndian e ba)"
| step_reserve: "getWriteBuffers n ba = Inr (k, iovs, ba') \<Longrightarrow> ba_step ba ba'"
| step_fill: "iov_scatter iovs bs ba = Inr ba' \<Longrightarrow> ba_step ba ba'"

inductive_cases ba_step_cases: "ba_step ba ba'"

inductive ba_reach :: "ByteArray \<Rightarrow> bool" where
  reach_new: "0 < b \<Longrightarrow> ba_reach (ByteArray_new fresh b)"
| reach_step: "ba_reach ba \<Longrightarrow> ba_step ba ba' \<Longrightarrow> ba_reach ba'"

lemma ba_inv_node_store: "node_store c off bs ba = Inr ba' \<Longrightarrow> ba_inv ba \<Longrightarrow> ba_inv ba'"
  by (auto simp: node_store_def ba_inv_def ba_shape_def split: if_splits
      dest!: subsetD [OF set_update_subset_insert])

lemma ba_inv_scatter: "iov_scatter iovs bs ba = Inr ba' \<Longrightarrow> ba_inv ba \<Longrightarrow> ba_inv ba'"
  by (induction iovs bs ba rule: iov_scatter.induct)
    (auto simp: dag_bind split: if_splits dest: ba_inv_node_store)

lemma ba_inv_read:
  assumes "ba_inv ba" "ba_read n ba = Inr (bs, ba')"
  shows "ba_inv ba'"
proof -
  have n: "m_position ba + n \<le> m_size ba" using assms ba_read_out_of_range [of ba n] by force
  moreover have "m_position ba \<noteq> m_capacity ba"
    using assms n ba_read_at_end [of ba] by (cases "n = 0") (auto simp: ba_inv_def)
  ultimately have "m_position ba < m_capacity ba" using assms(1) by (auto simp: ba_inv_def)
  then show ?thesis using ba_read_correct [OF assms(1) n] assms ba_inv_moved [OF assms(1) n] by simp
qed

lemma ba_step_inv: "ba_step ba ba' \<Longrightarrow> ba_inv ba \<Longrightarrow> ba_inv ba'"
proof (elim ba_step_cases, goal_cases)
  case (1 bs)
  then show ?case using ba_write_correct [of ba bs] by auto
next
  case (6 n k iovs)
  then show ?case using getWriteBuffers_correct [of ba "[]" n] by auto
qed (auto intro: ba_inv_clear ba_inv_setIsLittleEndian ba_inv_scatter ba_inv_read
      dest: ba_inv_setPosition)

lemma ba_reach_inv: "ba_reach ba \<Longrightarrow> ba_inv ba"
  by (induction rule: ba_reach.induct) (auto intro: ba_inv_new ba_step_inv)

text \<open>
  C2: every array that the public operations can produce keeps the invariant; on it a write always
  succeeds, and a read throws exactly when fewer bytes are left, or reads through the null pointer
  \<open>m_cur\<close> exactly when nothing is asked for at the end of the last block.
\<close>

theorem reachable_safe:
  assumes "ba_reach ba"
  shows "ba_inv ba \<and> (\<exists>ba'. ba_write bs ba = Inr ba') \<and>
    (case ba_read n ba of
       Inl f \<Rightarrow> f = Out_Of_Range ''not enough len'' \<and> getReadSize ba < n \<or>
              f = Null_Deref \<and> n = 0 \<and> m_position ba = m_capacity ba
     | Inr (out, ba') \<Rightarrow> out = take n (drop (m_position ba) (contents ba)) \<and> length out = n \<and>
              m_position ba' = m_position ba + n \<and> contents ba' = contents ba)"
proof -
  have inv: "ba_inv ba" using assms by (rule ba_reach_inv)
  then have b: "m_position ba \<le> m_size ba" "m_size ba \<le> m_capacity ba" by (auto simp: ba_inv_def)
  consider "m_size ba < m_position ba + n" | "m_position ba + n \<le> m_size ba" "m_position ba < m_capacity ba"
    | "n = 0" "m_position ba = m_capacity ba"
    using b by linarith
  then have "case ba_read n ba of
       Inl f \<Rightarrow> f = Out_Of_Range ''not enough len'' \<and> getReadSize ba < n \<or>
              f = Null_Deref \<and> n = 0 \<and> m_position ba = m_capacity ba
     | Inr (out, ba') \<Rightarrow> out = take n (drop (m_position ba) (contents ba)) \<and> length out = n \<and>
              m_position ba' = m_position ba + n \<and> contents ba' = contents ba"
  proof cases
    case 1
    then show ?thesis using inv b ba_read_out_of_range [OF inv 1] by simp
  next
    case 2
    then show ?thesis using inv ba_read_correct [OF inv] ba_inv_moved [OF inv, of "m_position ba + n"]
      by simp
  next
    case 3
    then show ?thesis using ba_read_at_end [OF inv] by simp
  qed
  then show ?thesis using inv ba_write_correct [OF inv, of bs] by blast
qed

theorem reachable_safe_witness:
  "ba_inv (setIsLittleEndian True (ByteArray_new (\<lambda>_. 0) 4)) \<and>
   (\<exists>ba'. ba_write [1, 2, 3, 4, 5] (setIsLittleEndian True (ByteArray_new (\<lambda>_. 0) 4)) = Inr ba')"
  using reachable_safe [OF reach_step [OF reach_new [of 4 "\<lambda>_. 0"] step_endian [of _ True]],
      where bs = "[1, 2, 3, 4, 5]"]
  by simp

section \<open>Refinement and round trips\<close>

text \<open>
  C1: a write on the chained blocks is a write on a flat array: it replaces what it meets at the
  position, extends the array when it reaches the end, moves the position behind it and keeps the
  byte order, however it splits over blocks.
\<close>

theorem write_refines_flat_array:
  assumes "ba_inv ba"
  shows "\<exists>ba'. ba_write bs ba = Inr ba' \<and> ba_inv ba' \<and>
    (contents ba', m_position ba') = spec_write bs (contents ba, m_position ba) \<and>
    m_endian ba' = m_endian ba"
  using ba_write_correct [OF assms] by blast

theorem write_refines_flat_array_witness:
  "\<exists>ba'. ba_write [1, 2, 3, 4, 5] (ByteArray_new (\<lambda>_. 0) 2) = Inr ba' \<and>
     contents ba' = [1, 2, 3, 4, 5] \<and> m_position ba' = 5"
  using write_refines_flat_array [OF ba_inv_new, of 2 "[1, 2, 3, 4, 5]" "\<lambda>_. 0"]
  by (auto simp: spec_write_def)



text \<open>
  The ZigZag coding of a signed 32-bit or 64-bit integer is \<open>2 n\<close> for \<open>n >= 0\<close> and \<open>- 2 n - 1\<close>
  for \<open>n < 0\<close>, so that small magnitudes get small codes, and decoding inverts it.
\<close>

lemma zigzag_coding:
  "uint (EncodeZigzag32 v) = (if 0 \<le> sint v then 2 * sint v else - 2 * sint v - 1) \<and>
   uint (EncodeZigzag64 w) = (if 0 \<le> sint w then 2 * sint w else - 2 * sint w - 1) \<and>
   DecodeZigzag32 (EncodeZigzag32 v) = v \<and> DecodeZigzag64 (EncodeZigzag64 w) = w"
  using uint_zigzag [of v] uint_zigzag [of w]
  unfolding EncodeZigzag32_def [symmetric] EncodeZigzag64_def [symmetric]
  by (simp add: DecodeZigzag32_Encode DecodeZigzag64_Encode)

text \<open>
  C28: the base-128 coding of an unsigned integer is the shortest one: \<open>k\<close> bytes exactly when the
  value is below \<open>128 ^ k\<close> and, unless \<open>k = 1\<close>, not below \<open>128 ^ (k - 1)\<close>; so it fits the arrays of 5
  and 10 bytes it is built in.
\<close>

theorem varint_shortest:
  "unat v < 128 ^ length (varint32 v) \<and> (length (varint32 v) = 1 \<or> 128 ^ (length (varint32 v) - 1) \<le> unat v) \<and>
   length (varint32 v) \<le> 5 \<and>
   unat w < 128 ^ length (varint64 w) \<and> (length (varint64 w) = 1 \<or> 128 ^ (length (varint64 w) - 1) \<le> unat w) \<and>
   length (varint64 w) \<le> 10"
  using varint_ref_length [of "unat v"] varint_ref_length [of "unat w"] length_varint32 length_varint64
  by (auto simp: varint32_ref varint64_ref not_less [symmetric])

section \<open>Wire format and interfaces to the outside\<close>

lemma read_loop_length: "read_loop npos ncap n ba = Inr (bs, ba') \<Longrightarrow> length bs = n"
proof (induction npos ncap n ba arbitrary: bs ba' rule: read_loop.induct)
  case (1 npos ncap n ba)
  show ?case
  proof (cases "n = 0 \<or> n \<le> ncap")
    case True
    with "1.prems" show ?thesis
      by (auto simp: read_loop.simps [of _ _ n] dag_bind node_load_def Let_def split: if_splits option.splits)
  next
    case False
    with "1.prems" obtain c as sz bs' where c: "m_cur ba = Some c" "node_load c npos ncap ba = Inr as"
      "node_size ba (node_next ba c) = Inr sz" "bs = as @ bs'"
      "read_loop 0 sz (n - ncap) (ba\<lparr>m_position := m_position ba + ncap, m_cur := node_next ba c\<rparr>) = Inr (bs', ba')"
      by (cases "m_cur ba") (auto simp: read_loop.simps [of _ ncap n] dag_bind Let_def)
    then have "length bs' = n - ncap" using "1.IH" [OF _ c(1) _ c(2) refl _ ] False by simp
    with c(2,4) False show ?thesis by (auto simp: node_load_def split: if_splits)
  qed
qed

lemma read_XX_host: "read_XX host ba = (read_XX host' ba :: ('a::len word \<times> ByteArray) res)"
proof (cases "ba_read (LENGTH('a) div 8) ba")
  case (Inr p)
  obtain bs ba' where p: "p = (bs, ba')" by fastforce
  then have "length bs = LENGTH('a) div 8" using Inr
    by (auto simp: ba_read_def dag_bind Let_def split: if_splits dest: read_loop_length)
  then show ?thesis
    using of_bytes_in_swapped [of bs "m_endian ba'" host, where 'a = 'a]
      of_bytes_in_swapped [of bs "m_endian ba'" host', where 'a = 'a]
    by (simp add: read_XX_def Inr p Let_def)
qed (simp add: read_XX_def)

text \<open>
  C29: what the fixed-width accessors put on the wire does not depend on the host: the bytes are
  those of the value in the byte order of the array, most or least significant first, and the
  reader of either kind of host recovers the value from them.
\<close>

theorem wire_format_host_independent:
  "writeFuint16 host v16 ba = ba_write (bytes_in (m_endian ba) v16) ba \<and>
   writeFuint32 host v32 ba = ba_write (bytes_in (m_endian ba) v32) ba \<and>
   writeFuint64 host v64 ba = ba_write (bytes_in (m_endian ba) v64) ba \<and>
   readFuint16 host ba = readFuint16 host' ba \<and> readFuint32 host ba = readFuint32 host' ba \<and>
   readFuint64 host ba = readFuint64 host' ba"
  by (simp add: writeFuint16_def writeFuint32_def writeFuint64_def Let_def write_swapped
      readFuint16_def readFuint32_def readFuint64_def read_XX_host [of host _ host'])

text \<open>
  The buffers of \<open>getReadBuffers\<close> are the unread bytes, at most \<open>len\<close> of them, in order; the
  function returns how many there are and leaves the array as it is.
\<close>

lemma read_buffers_cover_unread:
  assumes "ba_inv ba"
  shows "\<exists>iovs. getReadBuffers len ba = Inr (min len (m_size ba - m_position ba), iovs) \<and>
    iov_gather iovs ba = Inr (take len (drop (m_position ba) (contents ba)))"
  using assms by (rule getReadBuffers_correct)

lemma read_buffers_cover_unread_witness:
  "\<exists>iovs. getReadBuffers 7 (ByteArray_new (\<lambda>_. 0) 2) = Inr (0, iovs)"
  using read_buffers_cover_unread [OF ba_inv_new [of 2 "\<lambda>_. 0"], of 7]
  by (auto simp: ByteArray_new_def)

text \<open>
  C24: receiving any bytes, no more than asked for, through the buffers of \<open>getWriteBuffers\<close> and then
  advancing the position by their number is a write of those bytes.
\<close>

theorem scatter_is_write:
  assumes "ba_inv ba" "length bs \<le> n"
  shows "\<exists>iovs ba1 ba2 ba3 ba'. getWriteBuffers n ba = Inr (n, iovs, ba1) \<and>
    iov_scatter iovs bs ba1 = Inr ba2 \<and> setPosition (m_position ba + length bs) ba2 = Inr ba3 \<and>
    ba_inv ba3 \<and> ba_write bs ba = Inr ba' \<and> contents ba3 = contents ba' \<and> m_position ba3 = m_position ba'"
proof -
  obtain ba' where "ba_write bs ba = Inr ba'"
    "(contents ba', m_position ba') = spec_write bs (contents ba, m_position ba)"
    using ba_write_correct [OF assms(1)] by blast
  with getWriteBuffers_correct [OF assms] show ?thesis by (metis Pair_inject)
qed

theorem scatter_is_write_witness:
  "\<exists>iovs ba1 ba2 ba3. getWriteBuffers 5 (ByteArray_new (\<lambda>_. 0) 2) = Inr (5, iovs, ba1) \<and>
     iov_scatter iovs [7, 8, 9] ba1 = Inr ba2 \<and> setPosition (0 + length [7, 8, 9 :: byte]) ba2 = Inr ba3"
proof -
  have "length [7, 8, 9 :: byte] \<le> 5" "0 < (2 :: nat)" by simp_all
  from scatter_is_write [OF ba_inv_new [OF this(2), of "\<lambda>_. 0"] this(1)] show ?thesis
    unfolding contents_new by blast
qed

text \<open>
  C30: a file written from one array and read into another one, whatever their block sizes, appends
  at the position of the second exactly the unread bytes of the first; the reading loop ends.
\<close>

theorem file_roundtrip:
  assumes "ba_inv src" "ba_inv dst"
  shows "\<exists>fs' ba'. writeToFile True name src fs = Inr (True, fs') \<and>
    readFromFile True name fs' dst = Some (Inr (True, ba')) \<and> ba_inv ba' \<and>
    (contents ba', m_position ba') =
      spec_write (drop (m_position src) (contents src)) (contents dst, m_position dst)"
  using writeToFile_correct [OF assms(1), of name fs]
    readFromFile_loop_correct [OF assms(2), of "drop (m_position src) (contents src)"]
  by (auto simp: readFromFile_def)

theorem file_roundtrip_witness:
  "\<exists>fs' ba'. writeToFile True ''a'' (ByteArray_new (\<lambda>_. 0) 2) Map.empty = Inr (True, fs') \<and>
     readFromFile True ''a'' fs' (ByteArray_new (\<lambda>_. 1) 3) = Some (Inr (True, ba')) \<and> contents ba' = []"
  using file_roundtrip [OF ba_inv_new [of 2 "\<lambda>_. 0"] ba_inv_new [of 3 "\<lambda>_. 1"], of "''a''" Map.empty]
  by (auto simp: spec_write_def)

text \<open>
  The hexadecimal dump shows the unread bytes: two digits and a space for each, a line break
  before every 32nd, so that the bytes can be read back from it.
\<close>

lemma hex_dump_readable:
  assumes "ba_inv ba"
  shows "\<exists>s. toHexString ba = Inr s \<and>
    read_hex (filter (\<lambda>c. c \<noteq> CHR ''\<newline>'') s) = drop (m_position ba) (contents ba)"
  using toString_correct [OF assms] by (simp add: toHexString_def read_hex_dump)

lemma hex_dump_readable_witness:
  "toHexString (ByteArray_new (\<lambda>_. 0) 1) = Inr [] \<and>
   (\<exists>s. toHexString (ByteArray_new (\<lambda>_. 0) 1) = Inr s \<and> read_hex (filter (\<lambda>c. c \<noteq> CHR ''\<newline>'') s) = [])"
  using hex_dump_readable [OF ba_inv_new [of 1 "\<lambda>_. 0"]]
  by (auto simp: toHexString_def toString_correct ba_inv_new)

text \<open>
  An empty string whose length ends the last block cannot be read back: the read of no bytes
  goes through \<open>m_cur\<close>, which is null at the end of the capacity.
\<close>

lemma empty_string_at_block_end:
  "case rbind (writeStringVint [] (ByteArray_new fresh 1)) (\<lambda>ba.
          rbind (setPosition 0 ba) (\<lambda>ba. readStringVint host ba)) of
     Inl f \<Rightarrow> f = Null_Deref
   | Inr _ \<Rightarrow> False"
proof -
  let ?full = "ByteArray_new fresh 1\<lparr>m_root := [[0]], m_position := 1, m_size := 1, m_cur := None\<rparr>"
  have "writeStringVint [] (ByteArray_new fresh 1) = Inr ?full"
    by (simp add: writeStringVint_def writeUint64_def varint64.simps ba_write_def addCapacity_def
        ByteArray_new_def getCapacity_def node_size_def write_loop.simps [of _ _ "[0]"] node_store_def
        Node_new_def overwrite_def node_next_def Let_def)
  moreover have "setPosition 0 ?full = Inr (?full\<lparr>m_position := 0, m_cur := Some 0\<rparr>)"
    by (simp add: setPosition_def seek_loop.simps [of 0] ByteArray_new_def)
  moreover have "readUint64 host (?full\<lparr>m_position := 0, m_cur := Some 0\<rparr>) = Inr (0, ?full)"
    by (simp add: readUint64_def readUint64_loop.simps [of _ 0] readFuint8_def ba_read_def getReadSize_def
        ByteArray_new_def node_size_def read_loop.simps [of _ _ "Suc 0"] node_load_def node_next_def single_byte)
  ultimately show ?thesis
    by (simp add: readStringVint_def ba_read_def ByteArray_new_def node_size_def)
qed

end
