(* ===== verification/Address.thy ===== *)
theory Address
  imports Endian
begin

text \<open>
  Network addresses, \<open>dag/address.cpp\<close>: IPv4 and unknown addresses with their object
  representations, the arithmetic on prefixes, the comparison operators, the splitting of a host
  string and the enumeration of interfaces. The resolver (\<open>getaddrinfo\<close>), \<open>inet_pton\<close> and
  \<open>getifaddrs\<close> are library functions outside the sources: they are parameters. A pointer that may
  be null is an option.
\<close>

section \<open>Data\<close>

text \<open>
  The structures of the socket interface. The port and address fields hold network order as the
  host reads it.
\<close>

record sockaddr_in =
  sin_family :: u16
  sin_port :: u16
  s_addr :: u32
  sin_zero :: "byte list"

record sockaddr =
  sa_family :: u16
  sa_data :: "byte list"

datatype Address = IPv4Address sockaddr_in | UnknownAddress sockaddr

definition AF_UNSPEC :: u16 where "AF_UNSPEC = 0"
definition AF_INET :: u16 where "AF_INET = 2"

definition sockaddr_bytes :: "byte_order \<Rightarrow> sockaddr \<Rightarrow> byte list" where
  "sockaddr_bytes host a = bytes_in host (sa_family a) @ sa_data a"

definition sockaddr_in_bytes :: "byte_order \<Rightarrow> sockaddr_in \<Rightarrow> byte list" where
  "sockaddr_in_bytes host a =
     bytes_in host (sin_family a) @ bytes_in host (sin_port a) @ bytes_in host (s_addr a) @ sin_zero a"

text \<open>The cast \<open>*(const sockaddr_in*)addr\<close>.\<close>

definition as_sockaddr_in :: "byte_order \<Rightarrow> sockaddr \<Rightarrow> sockaddr_in" where
  "as_sockaddr_in host a =
     \<lparr>sin_family = sa_family a, sin_port = of_bytes_in host (take 2 (sa_data a)),
      s_addr = of_bytes_in host (take 4 (drop 2 (sa_data a))), sin_zero = drop 6 (sa_data a)\<rparr>"

section \<open>Masks\<close>

text \<open>
  \<open>1 << (sizeof(T) * 8 - bits)\<close> shifts an \<open>int\<close>: a count of 32 or more is undefined. For a prefix of
  1 the subtraction leaves the range of \<open>int\<close>; it is taken to wrap around.
\<close>

definition CreateMask :: "u32 \<Rightarrow> u32 res" where
  "CreateMask bits =
     (if usub64 32 (unat bits) < 32 then Inr (push_bit (usub64 32 (unat bits)) 1 - 1)
      else Inl Bad_Shift)"

lemma and_minus_one_less: "(v :: 'a::len word) \<noteq> 0 \<Longrightarrow> v AND (v - 1) < v"
proof -
  assume v: "v \<noteq> 0"
  have "v AND (v - 1) \<le> v - 1" by (rule word_and_le1)
  also have "\<dots> < v" using v by (simp add: word_less_nat_alt unat_gt_0 unat_minus_one)
  finally show ?thesis .
qed

function CountBytes_loop :: "'a::len word \<Rightarrow> u32 \<Rightarrow> u32" where
  "CountBytes_loop v result =
     (if v \<noteq> 0 then CountBytes_loop (v AND (v - 1)) (result + 1) else result)"
  by pat_completeness auto
termination
  by (relation "measure (\<lambda>(v, result). unat v)")
    (auto dest: and_minus_one_less simp: word_less_nat_alt)

declare CountBytes_loop.simps [simp del]

definition CountBytes :: "'a::len word \<Rightarrow> u32" where
  "CountBytes v = CountBytes_loop v 0"

section \<open>Addresses\<close>

definition IPv4Address_new :: "byte_order \<Rightarrow> u32 \<Rightarrow> u16 \<Rightarrow> sockaddr_in" where
  "IPv4Address_new host address port =
     \<lparr>sin_family = AF_INET, sin_port = byteswapOnLittleEndian host port,
      s_addr = byteswapOnLittleEndian host address, sin_zero = replicate 8 0\<rparr>"

definition UnknownAddress_new :: "u16 \<Rightarrow> sockaddr" where
  "UnknownAddress_new family = \<lparr>sa_family = family, sa_data = replicate 14 0\<rparr>"

fun getAddr :: "byte_order \<Rightarrow> Address \<Rightarrow> byte list" where
  "getAddr host (IPv4Address a) = sockaddr_in_bytes host a"
| "getAddr host (UnknownAddress a) = sockaddr_bytes host a"

definition getAddrLen :: "byte_order \<Rightarrow> Address \<Rightarrow> nat" where
  "getAddrLen host a = length (getAddr host a)"

fun getFamily :: "Address \<Rightarrow> u16" where
  "getFamily (IPv4Address a) = sin_family a"
| "getFamily (UnknownAddress a) = sa_family a"

definition Address_Create :: "byte_order \<Rightarrow> sockaddr option \<Rightarrow> Address option" where
  "Address_Create host addr =
     (case addr of
        None \<Rightarrow> None
      | Some a \<Rightarrow> Some (if sa_family a = AF_INET then IPv4Address (as_sockaddr_in host a)
                        else UnknownAddress a))"

definition getPort :: "byte_order \<Rightarrow> sockaddr_in \<Rightarrow> u32" where
  "getPort host a = ucast (byteswapOnLittleEndian host (sin_port a))"

definition setPort :: "byte_order \<Rightarrow> u16 \<Rightarrow> sockaddr_in \<Rightarrow> sockaddr_in" where
  "setPort host v a = a\<lparr>sin_port := byteswapOnLittleEndian host v\<rparr>"

text \<open>\<open>inet_pton\<close> is a parameter: the stored address, or nothing when it returns 0 or less.\<close>

definition IPv4Address_Create ::
  "byte_order \<Rightarrow> (string \<Rightarrow> u32 option) \<Rightarrow> string \<Rightarrow> u16 \<Rightarrow> sockaddr_in option" where
  "IPv4Address_Create host inet_pton address port =
     (let rt = (IPv4Address_new host 0 0)\<lparr>sin_port := byteswapOnLittleEndian host port\<rparr>
      in map_option (\<lambda>a. rt\<lparr>s_addr := a\<rparr>) (inet_pton address))"

definition IPAddress_Create ::
  "byte_order \<Rightarrow> (string \<Rightarrow> sockaddr option list option) \<Rightarrow> string \<Rightarrow> u16 \<Rightarrow> sockaddr_in option res" where
  "IPAddress_Create host getaddrinfo address port =
     (case getaddrinfo address of
        None \<Rightarrow> Inr None
      | Some [] \<Rightarrow> Inl Null_Deref
      | Some (r # _) \<Rightarrow>
          Inr (case Address_Create host r of
                 Some (IPv4Address a) \<Rightarrow> Some (setPort host port a)
               | _ \<Rightarrow> None))"

fun insert_os :: "byte_order \<Rightarrow> Address \<Rightarrow> string" where
  "insert_os host (IPv4Address a) =
     (let addr = byteswapOnLittleEndian host (s_addr a) in
      dec (unat (drop_bit 24 addr AND 0xff)) @ ''.'' @ dec (unat (drop_bit 16 addr AND 0xff)) @ ''.'' @
      dec (unat (drop_bit 8 addr AND 0xff)) @ ''.'' @ dec (unat (addr AND 0xff)) @
      '':'' @ dec (unat (byteswapOnLittleEndian host (sin_port a))))"
| "insert_os host (UnknownAddress a) = ''[UnknownAddress family='' @ dec (unat (sa_family a)) @ '']''"

definition Address_toString :: "byte_order \<Rightarrow> Address \<Rightarrow> string" where
  "Address_toString host a = insert_os host a"

definition broadcastAddress :: "byte_order \<Rightarrow> u32 \<Rightarrow> sockaddr_in \<Rightarrow> sockaddr_in option res" where
  "broadcastAddress host prefix_len a =
     (if prefix_len > 32 then Inr None
      else rmap (\<lambda>m. Some (a\<lparr>s_addr := s_addr a OR byteswapOnLittleEndian host m\<rparr>)) (CreateMask prefix_len))"

definition networdAddress :: "byte_order \<Rightarrow> u32 \<Rightarrow> sockaddr_in \<Rightarrow> sockaddr_in option res" where
  "networdAddress host prefix_len a =
     (if prefix_len > 32 then Inr None
      else rmap (\<lambda>m. Some (a\<lparr>s_addr := s_addr a AND byteswapOnLittleEndian host m\<rparr>)) (CreateMask prefix_len))"

definition subnetMask :: "byte_order \<Rightarrow> u32 \<Rightarrow> sockaddr_in res" where
  "subnetMask host prefix_len =
     rmap (\<lambda>m. \<lparr>sin_family = AF_INET, sin_port = 0, s_addr = NOT (byteswapOnLittleEndian host m),
                sin_zero = replicate 8 0\<rparr>) (CreateMask prefix_len)"

section \<open>Comparison\<close>

text \<open>The sign of \<open>memcmp\<close> on two areas of the same length.\<close>

fun memcmp :: "byte list \<Rightarrow> byte list \<Rightarrow> int" where
  "memcmp (a # as) (b # bs) = (if a < b then - 1 else if b < a then 1 else memcmp as bs)"
| "memcmp _ _ = 0"

definition Address_less :: "byte_order \<Rightarrow> Address \<Rightarrow> Address \<Rightarrow> bool" where
  "Address_less host a b =
     (let minlen = min (getAddrLen host a) (getAddrLen host b);
          result = memcmp (take minlen (getAddr host a)) (take minlen (getAddr host b))
      in if result < 0 then True
         else if result > 0 then False
         else getAddrLen host a < getAddrLen host b)"

definition Address_eq :: "byte_order \<Rightarrow> Address \<Rightarrow> Address \<Rightarrow> bool" where
  "Address_eq host a b \<longleftrightarrow> getAddrLen host a = getAddrLen host b \<and>
     memcmp (getAddr host a) (getAddr host b) = 0"

definition Address_neq :: "byte_order \<Rightarrow> Address \<Rightarrow> Address \<Rightarrow> bool" where
  "Address_neq host a b \<longleftrightarrow> \<not> Address_eq host a b"

section \<open>Name lookup\<close>

text \<open>\<open>memchr\<close>: the index of the first occurrence.\<close>

fun memchr :: "char \<Rightarrow> string \<Rightarrow> nat option" where
  "memchr c [] = None"
| "memchr c (x # xs) = (if x = c then Some 0 else map_option Suc (memchr c xs))"

text \<open>The node and the service that \<open>Lookup\<close> passes to the resolver.\<close>

definition split_ipv6 :: "string \<Rightarrow> string \<times> string option" where
  "split_ipv6 h =
     (if h \<noteq> [] \<and> h ! 0 = CHR ''['' then
        (case memchr (CHR '']'') (drop 1 h) of
           None \<Rightarrow> ([], None)
         | Some e \<Rightarrow>
             (take e (drop 1 h),
              if take 1 (drop (e + 2) h) = '':'' then Some (drop (e + 3) h) else None))
      else ([], None))"

definition split_host :: "string \<Rightarrow> string \<times> string option" where
  "split_host h =
     (let (node, service) = split_ipv6 h;
          (node, service) =
            (if node = [] then
               (case memchr (CHR '':'') h of
                  None \<Rightarrow> (node, None)
                | Some k \<Rightarrow> if memchr (CHR '':'') (drop (k + 1) h) = None
                            then (take k h, Some (drop (k + 1) h))
                            else (node, Some (drop k h)))
             else (node, service))
      in (if node = [] then h else node, service))"

type_synonym resolver = "string \<Rightarrow> string option \<Rightarrow> u16 \<Rightarrow> int \<Rightarrow> int \<Rightarrow> sockaddr option list option"

definition Lookup ::
  "byte_order \<Rightarrow> resolver \<Rightarrow> Address option list \<Rightarrow> string \<Rightarrow> u16 \<Rightarrow> int \<Rightarrow> int \<Rightarrow> bool \<times> Address option list" where
  "Lookup host getaddrinfo result h family type protocol =
     (case split_host h of (node, service) \<Rightarrow>
        case getaddrinfo node service family type protocol of
          None \<Rightarrow> (False, result)
        | Some results \<Rightarrow>
            let result' = result @ map (Address_Create host) results in (result' \<noteq> [], result'))"

definition LookupAny ::
  "byte_order \<Rightarrow> resolver \<Rightarrow> string \<Rightarrow> u16 \<Rightarrow> int \<Rightarrow> int \<Rightarrow> Address option" where
  "LookupAny host gai h family type protocol =
     (case Lookup host gai [] h family type protocol of (ok, result) \<Rightarrow> if ok then hd result else None)"

definition LookupAnyIPAddress ::
  "byte_order \<Rightarrow> resolver \<Rightarrow> string \<Rightarrow> u16 \<Rightarrow> int \<Rightarrow> int \<Rightarrow> sockaddr_in option" where
  "LookupAnyIPAddress host gai h family type protocol =
     (case Lookup host gai [] h family type protocol of (ok, result) \<Rightarrow>
        if ok then
          (case find (\<lambda>a. case a of Some (IPv4Address _) \<Rightarrow> True | _ \<Rightarrow> False) result of
             Some (Some (IPv4Address a)) \<Rightarrow> Some a | _ \<Rightarrow> None)
        else None)"

section \<open>Interfaces\<close>

record ifaddrs =
  ifa_name :: string
  ifa_addr :: "sockaddr option"
  ifa_netmask :: "sockaddr option"

text \<open>
  The multimap is the list of its entries in the order of insertion; only \<open>equal_range\<close> reads it.
\<close>

definition interface_entry ::
  "byte_order \<Rightarrow> u16 \<Rightarrow> ifaddrs \<Rightarrow> (string \<times> Address \<times> u32) list res" where
  "interface_entry host family nxt =
     (case ifa_addr nxt of
        None \<Rightarrow> Inl Null_Deref
      | Some addr \<Rightarrow>
          if family \<noteq> AF_UNSPEC \<and> family \<noteq> sa_family addr then Inr []
          else if sa_family addr = AF_INET then
            (case ifa_netmask nxt of
               None \<Rightarrow> Inl Null_Deref
             | Some netmask \<Rightarrow>
                 let prefix_len = CountBytes (s_addr (as_sockaddr_in host netmask))
                 in Inr [(ifa_name nxt, IPv4Address (as_sockaddr_in host addr), prefix_len)])
          else Inr [])"

definition GetInterfaceAddresses ::
  "byte_order \<Rightarrow> ifaddrs list option \<Rightarrow> (string \<times> Address \<times> u32) list \<Rightarrow> u16
     \<Rightarrow> (bool \<times> (string \<times> Address \<times> u32) list) res" where
  "GetInterfaceAddresses host getifaddrs result family =
     (case getifaddrs of
        None \<Rightarrow> Inr (False, result)
      | Some results \<Rightarrow>
          rmap (\<lambda>result'. (result' \<noteq> [], result'))
            (rfold (\<lambda>nxt acc. rmap (\<lambda>e. acc @ e) (interface_entry host family nxt)) results result))"

definition GetInterfaceAddresses_of ::
  "byte_order \<Rightarrow> ifaddrs list option \<Rightarrow> (Address \<times> u32) list \<Rightarrow> string \<Rightarrow> u16
     \<Rightarrow> (bool \<times> (Address \<times> u32) list) res" where
  "GetInterfaceAddresses_of host getifaddrs result iface family =
     (if iface = [] \<or> iface = ''*'' then
        Inr (True, if family = AF_INET \<or> family = AF_UNSPEC
                   then result @ [(IPv4Address (IPv4Address_new host 0 0), 0)] else result)
      else rmap (\<lambda>(ok, results).
             if \<not> ok then (False, result)
             else let result' = result @ map snd (filter (\<lambda>e. fst e = iface) results)
                  in (result' \<noteq> [], result'))
           (GetInterfaceAddresses host getifaddrs [] family))"

section \<open>Prefixes\<close>

text \<open>The address and the mask of a prefix in host order.\<close>

definition host_order :: "byte_order \<Rightarrow> sockaddr_in \<Rightarrow> u32" where
  "host_order host a = byteswapOnLittleEndian host (s_addr a)"

lemma dvd_32 [simp]: "8 dvd LENGTH(32)" "8 dvd LENGTH(16)"
  by simp_all

lemma byteswapOnLittleEndian_bitwise:
  fixes v w :: "'a::len word"
  assumes "8 dvd LENGTH('a)"
  shows "byteswapOnLittleEndian host (v AND w) = byteswapOnLittleEndian host v AND byteswapOnLittleEndian host w"
    and "byteswapOnLittleEndian host (v OR w) = byteswapOnLittleEndian host v OR byteswapOnLittleEndian host w"
    and "byteswapOnLittleEndian host (NOT v) = NOT (byteswapOnLittleEndian host v)"
  using byteswap_bitwise [OF assms] by (simp_all add: byteswapOnLittleEndian_def)

lemma CreateMask_correct:
  assumes "0 < n" "n \<le> 32"
  shows "CreateMask n = Inr (mask (32 - unat n))"
proof -
  have "0 < unat n" "unat n \<le> 32" using assms by (simp_all add: word_less_nat_alt word_le_nat_alt)
  then show ?thesis by (simp add: CreateMask_def usub64_def mask_eq_exp_minus_1 push_bit_eq_mult)
qed

lemma CreateMask_undefined: "n = 0 \<or> 32 < n \<Longrightarrow> CreateMask n = Inl Bad_Shift"
  using unat_bound [of n] by (auto simp: CreateMask_def usub64_def word_less_nat_alt)

text \<open>
  For a prefix length \<open>n\<close> from 1 to 32, on either kind of host, the broadcast address has the
  first \<open>n\<close> bits of the address and ones behind them, the subnet mask has ones in the first \<open>n\<close> bits
  and zeros behind them. \<open>networdAddress\<close> keeps the bits behind the prefix and clears the prefix, so
  it yields the number of the host, not the network. Everything else of the address is kept.
\<close>

lemma prefix_addresses:
  assumes "0 < n" "n \<le> 32"
  shows "\<exists>b w m. broadcastAddress host n a = Inr (Some b) \<and> networdAddress host n a = Inr (Some w) \<and>
    subnetMask host n = Inr m \<and> sin_port b = sin_port a \<and> sin_port w = sin_port a \<and>
    host_order host b = host_order host a OR mask (32 - unat n) \<and>
    host_order host w = host_order host a AND mask (32 - unat n) \<and>
    host_order host m = NOT (mask (32 - unat n))"
  using assms
  by (simp add: broadcastAddress_def networdAddress_def subnetMask_def CreateMask_correct host_order_def
      byteswapOnLittleEndian_bitwise not_less)

lemma prefix_addresses_witness:
  "\<exists>b w m. broadcastAddress DAG_LITTLE_ENDIAN 24 (IPv4Address_new DAG_LITTLE_ENDIAN 0xC0A80117 80) = Inr (Some b) \<and>
     networdAddress DAG_LITTLE_ENDIAN 24 (IPv4Address_new DAG_LITTLE_ENDIAN 0xC0A80117 80) = Inr (Some w) \<and>
     subnetMask DAG_LITTLE_ENDIAN 24 = Inr m \<and> host_order DAG_LITTLE_ENDIAN b = 0xC0A801FF \<and>
     host_order DAG_LITTLE_ENDIAN w = 0x17 \<and> host_order DAG_LITTLE_ENDIAN m = 0xFFFFFF00"
proof -
  let ?a = "IPv4Address_new DAG_LITTLE_ENDIAN 0xC0A80117 80"
  have a: "host_order DAG_LITTLE_ENDIAN ?a = 0xC0A80117"
    by (simp add: host_order_def IPv4Address_new_def)
  have m: "mask (32 - unat (24 :: u32)) = (0xFF :: u32)" by (simp add: mask_eq_exp_minus_1)
  have "(0xC0A80117 :: u32) OR 0xFF = 0xC0A801FF" "(0xC0A80117 :: u32) AND 0xFF = 0x17"
    "NOT (0xFF :: u32) = 0xFFFFFF00" by simp_all
  with prefix_addresses [of 24 DAG_LITTLE_ENDIAN ?a] show ?thesis unfolding a m by auto
qed

section \<open>The order of addresses\<close>

lemma memcmp_lexordp:
  "(let m = min (length as) (length bs); r = memcmp (take m as) (take m bs)
    in if r < 0 then True else if r > 0 then False else length as < length bs) \<longleftrightarrow>
   ord_class.lexordp as bs"
proof (induction as arbitrary: bs)
  case Nil
  then show ?case by (cases bs) simp_all
next
  case (Cons a as)
  show ?case
  proof (cases bs)
    case (Cons b bs')
    with Cons.IH [of bs'] show ?thesis by (auto simp: Let_def)
  qed simp
qed

lemma memcmp_eq: "length as = length bs \<Longrightarrow> memcmp as bs = 0 \<longleftrightarrow> as = bs"
  by (induction as bs rule: memcmp.induct) (auto split: if_splits)

lemma Address_less_lexordp: "Address_less host a b \<longleftrightarrow> ord_class.lexordp (getAddr host a) (getAddr host b)"
  unfolding Address_less_def getAddrLen_def by (rule memcmp_lexordp)

lemma Address_eq_iff: "Address_eq host a b \<longleftrightarrow> getAddr host a = getAddr host b"
  by (auto simp: Address_eq_def getAddrLen_def memcmp_eq)

text \<open>
  C32: \<open>operator<\<close> is a strict total order on the object representations and \<open>operator==\<close> its
  equivalence: irreflexive, transitive, and of two addresses exactly one is less or they are equal.
  So addresses are usable as keys of ordered containers.
\<close>

theorem address_order:
  "irreflp (Address_less host) \<and> transp (Address_less host) \<and> equivp (Address_eq host) \<and>
   (Address_eq host a b \<longleftrightarrow> \<not> Address_less host a b \<and> \<not> Address_less host b a) \<and>
   (Address_neq host a b \<longleftrightarrow> Address_less host a b \<or> Address_less host b a)"
proof -
  have "irreflp (Address_less host)"
    by (simp add: irreflp_def Address_less_lexordp lexordp_irreflexive')
  moreover have "transp (Address_less host)"
    unfolding transp_def Address_less_lexordp by (metis lexordp_trans)
  moreover have "equivp (Address_eq host)"
    by (rule equivpI) (auto simp: reflp_def symp_def transp_def Address_eq_iff)
  moreover have "Address_eq host a b \<longleftrightarrow> \<not> Address_less host a b \<and> \<not> Address_less host b a"
    unfolding Address_less_lexordp Address_eq_iff by (metis lexordp_irreflexive' lexordp_linear)
  ultimately show ?thesis by (auto simp: Address_neq_def)
qed

section \<open>Prefix lengths of netmasks\<close>

definition pop :: "nat \<Rightarrow> nat" where
  "pop n = card {i. bit n i}"

lemma finite_bits [simp]: "finite {i. bit (n :: nat) i}"
proof (rule finite_subset)
  show "{i. bit n i} \<subseteq> {..<Suc n}"
    by (auto simp: bit_iff_odd less_Suc_eq_le) (metis div_less even_zero leI less_exp less_trans)
qed simp

lemma pop_0 [simp]: "pop 0 = 0"
  by (simp add: pop_def)

lemma pop_double: "pop (2 * n) = pop n" "pop (Suc (2 * n)) = Suc (pop n)"
proof -
  have b: "bit (2 * n) i = (\<exists>j. i = Suc j \<and> bit n j)" "bit (Suc (2 * n)) i = (i = 0 \<or> (\<exists>j. i = Suc j \<and> bit n j))" for i
    by (cases i; simp add: bit_Suc bit_0)+
  then have "{i. bit (2 * n) i} = Suc ` {i. bit n i}"
    "{i. bit (Suc (2 * n)) i} = insert 0 (Suc ` {i. bit n i})" by auto
  then show "pop (2 * n) = pop n" "pop (Suc (2 * n)) = Suc (pop n)"
    by (simp_all add: pop_def card_image)
qed

lemma pop_clear_lowest: "0 < n \<Longrightarrow> Suc (pop (n AND (n - 1))) = pop n"
proof (induction n rule: less_induct)
  case (less n)
  show ?case
  proof (cases "even n")
    case True
    then obtain m where m: "n = 2 * m" "0 < m" using less(2) by (auto elim!: evenE)
    then obtain k where "m = Suc k" by (cases m) auto
    then have "n AND (n - 1) = 2 * (m AND (m - 1))" using m by (subst and_rec) simp
    with m less(1) [of m] show ?thesis by (simp add: pop_double)
  next
    case False
    then obtain m where m: "n = Suc (2 * m)" by (auto elim!: oddE)
    then have "n AND (n - 1) = 2 * m" by (subst and_rec) simp
    with m show ?thesis by (simp add: pop_double)
  qed
qed

lemma CountBytes_loop_pop: "CountBytes_loop v result = result + word_of_nat (pop (unat v))"
proof (induction v result rule: CountBytes_loop.induct)
  case (1 v result)
  show ?case
  proof (cases "v = 0")
    case False
    then have "unat (v AND (v - 1)) = unat v AND (unat v - 1)" "0 < unat v"
      by (simp_all add: unsigned_and_eq unat_minus_one unat_gt_0)
    with pop_clear_lowest [of "unat v"] 1 False show ?thesis
      by (subst CountBytes_loop.simps) (simp add: add.assoc [symmetric] flip: of_nat_Suc)
  qed (simp add: CountBytes_loop.simps)
qed

lemma CountBytes_card: "CountBytes v = word_of_nat (card {i. bit v i})"
  by (simp add: CountBytes_def CountBytes_loop_pop pop_def bit_unsigned_iff)

lemma card_byteswap: "card {i. bit (byteswap (w :: u32)) i} = card {i. bit w i}"
proof -
  define sw where "sw = (\<lambda>n :: nat. 8 * (4 - Suc (n div 8)) + n mod 8)"
  have sw: "sw n < 32 \<and> sw (sw n) = n" if "n < 32" for n
    using that unfolding sw_def by auto
  have b: "{i. bit (byteswap w) i} = {i. i < 32 \<and> bit w (sw i)}"
    using bit_byteswap [of _ w] bit_imp_le_length [of "byteswap w"] by (fastforce simp: sw_def)
  have "{i. bit w i} = sw ` {i. bit (byteswap w) i}"
  proof (intro equalityI subsetI)
    fix i assume "i \<in> {i. bit w i}"
    then have "i < 32" "bit w i" using bit_imp_le_length [of w i] by auto
    then show "i \<in> sw ` {i. bit (byteswap w) i}"
      unfolding b using sw [of i] by (intro image_eqI [of _ _ "sw i"]) auto
  qed (auto simp: b)
  moreover have "inj_on sw {i. bit (byteswap w) i}"
    unfolding b using sw by (intro inj_onI) (metis mem_Collect_eq)
  ultimately show ?thesis by (simp add: card_image)
qed

text \<open>
  The prefix length that the enumeration of interfaces computes from a netmask inverts
  \<open>subnetMask\<close>: for the mask of \<open>n\<close> bits it is \<open>n\<close>, on either kind of host.
\<close>

lemma netmask_prefix_length:
  assumes "0 < n" "n \<le> 32"
  shows "\<exists>m. subnetMask host n = Inr m \<and> CountBytes (s_addr m) = n"
proof -
  have n: "unat n \<le> 32" using assms by (simp add: word_le_nat_alt)
  have "{i. bit (NOT (mask (32 - unat n)) :: u32) i} = {32 - unat n..<32}"
    by (auto simp: bit_simps dest: bit_imp_le_length)
  then have "card {i. bit (byteswapOnLittleEndian host (NOT (mask (32 - unat n)) :: u32)) i} = unat n"
    using n by (cases host) (simp_all add: byteswapOnLittleEndian_def card_byteswap)
  then show ?thesis using assms
    by (simp add: subnetMask_def CreateMask_correct CountBytes_card byteswapOnLittleEndian_bitwise [symmetric])
qed

lemma netmask_prefix_length_witness:
  "\<exists>m. subnetMask DAG_LITTLE_ENDIAN 20 = Inr m \<and> CountBytes (s_addr m) = 20"
  by (rule netmask_prefix_length) simp_all

section \<open>Splitting host strings\<close>

lemma memchr_None [simp]: "memchr c xs = None \<longleftrightarrow> c \<notin> set xs"
  by (induction xs) auto

lemma memchr_absent [simp]: "c \<notin> set xs \<Longrightarrow> memchr c xs = None"
  by simp

lemma memchr_append [simp]: "c \<notin> set xs \<Longrightarrow> memchr c (xs @ c # ys) = Some (length xs)"
  by (induction xs) auto

text \<open>
  C33: \<open>Lookup\<close> splits \<open>name\<close>, \<open>name:service\<close>, \<open>[ipv6]\<close> and \<open>[ipv6]:service\<close> into the node and the
  service it passes to the resolver.
\<close>

theorem host_string_split:
  assumes "name \<noteq> []" "CHR '':'' \<notin> set name" "hd name \<noteq> CHR ''[''"
    and "CHR '':'' \<notin> set service" "ipv6 \<noteq> []" "CHR '']'' \<notin> set ipv6"
  shows "split_host name = (name, None) \<and> split_host (name @ '':'' @ service) = (name, Some service) \<and>
    split_host (''['' @ ipv6 @ '']'') = (ipv6, None) \<and>
    split_host (''['' @ ipv6 @ '']:'' @ service) = (ipv6, Some service)"
  using assms by (cases name) (auto simp: split_host_def split_ipv6_def numeral_eq_Suc)

theorem host_string_split_witness:
  "split_host (''www.dag.top'' @ '':'' @ ''80'') = (''www.dag.top'', Some ''80'') \<and>
   split_host (''['' @ ''::1'' @ '']:'' @ ''80'') = (''::1'', Some ''80'')"
  using host_string_split [of "''www.dag.top''" "''80''" "''::1''"] by simp

text \<open>
  A bare IPv6 address, or any other string with several colons outside brackets, is passed whole
  as the node, but the service is not reset: it is the rest of the string from the first colon on.
\<close>

lemma bare_ipv6_service:
  assumes "CHR '':'' \<notin> set pre" "CHR ''['' \<notin> set pre" "CHR '':'' \<in> set rest"
  shows "split_host (pre @ '':'' @ rest) = (pre @ '':'' @ rest, Some ('':'' @ rest))"
  using assms by (cases pre) (auto simp: split_host_def split_ipv6_def)

lemma bare_ipv6_service_witness: "split_host (''fe80'' @ '':'' @ '':1'') = (''fe80::1'', Some ''::1'')"
  using bare_ipv6_service [of "''fe80''" "'':1''"] by simp

end
