(* ===== verification/Thread.thy ===== *)
theory Thread
  imports Dag_Prelude
begin

text \<open>
  Threads and the small synchronisation classes: \<open>Semaphore\<close> and \<open>Thread\<close> of \<open>dag/thread.h\<close> and
  \<open>dag/thread.cpp\<close>, \<open>SpinLock\<close> of \<open>dag/utils/mutex.h\<close> and \<open>Singleton\<close> of \<open>dag/utils/singleton.h\<close>.
  A call that blocks is a step that is not enabled; the creation of a thread is a system of two
  threads, the creator in the constructor and the new one in \<open>Thread::run\<close>, whose steps interleave.
  The name that \<open>pthread_setname_np\<close> gives to the thread in the kernel is not part of the state.
\<close>

section \<open>Semaphore\<close>

record Semaphore =
  sem_count :: int

definition Semaphore_new :: "int \<Rightarrow> Semaphore" where
  "Semaphore_new c = \<lparr>sem_count = c\<rparr>"

text \<open>The predicate that \<open>cv.wait\<close> waits for, and what follows when it holds.\<close>

definition sem_wait :: "Semaphore \<Rightarrow> Semaphore option" where
  "sem_wait s = (if sem_count s = 0 then Some (s\<lparr>sem_count := sem_count s - 1\<rparr>) else None)"

definition sem_signal :: "Semaphore \<Rightarrow> Semaphore" where
  "sem_signal s = s\<lparr>sem_count := sem_count s + 1\<rparr>"

section \<open>Thread\<close>

text \<open>
  The object that the creator and the new thread share, and the thread-local variables of the new
  thread. \<open>m_id\<close> is -1 until the new thread has stored its number.
\<close>

record 'cb Thread =
  m_id :: int
  m_cb :: "'cb option"
  m_name :: string
  m_thread :: bool
  m_semaphore :: Semaphore

datatype creator = Creating | Returned
datatype child = Init | Signalled | Executed

record 'cb thread_system =
  obj :: "'cb Thread"
  creator_at :: creator
  child_at :: child
  child_cb :: "'cb option"
  t_thread_set :: bool
  t_thread_name :: string

definition Thread_new :: "'cb \<Rightarrow> string \<Rightarrow> 'cb thread_system" where
  "Thread_new cb name =
     \<lparr>obj = \<lparr>m_id = - 1, m_cb = Some cb, m_name = name, m_thread = True, m_semaphore = Semaphore_new 0\<rparr>,
      creator_at = Creating, child_at = Init, child_cb = None, t_thread_set = False,
      t_thread_name = ''UNKNOWN''\<rparr>"

text \<open>The constructor throws if \<open>pthread_create\<close> returns an error \<open>rt\<close>; no thread runs then.\<close>

definition Thread_create :: "int \<Rightarrow> 'cb \<Rightarrow> string \<Rightarrow> 'cb thread_system res" where
  "Thread_create rt cb name =
     (if rt \<noteq> 0 then Inl (Logic_Error ''pthread_create error'') else Inr (Thread_new cb name))"

text \<open>The constructor after \<open>pthread_create\<close>: it waits and returns.\<close>

definition creator_step :: "'cb thread_system \<Rightarrow> 'cb thread_system option" where
  "creator_step s =
     (if creator_at s = Creating
      then map_option (\<lambda>sem. s\<lparr>obj := (obj s)\<lparr>m_semaphore := sem\<rparr>, creator_at := Returned\<rparr>)
             (sem_wait (m_semaphore (obj s)))
      else None)"

text \<open>\<open>Thread::run\<close> up to the signal, and the call of the function.\<close>

definition child_init :: "int \<Rightarrow> 'cb thread_system \<Rightarrow> 'cb thread_system option" where
  "child_init tid s =
     (if child_at s = Init
      then Some (s\<lparr>t_thread_set := True, t_thread_name := m_name (obj s), child_cb := m_cb (obj s),
                   obj := (obj s)\<lparr>m_id := tid, m_cb := None, m_semaphore := sem_signal (m_semaphore (obj s))\<rparr>,
                   child_at := Signalled\<rparr>)
      else None)"

definition child_call :: "'cb thread_system \<Rightarrow> 'cb thread_system option" where
  "child_call s = (if child_at s = Signalled then Some (s\<lparr>child_at := Executed\<rparr>) else None)"

definition SetName :: "string \<Rightarrow> 'cb thread_system \<Rightarrow> 'cb thread_system" where
  "SetName name s =
     (let s1 = (if t_thread_set s then s\<lparr>obj := (obj s)\<lparr>m_name := name\<rparr>\<rparr> else s)
      in s1\<lparr>t_thread_name := name\<rparr>)"

text \<open>\<open>join\<close> returns when the thread has finished; it throws if \<open>pthread_join\<close> fails.\<close>

definition Thread_join :: "bool \<Rightarrow> 'cb Thread \<Rightarrow> 'cb Thread res" where
  "Thread_join joined t =
     (if m_thread t then (if joined then Inr (t\<lparr>m_thread := False\<rparr>) else Inl (Logic_Error ''pthread_join error''))
      else Inr t)"

text \<open>The destructor detaches a thread that has not been joined.\<close>

definition Thread_delete :: "'cb Thread \<Rightarrow> bool \<times> 'cb Thread" where
  "Thread_delete t = (m_thread t, t\<lparr>m_thread := False\<rparr>)"

inductive thread_step :: "'cb thread_system \<Rightarrow> 'cb thread_system \<Rightarrow> bool" where
  by_creator: "creator_step s = Some s' \<Longrightarrow> thread_step s s'"
| by_child_init: "child_init tid s = Some s' \<Longrightarrow> thread_step s s'"
| by_child_call: "child_call s = Some s' \<Longrightarrow> thread_step s s'"

inductive_cases thread_step_cases: "thread_step s s'"

inductive thread_steps :: "'cb thread_system \<Rightarrow> 'cb thread_system \<Rightarrow> bool" where
  no_step: "thread_steps s s"
| more_steps: "thread_step s s' \<Longrightarrow> thread_steps s' s'' \<Longrightarrow> thread_steps s s''"

section \<open>SpinLock and Singleton\<close>

text \<open>The flag of the lock; \<open>lock\<close> spins while \<open>test_and_set\<close> finds it set.\<close>

definition test_and_set :: "bool \<Rightarrow> bool \<times> bool" where
  "test_and_set flag = (flag, True)"

definition SpinLock_lock :: "bool \<Rightarrow> bool option" where
  "SpinLock_lock flag = (case test_and_set flag of (old, flag') \<Rightarrow> if old then None else Some flag')"

definition SpinLock_try_lock :: "bool \<Rightarrow> bool \<times> bool" where
  "SpinLock_try_lock flag = (case test_and_set flag of (old, flag') \<Rightarrow> (\<not> old, flag'))"

definition SpinLock_unlock :: "bool \<Rightarrow> bool" where
  "SpinLock_unlock flag = False"

record 'a Singleton =
  inst :: "'a option"
  made :: nat

definition GetInstance :: "(nat \<Rightarrow> 'a) \<Rightarrow> 'a Singleton \<Rightarrow> 'a \<times> 'a Singleton" where
  "GetInstance mk s =
     (case inst s of
        Some x \<Rightarrow> (x, s)
      | None \<Rightarrow> let x = mk (made s) in (x, s\<lparr>inst := Some x, made := Suc (made s)\<rparr>))"

definition DestroyInstance :: "'a Singleton \<Rightarrow> 'a Singleton" where
  "DestroyInstance s = s\<lparr>inst := None\<rparr>"

section \<open>Facts\<close>

text \<open>
  The semaphore counts the wrong way round: waiting is possible only at 0, so it does not wait for a
  signal and cannot pass after one.
\<close>

lemma sem_wait_fresh: "sem_wait (Semaphore_new 0) = Some \<lparr>sem_count = - 1\<rparr>"
  by (simp add: sem_wait_def Semaphore_new_def)

lemma sem_wait_signalled: "sem_wait (sem_signal (Semaphore_new 0)) = None"
  by (simp add: sem_wait_def sem_signal_def Semaphore_new_def)

definition creator_stuck :: "'cb thread_system \<Rightarrow> bool" where
  "creator_stuck s \<longleftrightarrow> creator_at s = Creating \<and> child_at s \<noteq> Init \<and> sem_count (m_semaphore (obj s)) = 1"

lemma creator_stuck_step: "thread_step s s' \<Longrightarrow> creator_stuck s \<Longrightarrow> creator_stuck s'"
  by (erule thread_step_cases)
    (auto simp: creator_stuck_def creator_step_def child_init_def child_call_def sem_wait_def split: if_splits)

lemma creator_stuck_steps: "thread_steps s s' \<Longrightarrow> creator_stuck s \<Longrightarrow> creator_stuck s'"
  by (induction rule: thread_steps.induct) (auto dest: creator_stuck_step)

text \<open>
  C36: when the new thread reaches its signal before the constructor waits, the constructor never
  returns, whatever the two threads do from then on.
\<close>

theorem signal_first_blocks_forever:
  assumes "child_init tid (Thread_new cb name) = Some s" "thread_steps s s'"
  shows "creator_at s' = Creating \<and> creator_step s' = None"
proof -
  have "creator_stuck s" using assms(1)
    by (auto simp: child_init_def Thread_new_def creator_stuck_def sem_signal_def Semaphore_new_def)
  with assms(2) have "creator_stuck s'" by (rule creator_stuck_steps)
  then show ?thesis by (simp add: creator_stuck_def creator_step_def sem_wait_def)
qed

theorem signal_first_blocks_forever_witness:
  "\<exists>s. child_init 42 (Thread_new (7::nat) ''io_0'') = Some s \<and> creator_step s = None"
  using signal_first_blocks_forever [OF _ no_step, where tid = 42 and cb = "7::nat" and name = "''io_0''"]
  by (simp add: child_init_def Thread_new_def)

text \<open>
  When the constructor waits first, it returns at once, before the new thread has stored its
  number: the object then still has number -1 and its callback.
\<close>

lemma wait_first_returns_early:
  "\<exists>s. creator_step (Thread_new cb name) = Some s \<and> creator_at s = Returned \<and> child_at s = Init \<and>
     m_id (obj s) = - 1 \<and> m_cb (obj s) = Some cb"
  by (simp add: creator_step_def Thread_new_def sem_wait_def Semaphore_new_def)

text \<open>A thread is joined or detached, never both, and joining again does nothing.\<close>

lemma join_or_detach:
  assumes "Thread_join joined t = Inr t'"
  shows "Thread_join j t' = Inr t' \<and> \<not> fst (Thread_delete t')"
  using assms by (auto simp: Thread_join_def Thread_delete_def split: if_splits)

lemma spin_lock_exclusive:
  "SpinLock_lock flag = Some flag' \<Longrightarrow> \<not> flag \<and> SpinLock_lock flag' = None \<and>
   SpinLock_lock (SpinLock_unlock flag') \<noteq> None"
  by (auto simp: SpinLock_lock_def SpinLock_unlock_def test_and_set_def split: if_splits)

lemma singleton_stable:
  "GetInstance mk s = (x, s') \<Longrightarrow> GetInstance mk s' = (x, s')"
  by (auto simp: GetInstance_def Let_def split: option.splits)

end
