(* ===== verification/Fiber.thy ===== *)
theory Fiber
  imports Dag_Prelude
begin

text \<open>
  Coroutines, \<open>dag/fiber.cpp\<close>, seen by one thread: the three thread-local pointers, the fibers and the
  flow of control that the processor executes. \<open>swapcontext\<close> stores the flow it leaves in one context
  and continues the flow found in another; a flow is named by the fiber on whose stack it runs, so
  the field \<open>m_ctx\<close> holds the number of a fiber. What a flow does between two calls of this interface
  is up to the program; the operations are the calls it makes. \<open>getcontext\<close>, \<open>makecontext\<close> and
  \<open>swapcontext\<close> are taken to succeed. A failing \<open>assert\<close> is a fault.
\<close>

section \<open>State\<close>

datatype State = READY | RUNNING | TERM_STATE

record 'cb Fiber =
  m_id :: nat
  m_stacksize :: nat
  m_state :: State
  m_ctx :: nat
  m_stack :: bool
  m_cb :: "'cb option"
  m_runInScheduler :: bool

record 'cb fiber_thread =
  t_fiber :: "nat option"
  t_thread_fiber :: "nat option"
  t_scheduler_fiber :: "nat option"
  fibers :: "nat \<rightharpoonup> 'cb Fiber"
  flow :: nat
  s_fiber_id :: nat
  s_fiber_count :: nat

text \<open>The fibers of a thread are numbered by their \<open>m_id\<close>; a new thread has none.\<close>

definition fiber_thread_new :: "nat \<Rightarrow> 'cb fiber_thread" where
  "fiber_thread_new fid =
     \<lparr>t_fiber = None, t_thread_fiber = None, t_scheduler_fiber = None, fibers = Map.empty,
      flow = fid, s_fiber_id = fid, s_fiber_count = 0\<rparr>"

definition fiber_at :: "nat option \<Rightarrow> 'cb fiber_thread \<Rightarrow> 'cb Fiber res" where
  "fiber_at p th =
     (case p of None \<Rightarrow> Inl Null_Deref
      | Some f \<Rightarrow> (case fibers th f of None \<Rightarrow> Inl Out_Of_Bounds | Some x \<Rightarrow> Inr x))"

definition set_fiber :: "nat \<Rightarrow> 'cb Fiber \<Rightarrow> 'cb fiber_thread \<Rightarrow> 'cb fiber_thread" where
  "set_fiber f x th = th\<lparr>fibers := (fibers th)(f \<mapsto> x)\<rparr>"

section \<open>Operations\<close>

definition SetThis :: "nat option \<Rightarrow> 'cb fiber_thread \<Rightarrow> 'cb fiber_thread" where
  "SetThis f th = th\<lparr>t_fiber := f\<rparr>"

definition SetSchedulerFiber :: "nat option \<Rightarrow> 'cb fiber_thread \<Rightarrow> 'cb fiber_thread" where
  "SetSchedulerFiber f th = th\<lparr>t_scheduler_fiber := f\<rparr>"

definition GetFiberId :: "'cb fiber_thread \<Rightarrow> nat" where
  "GetFiberId th = (case t_fiber th of Some f \<Rightarrow> f | None \<Rightarrow> 2 ^ 64 - 1)"

text \<open>
  The private constructor for the fiber of the thread's own flow. It leaves \<open>m_runInScheduler\<close>
  uninitialised: the argument \<open>junk\<close> is whatever is there.
\<close>

definition Fiber_main :: "bool \<Rightarrow> 'cb fiber_thread \<Rightarrow> nat \<times> 'cb fiber_thread" where
  "Fiber_main junk th =
     (let f = s_fiber_id th;
          x = \<lparr>m_id = f, m_stacksize = 0, m_state = RUNNING, m_ctx = flow th, m_stack = False,
               m_cb = None, m_runInScheduler = junk\<rparr>
      in (f, (set_fiber f x (SetThis (Some f) th))
               \<lparr>s_fiber_id := Suc f, s_fiber_count := Suc (s_fiber_count th)\<rparr>))"

definition GetThis :: "bool \<Rightarrow> 'cb fiber_thread \<Rightarrow> (nat \<times> 'cb fiber_thread) res" where
  "GetThis junk th =
     (case t_fiber th of
        Some f \<Rightarrow> Inr (f, th)
      | None \<Rightarrow>
          let (main_fiber, th1) = Fiber_main junk th;
              th2 = th1\<lparr>t_thread_fiber := Some main_fiber, t_scheduler_fiber := Some main_fiber\<rparr>
          in if t_fiber th2 = Some main_fiber then Inr (main_fiber, th2)
             else Inl (Assertion ''t_fiber == main_fiber.get()''))"

definition Fiber_new :: "'cb \<Rightarrow> nat \<Rightarrow> bool \<Rightarrow> 'cb fiber_thread \<Rightarrow> nat \<times> 'cb fiber_thread" where
  "Fiber_new cb stacksize run_in_scheduler th =
     (let f = s_fiber_id th;
          x = \<lparr>m_id = f, m_stacksize = (if stacksize = 0 then 128000 else stacksize), m_state = READY,
               m_ctx = f, m_stack = True, m_cb = Some cb, m_runInScheduler = run_in_scheduler\<rparr>
      in (f, (set_fiber f x th)\<lparr>s_fiber_id := Suc f, s_fiber_count := Suc (s_fiber_count th)\<rparr>))"

definition Fiber_delete :: "nat \<Rightarrow> 'cb fiber_thread \<Rightarrow> 'cb fiber_thread" where
  "Fiber_delete f th = th\<lparr>fibers := (fibers th)(f := None), s_fiber_count := s_fiber_count th - 1\<rparr>"

definition Fiber_reset :: "nat \<Rightarrow> 'cb \<Rightarrow> 'cb fiber_thread \<Rightarrow> 'cb fiber_thread res" where
  "Fiber_reset f cb th =
     rbind (fiber_at (Some f) th) (\<lambda>x.
       if m_stack x \<and> m_state x = TERM_STATE
       then Inr (set_fiber f (x\<lparr>m_state := READY, m_cb := Some cb, m_ctx := f\<rparr>) th)
       else Inl (Assertion ''m_stack != nullptr && m_state == TERM''))"

text \<open>\<open>swapcontext(&from->m_ctx, &to->m_ctx)\<close>.\<close>

definition swapcontext :: "nat option \<Rightarrow> nat option \<Rightarrow> 'cb fiber_thread \<Rightarrow> 'cb fiber_thread res" where
  "swapcontext from to th =
     rbind (fiber_at from th) (\<lambda>x.
       let th1 = set_fiber (the from) (x\<lparr>m_ctx := flow th\<rparr>) th in
       rbind (fiber_at to th1) (\<lambda>y. Inr (th1\<lparr>flow := m_ctx y\<rparr>)))"

definition resume :: "nat \<Rightarrow> 'cb fiber_thread \<Rightarrow> 'cb fiber_thread res" where
  "resume f th =
     rbind (fiber_at (Some f) th) (\<lambda>x.
       if m_state x \<noteq> READY then Inl (Assertion ''m_state==READY'')
       else let th1 = SetThis (Some f) (set_fiber f (x\<lparr>m_state := RUNNING\<rparr>) th)
            in if m_runInScheduler x then swapcontext (t_scheduler_fiber th1) (Some f) th1
               else swapcontext (t_thread_fiber th1) (Some f) th1)"

definition yield :: "nat \<Rightarrow> 'cb fiber_thread \<Rightarrow> 'cb fiber_thread res" where
  "yield f th =
     rbind (fiber_at (Some f) th) (\<lambda>x.
       if m_state x \<noteq> RUNNING \<and> m_state x \<noteq> TERM_STATE
       then Inl (Assertion ''m_state==RUNNING || m_state==TERM'')
       else let x1 = (if m_state x \<noteq> TERM_STATE then x\<lparr>m_state := READY\<rparr> else x);
                th1 = set_fiber f x1 th
            in if m_runInScheduler x
               then let th2 = SetThis (t_scheduler_fiber th1) th1
                    in swapcontext (Some f) (t_scheduler_fiber th2) th2
               else let th2 = SetThis (t_thread_fiber th1) th1
                    in swapcontext (Some f) (t_thread_fiber th2) th2)"

text \<open>What \<open>MainFunc\<close> does when the callback has returned.\<close>

definition MainFunc_end :: "'cb fiber_thread \<Rightarrow> 'cb fiber_thread res" where
  "MainFunc_end th =
     rbind (fiber_at (t_fiber th) th) (\<lambda>x.
       let f = the (t_fiber th);
           th1 = set_fiber f (x\<lparr>m_cb := None, m_state := TERM_STATE\<rparr>) th
       in yield f th1)"

section \<open>Consistency of flows and pointers\<close>

text \<open>The fiber that \<open>resume\<close> leaves and that \<open>yield\<close> returns to.\<close>

definition resumer :: "'cb fiber_thread \<Rightarrow> 'cb Fiber \<Rightarrow> nat option" where
  "resumer th x = (if m_runInScheduler x then t_scheduler_fiber th else t_thread_fiber th)"

text \<open>
  The pointer \<open>t_fiber\<close> names the fiber whose flow runs, every context holds the flow of its own fiber,
  the current fiber is running, the main and the scheduling fiber exist.
\<close>

definition fiber_ok :: "'cb fiber_thread \<Rightarrow> bool" where
  "fiber_ok th \<longleftrightarrow> t_fiber th = Some (flow th) \<and>
     (\<forall>f x. fibers th f = Some x \<longrightarrow> m_ctx x = f \<and> m_id x = f \<and> f < s_fiber_id th) \<and>
     (\<exists>x. fibers th (flow th) = Some x \<and> m_state x = RUNNING) \<and>
     (\<exists>f x. t_thread_fiber th = Some f \<and> fibers th f = Some x) \<and>
     (\<exists>f x. t_scheduler_fiber th = Some f \<and> fibers th f = Some x)"

lemma fiber_at_Some [simp]: "fiber_at (Some f) th = (case fibers th f of None \<Rightarrow> Inl Out_Of_Bounds | Some x \<Rightarrow> Inr x)"
  by (simp add: fiber_at_def)

lemma set_fiber_simps [simp]:
  "t_fiber (set_fiber f x th) = t_fiber th" "t_thread_fiber (set_fiber f x th) = t_thread_fiber th"
  "t_scheduler_fiber (set_fiber f x th) = t_scheduler_fiber th" "flow (set_fiber f x th) = flow th"
  "fibers (set_fiber f x th) = (fibers th)(f \<mapsto> x)" "s_fiber_id (set_fiber f x th) = s_fiber_id th"
  by (simp_all add: set_fiber_def)

lemma SetThis_simps [simp]:
  "t_fiber (SetThis g th) = g" "t_thread_fiber (SetThis g th) = t_thread_fiber th"
  "t_scheduler_fiber (SetThis g th) = t_scheduler_fiber th" "flow (SetThis g th) = flow th"
  "fibers (SetThis g th) = fibers th" "s_fiber_id (SetThis g th) = s_fiber_id th"
  by (simp_all add: SetThis_def)

lemma swapcontext_own:
  assumes "fibers th a = Some x" "fibers th b = Some y" "a \<noteq> b" "m_ctx x = flow th"
  shows "swapcontext (Some a) (Some b) th = Inr ((set_fiber a x th)\<lparr>flow := m_ctx y\<rparr>)"
proof -
  have "x\<lparr>m_ctx := flow th\<rparr> = x" using assms(4) by simp
  then show ?thesis using assms(1-3) by (simp add: swapcontext_def Let_def)
qed

lemma resume_correct:
  assumes ok: "fiber_ok th" and f: "fibers th f = Some x" "m_state x = READY"
    and r: "resumer th x = Some (flow th)"
  shows "\<exists>th'. resume f th = Inr th' \<and> fiber_ok th' \<and> flow th' = f \<and>
    t_thread_fiber th' = t_thread_fiber th \<and> t_scheduler_fiber th' = t_scheduler_fiber th \<and>
    fibers th' = (fibers th)(f \<mapsto> x\<lparr>m_state := RUNNING\<rparr>)"
proof -
  obtain y where y: "fibers th (flow th) = Some y" "m_state y = RUNNING" "m_ctx y = flow th" "m_ctx x = f"
    using ok f by (auto simp: fiber_ok_def)
  then have ne: "flow th \<noteq> f" using f by auto
  let ?th = "SetThis (Some f) (set_fiber f (x\<lparr>m_state := RUNNING\<rparr>) th)"
  have "resume f th = Inr ((set_fiber (flow th) y ?th)\<lparr>flow := f\<rparr>)"
    using f r ne y swapcontext_own [of ?th "flow th" y f "x\<lparr>m_state := RUNNING\<rparr>"]
    by (cases "m_runInScheduler x") (simp_all add: resume_def resumer_def Let_def)
  moreover have "fibers (set_fiber (flow th) y ?th) = (fibers th)(f \<mapsto> x\<lparr>m_state := RUNNING\<rparr>)"
    using y(1) ne by auto
  ultimately show ?thesis using ok f by (auto simp: fiber_ok_def)
qed

lemma yield_correct:
  assumes ok: "fiber_ok th" and f: "fibers th (flow th) = Some x"
    and r: "resumer th x = Some g" "g \<noteq> flow th" "fibers th g = Some y" "m_state y = RUNNING"
  shows "\<exists>th'. yield (flow th) th = Inr th' \<and> fiber_ok th' \<and> flow th' = g \<and>
    t_thread_fiber th' = t_thread_fiber th \<and> t_scheduler_fiber th' = t_scheduler_fiber th \<and>
    fibers th' = (fibers th)(flow th \<mapsto> x\<lparr>m_state := READY\<rparr>)"
proof -
  have x: "m_state x = RUNNING" "m_ctx x = flow th" and y: "m_ctx y = g"
    using ok f r(3) by (auto simp: fiber_ok_def)
  let ?x = "x\<lparr>m_state := READY\<rparr>"
  let ?th = "SetThis (Some g) (set_fiber (flow th) ?x th)"
  have "yield (flow th) th = Inr ((set_fiber (flow th) ?x ?th)\<lparr>flow := g\<rparr>)"
    using f r x y swapcontext_own [of ?th "flow th" ?x g y]
    by (cases "m_runInScheduler x") (simp_all add: yield_def resumer_def Let_def)
  moreover have "fibers (set_fiber (flow th) ?x ?th) = (fibers th)(flow th \<mapsto> ?x)" by auto
  ultimately show ?thesis using ok f r by (auto simp: fiber_ok_def)
qed

lemma MainFunc_end_correct:
  assumes ok: "fiber_ok th" and f: "fibers th (flow th) = Some x"
    and r: "resumer th x = Some g" "g \<noteq> flow th" "fibers th g = Some y" "m_state y = RUNNING"
  shows "\<exists>th'. MainFunc_end th = Inr th' \<and> fiber_ok th' \<and> flow th' = g \<and>
    t_thread_fiber th' = t_thread_fiber th \<and> t_scheduler_fiber th' = t_scheduler_fiber th \<and>
    fibers th' = (fibers th)(flow th \<mapsto> x\<lparr>m_cb := None, m_state := TERM_STATE\<rparr>)"
proof -
  have x: "m_ctx x = flow th" "t_fiber th = Some (flow th)" and y: "m_ctx y = g"
    using ok f r(3) by (auto simp: fiber_ok_def)
  let ?x = "x\<lparr>m_cb := None, m_state := TERM_STATE\<rparr>"
  let ?th = "SetThis (Some g) (set_fiber (flow th) ?x (set_fiber (flow th) ?x th))"
  have "MainFunc_end th = Inr ((set_fiber (flow th) ?x ?th)\<lparr>flow := g\<rparr>)"
    using f r x y swapcontext_own [of ?th "flow th" ?x g y]
    by (cases "m_runInScheduler x") (simp_all add: MainFunc_end_def yield_def resumer_def Let_def)
  moreover have "fibers (set_fiber (flow th) ?x ?th) = (fibers th)(flow th \<mapsto> ?x)" by auto
  ultimately show ?thesis using ok f r by (auto simp: fiber_ok_def)
qed

section \<open>Disciplined use\<close>

text \<open>
  The fibers in state RUNNING are the current one and those it will return to: the main fiber and,
  under a fiber that the scheduler runs, the scheduling fiber. The scheduling fiber is the main fiber
  or one that returns to it.
\<close>

definition fiber_inv :: "'cb fiber_thread \<Rightarrow> bool" where
  "fiber_inv th \<longleftrightarrow> fiber_ok th \<and>
     (\<exists>mn sc sx. t_thread_fiber th = Some mn \<and> t_scheduler_fiber th = Some sc \<and>
        fibers th sc = Some sx \<and> (sc = mn \<or> \<not> m_runInScheduler sx) \<and>
        (\<forall>f x. fibers th f = Some x \<longrightarrow> (m_state x = RUNNING \<longleftrightarrow>
           f = flow th \<or> f = mn \<or> f = sc \<and> flow th \<noteq> mn \<and> m_runInScheduler (the (fibers th (flow th))))))"

text \<open>
  The steps of a program that resumes a fiber only from the fiber it will come back to, as
  \<open>Scheduler::run\<close> and \<open>Scheduler::stop\<close> do, and does not yield its main fiber.
\<close>

inductive fiber_step :: "'cb fiber_thread \<Rightarrow> 'cb fiber_thread \<Rightarrow> bool" where
  fstep_new: "Fiber_new cb stacksize run_in_scheduler th = (f, th') \<Longrightarrow> fiber_step th th'"
| fstep_resume: "fibers th f = Some x \<Longrightarrow> resumer th x = Some (flow th) \<Longrightarrow> resume f th = Inr th' \<Longrightarrow>
    fiber_step th th'"
| fstep_yield: "t_thread_fiber th \<noteq> Some (flow th) \<Longrightarrow> yield (flow th) th = Inr th' \<Longrightarrow> fiber_step th th'"
| fstep_end: "t_thread_fiber th \<noteq> Some (flow th) \<Longrightarrow> MainFunc_end th = Inr th' \<Longrightarrow> fiber_step th th'"
| fstep_reset: "Fiber_reset f cb th = Inr th' \<Longrightarrow> fiber_step th th'"
| fstep_scheduler: "t_thread_fiber th = Some (flow th) \<Longrightarrow> fibers th f = Some x \<Longrightarrow> \<not> m_runInScheduler x \<Longrightarrow>
    fiber_step th (SetSchedulerFiber (Some f) th)"

inductive_cases fiber_step_cases: "fiber_step th th'"

lemma fiber_invE:
  assumes "fiber_inv th"
  obtains x mn mx sc sx where "fiber_ok th" "fibers th (flow th) = Some x" "m_state x = RUNNING"
    "t_thread_fiber th = Some mn" "fibers th mn = Some mx" "m_state mx = RUNNING"
    "t_scheduler_fiber th = Some sc" "fibers th sc = Some sx" "sc = mn \<or> \<not> m_runInScheduler sx"
    "\<And>f y. fibers th f = Some y \<Longrightarrow> m_state y = RUNNING \<longleftrightarrow>
       f = flow th \<or> f = mn \<or> f = sc \<and> flow th \<noteq> mn \<and> m_runInScheduler x"
  using assms unfolding fiber_inv_def fiber_ok_def by fastforce

lemma fiber_inv_resume:
  assumes inv: "fiber_inv th" and f: "fibers th f = Some x" "resumer th x = Some (flow th)"
    and r: "resume f th = Inr th'"
  shows "fiber_inv th'"
proof -
  have st: "m_state x = READY" using r f by (auto simp: resume_def split: if_splits)
  from inv have ok: "fiber_ok th" by (simp add: fiber_inv_def)
  from resume_correct [OF ok f(1) st f(2)] r have th': "fiber_ok th'" "flow th' = f"
    "t_thread_fiber th' = t_thread_fiber th" "t_scheduler_fiber th' = t_scheduler_fiber th"
    "fibers th' = (fibers th)(f \<mapsto> x\<lparr>m_state := RUNNING\<rparr>)" by auto
  from inv show ?thesis
  proof (rule fiber_invE)
    fix z mn mx sc sx
    assume a: "fibers th (flow th) = Some z" "t_thread_fiber th = Some mn" "fibers th mn = Some mx"
      "m_state mx = RUNNING" "t_scheduler_fiber th = Some sc" "fibers th sc = Some sx"
      "sc = mn \<or> \<not> m_runInScheduler sx"
      "\<And>f y. fibers th f = Some y \<Longrightarrow> m_state y = RUNNING \<longleftrightarrow>
         f = flow th \<or> f = mn \<or> f = sc \<and> flow th \<noteq> mn \<and> m_runInScheduler z"
    have "f \<noteq> mn" "f \<noteq> flow th" using a(1,3,4) a(8) [OF f(1)] f(1) st by auto
    with a th' f show ?thesis
      by (cases "m_runInScheduler x") (auto simp: fiber_inv_def resumer_def split: if_splits)
  qed
qed

text \<open>Where the current fiber returns to, unless it is the main fiber.\<close>

lemma fiber_inv_resumer:
  assumes "fiber_inv th" "t_thread_fiber th \<noteq> Some (flow th)" "fibers th (flow th) = Some x"
  obtains g y where "resumer th x = Some g" "g \<noteq> flow th" "fibers th g = Some y" "m_state y = RUNNING"
proof (rule fiber_invE [OF assms(1)])
  fix z mn mx sc sx
  assume a: "fibers th (flow th) = Some z" "t_thread_fiber th = Some mn" "fibers th mn = Some mx"
    "m_state mx = RUNNING" "t_scheduler_fiber th = Some sc" "fibers th sc = Some sx"
    "sc = mn \<or> \<not> m_runInScheduler sx"
    "\<And>f y. fibers th f = Some y \<Longrightarrow> m_state y = RUNNING \<longleftrightarrow>
       f = flow th \<or> f = mn \<or> f = sc \<and> flow th \<noteq> mn \<and> m_runInScheduler z"
  with assms(2,3) have "z = x" "flow th \<noteq> mn" by auto
  with a a(8) [OF a(6)] that [of mn mx] that [of sc sx] show thesis
    by (cases "m_runInScheduler x"; cases "sc = flow th") (auto simp: resumer_def)
qed

lemma fiber_inv_new:
  assumes inv: "fiber_inv th" and n: "Fiber_new cb stacksize run_in_scheduler th = (f, th')"
  shows "fiber_inv th'"
proof (rule fiber_invE [OF inv])
  fix z mn mx sc sx
  assume a: "fiber_ok th" "fibers th (flow th) = Some z" "t_thread_fiber th = Some mn" "fibers th mn = Some mx"
    "m_state mx = RUNNING" "t_scheduler_fiber th = Some sc" "fibers th sc = Some sx"
    "sc = mn \<or> \<not> m_runInScheduler sx"
    "\<And>f y. fibers th f = Some y \<Longrightarrow> m_state y = RUNNING \<longleftrightarrow>
       f = flow th \<or> f = mn \<or> f = sc \<and> flow th \<noteq> mn \<and> m_runInScheduler z"
  obtain x where th': "fibers th' = (fibers th)(s_fiber_id th \<mapsto> x)" "m_state x = READY"
    "m_ctx x = s_fiber_id th" "m_id x = s_fiber_id th" "t_fiber th' = t_fiber th" "flow th' = flow th"
    "t_thread_fiber th' = t_thread_fiber th" "t_scheduler_fiber th' = t_scheduler_fiber th"
    "s_fiber_id th' = Suc (s_fiber_id th)"
    using n by (auto simp: Fiber_new_def Let_def)
  have "g \<noteq> s_fiber_id th" if "fibers th g = Some y" for g y
    using a(1) that unfolding fiber_ok_def by blast
  then have "mn \<noteq> s_fiber_id th" "sc \<noteq> s_fiber_id th" "flow th \<noteq> s_fiber_id th" using a by blast+
  with a th' show ?thesis unfolding fiber_inv_def fiber_ok_def
    by (auto simp: less_Suc_eq)
qed

lemma fiber_inv_leave:
  assumes inv: "fiber_inv th" and m: "t_thread_fiber th \<noteq> Some (flow th)"
    and x: "fibers th (flow th) = Some x" "resumer th x = Some g"
    and th': "fiber_ok th'" "flow th' = g" "t_thread_fiber th' = t_thread_fiber th"
      "t_scheduler_fiber th' = t_scheduler_fiber th" "fibers th' = (fibers th)(flow th \<mapsto> x')"
    and x': "m_state x' \<noteq> RUNNING" "m_runInScheduler x' = m_runInScheduler x"
  shows "fiber_inv th'"
  using inv
proof (rule fiber_invE)
  fix z mn mx sc sx
  assume a: "fibers th (flow th) = Some z" "t_thread_fiber th = Some mn" "fibers th mn = Some mx"
    "m_state mx = RUNNING" "t_scheduler_fiber th = Some sc" "fibers th sc = Some sx"
    "sc = mn \<or> \<not> m_runInScheduler sx"
    "\<And>f y. fibers th f = Some y \<Longrightarrow> m_state y = RUNNING \<longleftrightarrow>
       f = flow th \<or> f = mn \<or> f = sc \<and> flow th \<noteq> mn \<and> m_runInScheduler z"
  with m x have "z = x" "flow th \<noteq> mn" by auto
  with a x th' x' show ?thesis
    by (cases "m_runInScheduler x"; cases "sc = flow th")
      (auto simp: fiber_inv_def resumer_def split: if_splits)
qed

text \<open>Changing a fiber that is and stays suspended.\<close>

lemma fiber_inv_change:
  assumes inv: "fiber_inv th" and f: "fibers th f = Some x" "m_state x \<noteq> RUNNING"
    and x': "m_state x' \<noteq> RUNNING" "m_ctx x' = f" "m_id x' = m_id x" "m_runInScheduler x' = m_runInScheduler x"
  shows "fiber_inv (set_fiber f x' th)"
proof (rule fiber_invE [OF inv])
  fix z mn mx sc sx
  assume a: "fiber_ok th" "fibers th (flow th) = Some z" "t_thread_fiber th = Some mn" "fibers th mn = Some mx"
    "m_state mx = RUNNING" "t_scheduler_fiber th = Some sc" "fibers th sc = Some sx"
    "sc = mn \<or> \<not> m_runInScheduler sx"
    "\<And>f y. fibers th f = Some y \<Longrightarrow> m_state y = RUNNING \<longleftrightarrow>
       f = flow th \<or> f = mn \<or> f = sc \<and> flow th \<noteq> mn \<and> m_runInScheduler z"
  from a(9) [OF f(1)] f(2) have "f \<noteq> flow th" "f \<noteq> mn"
    "\<not> (f = sc \<and> flow th \<noteq> mn \<and> m_runInScheduler z)" by auto
  with a f x' show ?thesis unfolding fiber_inv_def fiber_ok_def
    by (cases "f = sc") auto
qed

lemma fiber_step_inv:
  assumes "fiber_step th th'" and inv: "fiber_inv th"
  shows "fiber_inv th'"
  using assms(1)
proof (rule fiber_step_cases, goal_cases)
  case (1 cb stacksize run_in_scheduler f)
  with inv show ?case by (rule fiber_inv_new)
next
  case (2 f x)
  with inv show ?case by (auto intro: fiber_inv_resume)
next
  case 3
  obtain x where x: "fibers th (flow th) = Some x" using inv by (auto simp: fiber_inv_def fiber_ok_def)
  obtain g y where g: "resumer th x = Some g" "g \<noteq> flow th" "fibers th g = Some y" "m_state y = RUNNING"
    using fiber_inv_resumer [OF inv 3(1) x] .
  from yield_correct [OF _ x g] 3 inv fiber_inv_leave [OF inv 3(1) x g(1)] show ?case
    by (fastforce simp: fiber_inv_def)
next
  case 4
  obtain x where x: "fibers th (flow th) = Some x" using inv by (auto simp: fiber_inv_def fiber_ok_def)
  obtain g y where g: "resumer th x = Some g" "g \<noteq> flow th" "fibers th g = Some y" "m_state y = RUNNING"
    using fiber_inv_resumer [OF inv 4(1) x] .
  from MainFunc_end_correct [OF _ x g] 4 inv fiber_inv_leave [OF inv 4(1) x g(1)] show ?case
    by (fastforce simp: fiber_inv_def)
next
  case (5 f cb)
  then obtain x where "fibers th f = Some x" "m_state x = TERM_STATE"
    "th' = set_fiber f (x\<lparr>m_state := READY, m_cb := Some cb, m_ctx := f\<rparr>) th"
    by (auto simp: Fiber_reset_def dag_bind split: if_splits option.splits)
  with inv show ?case by (simp add: fiber_inv_change)
next
  case (6 f x)
  with inv show ?case
    by (elim fiber_invE) (auto simp: fiber_inv_def fiber_ok_def SetSchedulerFiber_def)
qed

inductive fiber_reach :: "'cb fiber_thread \<Rightarrow> bool" where
  freach_start: "GetThis junk (fiber_thread_new n) = Inr (f, th) \<Longrightarrow> fiber_reach th"
| freach_step: "fiber_reach th \<Longrightarrow> fiber_step th th' \<Longrightarrow> fiber_reach th'"

lemma fiber_reach_inv: "fiber_reach th \<Longrightarrow> fiber_inv th"
proof (induction rule: fiber_reach.induct)
  case (freach_start junk n f th)
  then show ?case
    by (auto simp: GetThis_def fiber_thread_new_def Fiber_main_def fiber_inv_def fiber_ok_def Let_def
        split: if_splits)
qed (auto intro: fiber_step_inv)

text \<open>A fiber that is resumed from the scheduling fiber and runs to its end: control is back, and only this fiber has changed.\<close>

lemma resume_end_correct:
  assumes inv: "fiber_inv th" and home: "t_scheduler_fiber th = Some (flow th)"
    and x: "fibers th f = Some x" "m_state x = READY" "m_runInScheduler x"
  shows "\<exists>th1 th2. resume f th = Inr th1 \<and> flow th1 = f \<and> f \<noteq> flow th \<and> MainFunc_end th1 = Inr th2 \<and> fiber_inv th2 \<and>
    flow th2 = flow th \<and> t_scheduler_fiber th2 = t_scheduler_fiber th \<and>
    fibers th2 = (fibers th)(f \<mapsto> x\<lparr>m_cb := None, m_state := TERM_STATE\<rparr>)"
proof -
  have r: "resumer th x = Some (flow th)" using x(3) home by (simp add: resumer_def)
  obtain th1 where th1: "resume f th = Inr th1" "flow th1 = f" "t_scheduler_fiber th1 = Some (flow th)"
    "fibers th1 = (fibers th)(f \<mapsto> x\<lparr>m_state := RUNNING\<rparr>)" "t_thread_fiber th1 = t_thread_fiber th"
    using resume_correct [OF _ x(1,2) r] inv home by (auto simp: fiber_inv_def)
  have inv1: "fiber_inv th1" by (rule fiber_inv_resume [OF inv x(1) r th1(1)])
  have ne: "f \<noteq> flow th" using x(1,2) inv by (auto simp: fiber_inv_def fiber_ok_def)
  have "t_thread_fiber th \<noteq> Some f" using x(1,2) inv by (auto elim!: fiber_invE)
  then have m: "t_thread_fiber th1 \<noteq> Some (flow th1)" using th1(2,5) by simp
  have cur: "fibers th1 (flow th1) = Some (x\<lparr>m_state := RUNNING\<rparr>)" using th1(2,4) by simp
  obtain g y where g: "resumer th1 (x\<lparr>m_state := RUNNING\<rparr>) = Some g" "g \<noteq> flow th1"
    "fibers th1 g = Some y" "m_state y = RUNNING"
    using fiber_inv_resumer [OF inv1 m cur] .
  have "g = flow th" using g(1) x(3) th1(3) by (simp add: resumer_def)
  obtain th2 where th2: "MainFunc_end th1 = Inr th2" "flow th2 = flow th" "t_scheduler_fiber th2 = Some (flow th)"
    "fibers th2 = (fibers th)(f \<mapsto> x\<lparr>m_cb := None, m_state := TERM_STATE\<rparr>)"
    using MainFunc_end_correct [OF _ cur g] inv1 \<open>g = flow th\<close> th1 by (auto simp: fiber_inv_def)
  have "fiber_inv th2" by (rule fiber_step_inv [OF fstep_end [OF m th2(1)] inv1])
  with th1 th2 home ne show ?thesis by auto
qed

section \<open>What the interface promises\<close>

text \<open>
  C17: in a thread that uses fibers in the disciplined way, \<open>t_fiber\<close> always names the fiber whose flow
  runs, every other fiber's context holds its own flow, exactly the fibers on the way back to the
  main fiber are RUNNING, and a current fiber other than the main one can always yield, to the
  fiber that resumed it.
\<close>

theorem fiber_flow_consistent:
  assumes "fiber_reach th"
  shows "t_fiber th = Some (flow th) \<and> GetFiberId th = flow th \<and>
    (\<forall>f x. fibers th f = Some x \<longrightarrow> m_ctx x = f) \<and>
    (\<exists>mn sc x. t_thread_fiber th = Some mn \<and> t_scheduler_fiber th = Some sc \<and> fibers th (flow th) = Some x \<and>
       {f. \<exists>y. fibers th f = Some y \<and> m_state y = RUNNING} =
         {flow th, mn} \<union> (if flow th \<noteq> mn \<and> m_runInScheduler x then {sc} else {}) \<and>
       (flow th \<noteq> mn \<longrightarrow> (\<exists>th'. yield (flow th) th = Inr th' \<and> t_fiber th' = resumer th x)))"
proof (rule fiber_invE [OF fiber_reach_inv [OF assms]])
  fix x mn mx sc sx
  assume a: "fiber_ok th" "fibers th (flow th) = Some x" "m_state x = RUNNING" "t_thread_fiber th = Some mn"
    "fibers th mn = Some mx" "m_state mx = RUNNING" "t_scheduler_fiber th = Some sc" "fibers th sc = Some sx"
    "sc = mn \<or> \<not> m_runInScheduler sx"
    "\<And>f y. fibers th f = Some y \<Longrightarrow> m_state y = RUNNING \<longleftrightarrow>
       f = flow th \<or> f = mn \<or> f = sc \<and> flow th \<noteq> mn \<and> m_runInScheduler x"
  have "\<exists>th'. yield (flow th) th = Inr th' \<and> t_fiber th' = resumer th x" if "flow th \<noteq> mn"
  proof -
    have "t_thread_fiber th \<noteq> Some (flow th)" using a(4) that by simp
    then obtain g y where g: "resumer th x = Some g" "g \<noteq> flow th" "fibers th g = Some y" "m_state y = RUNNING"
      using fiber_inv_resumer [OF fiber_reach_inv [OF assms] _ a(2)] by blast
    show ?thesis using yield_correct [OF a(1,2) g] g(1) by (auto simp: fiber_ok_def)
  qed
  moreover have "{f. \<exists>y. fibers th f = Some y \<and> m_state y = RUNNING} =
      {flow th, mn} \<union> (if flow th \<noteq> mn \<and> m_runInScheduler x then {sc} else {})"
    using a(2,5,8) a(10) by auto
  ultimately show ?thesis using a(1,2,4,7) by (auto simp: fiber_ok_def GetFiberId_def)
qed

theorem fiber_flow_consistent_witness:
  "\<exists>th :: nat fiber_thread. fiber_reach th \<and> t_fiber th = Some 0 \<and> GetFiberId th = 0"
proof -
  obtain th :: "nat fiber_thread" where th: "GetThis True (fiber_thread_new 0) = Inr (0, th)" "flow th = 0"
    by (simp add: GetThis_def fiber_thread_new_def Fiber_main_def Let_def)
  then have "fiber_reach th" by (blast intro: freach_start)
  with fiber_flow_consistent [OF this] th(2) show ?thesis by auto
qed

text \<open>A thread whose main fiber has created one other fiber.\<close>

lemma ready_example:
  "\<exists>(th :: 'cb fiber_thread) x. fiber_inv th \<and> fibers th 1 = Some x \<and> m_state x = READY \<and>
     resumer th x = Some (flow th) \<and> flow th = 0"
proof -
  obtain th0 :: "'cb fiber_thread" where th0: "GetThis True (fiber_thread_new 0) = Inr (0, th0)"
    "t_scheduler_fiber th0 = Some 0" "flow th0 = 0" "s_fiber_id th0 = 1"
    by (simp add: GetThis_def fiber_thread_new_def Fiber_main_def Let_def)
  obtain th where th: "Fiber_new undefined 0 True th0 = (1, th)" using th0 by (simp add: Fiber_new_def Let_def)
  have "fiber_inv th" using fiber_inv_new [OF fiber_reach_inv [OF freach_start [OF th0(1)]] th] .
  moreover obtain x where "fibers th 1 = Some x" "m_state x = READY" "resumer th x = Some (flow th)" "flow th = 0"
    using th th0 by (auto simp: Fiber_new_def Let_def resumer_def)
  ultimately show ?thesis by blast
qed

text \<open>
  C18: a fiber that is resumed by the fiber it belongs to and yields leaves everything as it was:
  control is back with the resumer, no other fiber has changed and the fiber is READY again. When its
  callback returns instead, control is back in the same way, the fiber has terminated and dropped its
  callback, and it can be reset for another one.
\<close>

theorem resume_yield_roundtrip:
  assumes "fiber_inv th" "fibers th f = Some x" "m_state x = READY" "resumer th x = Some (flow th)"
  shows "\<exists>th1 th2 th3. resume f th = Inr th1 \<and> t_fiber th1 = Some f \<and> flow th1 = f \<and>
    yield f th1 = Inr th2 \<and> t_fiber th2 = t_fiber th \<and> flow th2 = flow th \<and> fibers th2 = fibers th \<and>
    MainFunc_end th1 = Inr th3 \<and> t_fiber th3 = t_fiber th \<and> flow th3 = flow th \<and>
    fibers th3 = (fibers th)(f \<mapsto> x\<lparr>m_cb := None, m_state := TERM_STATE\<rparr>) \<and>
    (m_stack x \<longrightarrow> (\<exists>th4. Fiber_reset f cb th3 = Inr th4 \<and>
       fibers th4 f = Some (x\<lparr>m_state := READY, m_cb := Some cb, m_ctx := f\<rparr>)))"
proof -
  have ok: "fiber_ok th" using assms(1) by (simp add: fiber_inv_def)
  obtain z where z: "fibers th (flow th) = Some z" "m_state z = RUNNING" using ok by (auto simp: fiber_ok_def)
  then have ne: "flow th \<noteq> f" using assms(2,3) by auto
  obtain th1 where th1: "resume f th = Inr th1" "fiber_ok th1" "flow th1 = f"
    "t_thread_fiber th1 = t_thread_fiber th" "t_scheduler_fiber th1 = t_scheduler_fiber th"
    "fibers th1 = (fibers th)(f \<mapsto> x\<lparr>m_state := RUNNING\<rparr>)"
    using resume_correct [OF ok assms(2-4)] by blast
  have x1: "fibers th1 (flow th1) = Some (x\<lparr>m_state := RUNNING\<rparr>)"
    "resumer th1 (x\<lparr>m_state := RUNNING\<rparr>) = Some (flow th)" "flow th \<noteq> flow th1"
    "fibers th1 (flow th) = Some z"
    using th1 assms(4) z ne by (auto simp: resumer_def split: if_splits)
  have same: "(fibers th)(f \<mapsto> x) = fibers th" using assms(2) by (simp add: fun_upd_idem)
  have rdy: "x\<lparr>m_state := READY\<rparr> = x" using assms(3) by simp
  have tf: "t_fiber t = Some (flow t)" if "fiber_ok t" for t :: "'a fiber_thread"
    using that by (simp add: fiber_ok_def)
  from yield_correct [OF th1(2) x1 z(2)] obtain th2 where th2: "yield f th1 = Inr th2" "fiber_ok th2"
    "flow th2 = flow th" "fibers th2 = fibers th"
    using th1(3,6) same rdy by auto
  from MainFunc_end_correct [OF th1(2) x1 z(2)] obtain th3 where th3: "MainFunc_end th1 = Inr th3"
    "fiber_ok th3" "flow th3 = flow th"
    "fibers th3 = (fibers th)(f \<mapsto> x\<lparr>m_cb := None, m_state := TERM_STATE\<rparr>)"
    using th1(3,6) by auto
  have "m_stack x \<longrightarrow> (\<exists>th4. Fiber_reset f cb th3 = Inr th4 \<and>
       fibers th4 f = Some (x\<lparr>m_state := READY, m_cb := Some cb, m_ctx := f\<rparr>))"
    using th3(4) by (simp add: Fiber_reset_def)
  then show ?thesis using th1 th2 th3 tf [OF th1(2)] tf [OF th2(2)] tf [OF th3(2)] tf [OF ok] by auto
qed

theorem resume_yield_roundtrip_witness:
  "\<exists>(th :: nat fiber_thread) f th1 th2. resume f th = Inr th1 \<and> yield f th1 = Inr th2 \<and>
     flow th2 = flow th \<and> flow th1 \<noteq> flow th"
proof -
  obtain th :: "nat fiber_thread" and x where "fiber_inv th" "fibers th 1 = Some x" "m_state x = READY"
    "resumer th x = Some (flow th)" "flow th = 0" using ready_example by blast
  then show ?thesis using resume_yield_roundtrip [of th 1 x 8] by (metis zero_neq_one)
qed

text \<open>
  C35: a fiber that resumes another one under the same scheduler is not returned to properly: after
  the inner fiber yields, the outer one's flow runs on while \<open>t_fiber\<close> names the scheduling fiber,
  whose own flow has been overwritten by the outer one.
\<close>

theorem nested_resume_mixes_flows:
  assumes "fiber_inv th" "t_scheduler_fiber th = Some sc" "flow th \<noteq> sc"
    and "fibers th f = Some x" "m_state x = READY" "m_runInScheduler x" "f \<noteq> sc"
  shows "\<exists>th1 th2 y. resume f th = Inr th1 \<and> yield f th1 = Inr th2 \<and> flow th2 = flow th \<and>
    t_fiber th2 = Some sc \<and> fibers th2 sc = Some y \<and> m_ctx y = flow th"
proof -
  obtain y where y: "fibers th sc = Some y" using assms(1,2) by (auto simp: fiber_inv_def)
  have "m_ctx x = f" using assms(1,4) by (auto simp: fiber_inv_def fiber_ok_def)
  then show ?thesis using assms(2-) y
    by (simp add: resume_def yield_def swapcontext_def Let_def)
qed

theorem nested_resume_mixes_flows_witness:
  "\<exists>(th :: nat fiber_thread) th1 th2. resume 2 th = Inr th1 \<and> yield 2 th1 = Inr th2 \<and>
     flow th2 = 1 \<and> t_fiber th2 = Some 0"
proof -
  obtain th0 :: "nat fiber_thread" where th0: "GetThis True (fiber_thread_new 0) = Inr (0, th0)"
    "t_scheduler_fiber th0 = Some 0" "flow th0 = 0" "s_fiber_id th0 = 1"
    by (simp add: GetThis_def fiber_thread_new_def Fiber_main_def Let_def)
  obtain thA where thA: "Fiber_new 7 0 True th0 = (1, thA)" using th0 by (simp add: Fiber_new_def Let_def)
  obtain th where th: "Fiber_new 8 0 True thA = (2, th)"
    using thA th0 by (auto simp: Fiber_new_def Let_def)
  have inv: "fiber_inv th"
    using fiber_inv_new [OF fiber_inv_new [OF fiber_reach_inv [OF freach_start [OF th0(1)]] thA] th] .
  obtain x y where x: "fibers th 1 = Some x" "m_state x = READY" "resumer th x = Some (flow th)"
    and y: "fibers th 2 = Some y" "m_state y = READY" "m_runInScheduler y" "t_scheduler_fiber th = Some 0"
    using th thA th0 by (auto simp: Fiber_new_def Let_def resumer_def)
  obtain th' where th': "resume 1 th = Inr th'" "flow th' = 1" "t_scheduler_fiber th' = Some 0"
    "fibers th' 2 = Some y"
    using resume_correct [OF _ x] inv y by (auto simp: fiber_inv_def)
  have "fiber_inv th'" by (rule fiber_inv_resume [OF inv x(1,3) th'(1)])
  from nested_resume_mixes_flows [OF this th'(3) _ th'(4) y(2,3)] th'(2) show ?thesis by auto
qed

end
