(* ===== verification/Scheduler.thy ===== *)
theory Scheduler
  imports Fiber "HOL-Library.Multiset"
begin

text \<open>
  The scheduler, \<open>dag/scheduler.h\<close> and \<open>dag/scheduler.cpp\<close>: the task queue, the choice of a task by a
  worker, the counters and the conditions for stopping. The queue operations are functions; the
  workers, which run \<open>Scheduler::run\<close> in parallel, are a step relation in which each critical
  section under \<open>m_mutex\<close> and each execution of a task is one step. Running a task stands for the
  resumption of its fiber or of a new fiber for its callback (theory \<open>Fiber\<close>) until it yields or ends;
  the tasks it schedules meanwhile are steps of their own.

  After \<open>m_tasks.erase(it)\<close> the code still compares \<open>it\<close> with the end of the vector. Formally that
  iterator is invalid; the model takes it to stand for the element that moved into its place.
\<close>

section \<open>Tasks\<close>

record ('fiber, 'cb) SchedulerTask =
  task_fiber :: "'fiber option"
  task_cb :: "'cb option"
  task_thread :: int

definition SchedulerTask_empty :: "('fiber, 'cb) SchedulerTask" where
  "SchedulerTask_empty = \<lparr>task_fiber = None, task_cb = None, task_thread = - 1\<rparr>"

definition SchedulerTask_fiber :: "'fiber option \<Rightarrow> int \<Rightarrow> ('fiber, 'cb) SchedulerTask" where
  "SchedulerTask_fiber f thr = \<lparr>task_fiber = f, task_cb = None, task_thread = thr\<rparr>"

definition SchedulerTask_cb :: "'cb option \<Rightarrow> int \<Rightarrow> ('fiber, 'cb) SchedulerTask" where
  "SchedulerTask_cb f thr = \<lparr>task_fiber = None, task_cb = f, task_thread = thr\<rparr>"

text \<open>The constructors that take a pointer swap: the caller's object is left null.\<close>

definition SchedulerTask_fiber_ptr :: "'fiber option \<Rightarrow> int \<Rightarrow> ('fiber, 'cb) SchedulerTask \<times> 'fiber option" where
  "SchedulerTask_fiber_ptr f thr = (SchedulerTask_fiber f thr, None)"

definition SchedulerTask_cb_ptr :: "'cb option \<Rightarrow> int \<Rightarrow> ('fiber, 'cb) SchedulerTask \<times> 'cb option" where
  "SchedulerTask_cb_ptr f thr = (SchedulerTask_cb f thr, None)"

definition has_work :: "('fiber, 'cb) SchedulerTask \<Rightarrow> bool" where
  "has_work t \<longleftrightarrow> task_fiber t \<noteq> None \<or> task_cb t \<noteq> None"

section \<open>The scheduler\<close>

record ('fiber, 'cb) Scheduler =
  m_name :: string
  m_tasks :: "('fiber, 'cb) SchedulerTask list"
  m_threads :: nat
  m_threadIds :: "int list"
  m_threadCount :: nat
  m_activeThreadCount :: nat
  m_idleThreadCount :: nat
  m_useCaller :: bool
  m_schedulerFiber :: bool
  m_rootThread :: int
  m_stopping :: bool

text \<open>
  The constructor; \<open>current\<close> tells whether the calling thread already has a scheduler. With
  \<open>use_caller\<close> the calling thread counts as a worker and gets a scheduling fiber.
\<close>

definition Scheduler_new :: "bool \<Rightarrow> int \<Rightarrow> nat \<Rightarrow> bool \<Rightarrow> string \<Rightarrow> ('fiber, 'cb) Scheduler res" where
  "Scheduler_new current thread_id threads use_caller name =
     (if threads > 0 \<and> \<not> current
      then Inr \<lparr>m_name = name, m_tasks = [], m_threads = 0,
                m_threadIds = (if use_caller then [thread_id] else []),
                m_threadCount = (if use_caller then threads - 1 else threads),
                m_activeThreadCount = 0, m_idleThreadCount = 0, m_useCaller = use_caller,
                m_schedulerFiber = use_caller,
                m_rootThread = (if use_caller then thread_id else - 1), m_stopping = False\<rparr>
      else Inl (Assertion ''threads>0 && Scheduler::GetThis()==nullptr''))"

text \<open>Adding a task; the second component tells whether \<open>tickle\<close> is called.\<close>

definition schedulerLock ::
  "('fiber, 'cb) SchedulerTask \<Rightarrow> ('fiber, 'cb) Scheduler \<Rightarrow> ('fiber, 'cb) Scheduler \<times> bool" where
  "schedulerLock task s =
     (let need_tickle = (m_tasks s = []);
          s' = (if has_work task then s\<lparr>m_tasks := m_tasks s @ [task]\<rparr> else s)
      in (s', need_tickle))"

definition stopping :: "('fiber, 'cb) Scheduler \<Rightarrow> bool" where
  "stopping s \<longleftrightarrow> m_stopping s \<and> m_tasks s = [] \<and> m_activeThreadCount s = 0"

text \<open>Starting the threads; \<open>ids\<close> are the numbers their constructors report.\<close>

definition start :: "int list \<Rightarrow> ('fiber, 'cb) Scheduler \<Rightarrow> ('fiber, 'cb) Scheduler res" where
  "start ids s =
     (if m_stopping s then Inr s
      else if m_threads s \<noteq> 0 then Inl (Assertion ''m_threads.empty()'')
      else Inr (s\<lparr>m_threads := m_threadCount s, m_threadIds := m_threadIds s @ take (m_threadCount s) ids\<rparr>))"

text \<open>
  \<open>stop\<close> up to the resumption of the scheduling fiber: the number of calls of \<open>tickle\<close>, and whether
  that fiber is resumed. \<open>is_this\<close> tells whether this is the scheduler of the calling thread. The test at
  its beginning calls a virtual function, so that what follows it is a definition of its own.
\<close>

definition request_stop :: "bool \<Rightarrow> ('fiber, 'cb) Scheduler \<Rightarrow> (('fiber, 'cb) Scheduler \<times> nat \<times> bool) res" where
  "request_stop is_this s =
     (let s' = s\<lparr>m_stopping := True\<rparr> in
      if m_useCaller s' \<and> \<not> is_this then Inl (Assertion ''GetThis() == this'')
      else if \<not> m_useCaller s' \<and> is_this then Inl (Assertion ''GetThis() != this'')
      else Inr (s', m_threadCount s' + (if m_schedulerFiber s' then 1 else 0), m_schedulerFiber s'))"

definition stop :: "bool \<Rightarrow> ('fiber, 'cb) Scheduler \<Rightarrow> (('fiber, 'cb) Scheduler \<times> nat \<times> bool) res" where
  "stop is_this s = (if stopping s then Inr (s, 0, False) else request_stop is_this s)"

text \<open>The end of \<open>stop\<close>: the threads are taken out to be joined.\<close>

definition stop_join :: "('fiber, 'cb) Scheduler \<Rightarrow> nat \<times> ('fiber, 'cb) Scheduler" where
  "stop_join s = (m_threads s, s\<lparr>m_threads := 0\<rparr>)"

text \<open>
  The scheduler that the calling thread works for is a thread-local pointer; the destructor clears it
  if it points to this scheduler.
\<close>

definition Scheduler_SetThis :: "nat \<Rightarrow> nat option \<Rightarrow> nat option" where
  "Scheduler_SetThis this t_scheduler = Some this"

definition Scheduler_delete :: "nat \<Rightarrow> nat option \<Rightarrow> ('fiber, 'cb) Scheduler \<Rightarrow> nat option res" where
  "Scheduler_delete this t_scheduler s =
     (if \<not> stopping s then Inl (Assertion ''stopping()==true'')
      else if t_scheduler = Some this then Inr None else Inr t_scheduler)"

text \<open>The idle fiber, each time it runs: it yields again, or its function returns and it is over.\<close>

definition Scheduler_idle :: "('fiber, 'cb) Scheduler \<Rightarrow> State" where
  "Scheduler_idle s = (if \<not> stopping s then READY else TERM_STATE)"

section \<open>Choosing a task\<close>

text \<open>
  The loop of \<open>run\<close> under the lock: the task taken, the rest of the queue, and \<open>tickle_me\<close>. A task in
  the queue without work fails the assertion when it is reached.
\<close>

fun pick :: "int \<Rightarrow> bool \<Rightarrow> ('fiber, 'cb) SchedulerTask list
    \<Rightarrow> (('fiber, 'cb) SchedulerTask option \<times> ('fiber, 'cb) SchedulerTask list \<times> bool) res" where
  "pick thread_id tickle_me [] = Inr (None, [], tickle_me)"
| "pick thread_id tickle_me (t # ts) =
     (if task_thread t \<noteq> - 1 \<and> task_thread t \<noteq> thread_id
      then rmap (\<lambda>(r, rest, tk). (r, t # rest, tk)) (pick thread_id True ts)
      else if \<not> has_work t then Inl (Assertion ''it->fiber||it->cb'')
      else Inr (Some t, ts, tickle_me \<or> ts \<noteq> []))"

definition take_task ::
  "int \<Rightarrow> ('fiber, 'cb) Scheduler
     \<Rightarrow> (('fiber, 'cb) SchedulerTask option \<times> bool \<times> ('fiber, 'cb) Scheduler) res" where
  "take_task thread_id s =
     rmap (\<lambda>(r, rest, tk).
       (r, tk, s\<lparr>m_tasks := rest,
                m_activeThreadCount := (if r = None then m_activeThreadCount s else m_activeThreadCount s + 1)\<rparr>))
       (pick thread_id False (m_tasks s))"

section \<open>Workers\<close>

text \<open>
  Where a worker is in \<open>run\<close>: at the top of its loop, executing a task, inside its idle fiber, or
  out of the loop; and whether its idle fiber has terminated.
\<close>

datatype ('fiber, 'cb) phase =
    At_Top | Executing "('fiber, 'cb) SchedulerTask" | In_Idle | Left_Run

record ('fiber, 'cb) system =
  sched :: "('fiber, 'cb) Scheduler"
  workers :: "int \<rightharpoonup> ('fiber, 'cb) phase"
  idle_term :: "int \<Rightarrow> bool"
  submitted :: "('fiber, 'cb) SchedulerTask multiset"
  completed :: "(int \<times> ('fiber, 'cb) SchedulerTask) multiset"

inductive sched_step :: "('fiber, 'cb) system \<Rightarrow> ('fiber, 'cb) system \<Rightarrow> bool" where
  submit: "schedulerLock task (sched S) = (s', tk) \<Longrightarrow>
    sched_step S (S\<lparr>sched := s', submitted := (if has_work task then add_mset task (submitted S) else submitted S)\<rparr>)"
| take_one: "workers S w = Some At_Top \<Longrightarrow> take_task w (sched S) = Inr (Some t, tk, s') \<Longrightarrow>
    sched_step S (S\<lparr>sched := s', workers := (workers S)(w \<mapsto> Executing t)\<rparr>)"
| complete: "workers S w = Some (Executing t) \<Longrightarrow>
    sched_step S (S\<lparr>sched := (sched S)\<lparr>m_activeThreadCount := m_activeThreadCount (sched S) - 1\<rparr>,
                    workers := (workers S)(w \<mapsto> At_Top), completed := add_mset (w, t) (completed S)\<rparr>)"
| go_idle: "workers S w = Some At_Top \<Longrightarrow> take_task w (sched S) = Inr (None, tk, s') \<Longrightarrow> \<not> idle_term S w \<Longrightarrow>
    sched_step S (S\<lparr>sched := s'\<lparr>m_idleThreadCount := m_idleThreadCount s' + 1\<rparr>,
                    workers := (workers S)(w \<mapsto> In_Idle)\<rparr>)"
| leave_run: "workers S w = Some At_Top \<Longrightarrow> take_task w (sched S) = Inr (None, tk, s') \<Longrightarrow> idle_term S w \<Longrightarrow>
    sched_step S (S\<lparr>sched := s', workers := (workers S)(w \<mapsto> Left_Run)\<rparr>)"
| idle_back: "workers S w = Some In_Idle \<Longrightarrow>
    sched_step S (S\<lparr>sched := (sched S)\<lparr>m_idleThreadCount := m_idleThreadCount (sched S) - 1\<rparr>,
                    workers := (workers S)(w \<mapsto> At_Top),
                    idle_term := (idle_term S)(w := (Scheduler_idle (sched S) = TERM_STATE))\<rparr>)"
| stop_request: "stop is_this (sched S) = Inr (s', tks, res) \<Longrightarrow> sched_step S (S\<lparr>sched := s'\<rparr>)"

text \<open>A freshly made scheduler with any finite set of workers at the top of their loops.\<close>

inductive sched_reach :: "('fiber, 'cb) system \<Rightarrow> bool" where
  sreach_start: "Scheduler_new False tid threads use_caller name = Inr s \<Longrightarrow> finite W \<Longrightarrow>
    sched_reach \<lparr>sched = s, workers = (\<lambda>w. if w \<in> W then Some At_Top else None), idle_term = (\<lambda>_. False),
                 submitted = {#}, completed = {#}\<rparr>"
| sreach_step: "sched_reach S \<Longrightarrow> sched_step S S' \<Longrightarrow> sched_reach S'"

section \<open>Executing a task\<close>

text \<open>
  The part of \<open>run\<close> that executes a task in the worker's thread, up to the switch to the fiber: a
  fiber that has terminated is skipped, a callback gets a fiber of its own.
\<close>

definition run_task :: "(nat, 'cb) SchedulerTask \<Rightarrow> 'cb fiber_thread \<Rightarrow> 'cb fiber_thread res" where
  "run_task task th =
     (case task_fiber task of
        Some f \<Rightarrow> rbind (fiber_at (Some f) th) (\<lambda>x. if m_state x \<noteq> TERM_STATE then resume f th else Inr th)
      | None \<Rightarrow>
          (case task_cb task of
             Some cb \<Rightarrow> (case Fiber_new cb 0 True th of (f, th1) \<Rightarrow> resume f th1)
           | None \<Rightarrow> Inr th))"

text \<open>
  Rounds of the loop of \<open>run\<close> on one worker, up to the first without a task, for tasks that do not
  schedule others themselves: the tasks in the order in which the worker executes them.
\<close>

fun run_rounds :: "nat \<Rightarrow> int \<Rightarrow> ('fiber, 'cb) Scheduler
    \<Rightarrow> (('fiber, 'cb) SchedulerTask list \<times> ('fiber, 'cb) Scheduler) res" where
  "run_rounds 0 thread_id s = Inr ([], s)"
| "run_rounds (Suc n) thread_id s =
     rbind (take_task thread_id s) (\<lambda>(task, _, s1).
       case task of
         None \<Rightarrow> Inr ([], s1)
       | Some t \<Rightarrow> rmap (\<lambda>(ts, s2). (t # ts, s2))
                     (run_rounds n thread_id (s1\<lparr>m_activeThreadCount := m_activeThreadCount s1 - 1\<rparr>)))"

text \<open>
  What the worker relies on: started from its home fiber, a new coroutine gets control, and when it
  ends control is home again with the coroutines still consistent.
\<close>

locale coroutines =
  fixes inv :: "'s \<Rightarrow> bool"
    and current :: "'s \<Rightarrow> nat"
    and home :: "'s \<Rightarrow> nat"
    and launch :: "'cb \<Rightarrow> 's \<Rightarrow> 's res"
    and finish :: "'s \<Rightarrow> 's res"
  assumes launch_finish: "inv s \<Longrightarrow> current s = home s \<Longrightarrow>
    \<exists>s1 s2. launch cb s = Inr s1 \<and> current s1 \<noteq> home s \<and> finish s1 = Inr s2 \<and>
      inv s2 \<and> current s2 = home s \<and> home s2 = home s"
begin

lemma all_return_home:
  assumes "inv s" "current s = home s"
  shows "\<exists>s'. rfold (\<lambda>cb s. rbind (launch cb s) finish) cbs s = Inr s' \<and> inv s' \<and>
    current s' = home s \<and> home s' = home s"
  using assms
proof (induction cbs arbitrary: s)
  case (Cons cb cbs)
  obtain s1 s2 where "launch cb s = Inr s1" "finish s1 = Inr s2" "inv s2" "current s2 = home s" "home s2 = home s"
    using launch_finish [OF Cons.prems] by blast
  with Cons.IH [of s2] show ?case by simp
qed simp

end

lemma launch_cb:
  assumes inv: "fiber_inv th" and home: "flow th = the (t_scheduler_fiber th)"
  shows "\<exists>th1 th2. run_task (SchedulerTask_cb (Some cb) (- 1)) th = Inr th1 \<and> flow th1 \<noteq> flow th \<and>
    MainFunc_end th1 = Inr th2 \<and> fiber_inv th2 \<and> flow th2 = flow th \<and>
    t_scheduler_fiber th2 = t_scheduler_fiber th"
proof -
  obtain f th0 where new: "Fiber_new cb 0 True th = (f, th0)" by fastforce
  obtain sc where sc: "t_scheduler_fiber th = Some sc" using inv by (auto simp: fiber_inv_def)
  obtain x where x: "fibers th0 f = Some x" "m_state x = READY" "m_runInScheduler x" "flow th0 = flow th"
    "t_scheduler_fiber th0 = t_scheduler_fiber th"
    using new by (auto simp: Fiber_new_def Let_def)
  from resume_end_correct [OF fiber_inv_new [OF inv new] _ x(1-3)] x(4,5) home sc show ?thesis
    by (auto simp: run_task_def SchedulerTask_cb_def new)
qed

interpretation worker: coroutines fiber_inv flow "\<lambda>th. the (t_scheduler_fiber th)"
  "\<lambda>cb. run_task (SchedulerTask_cb (Some cb) (- 1))" MainFunc_end
proof (unfold_locales, goal_cases)
  case (1 th cb)
  from launch_cb [OF 1, of cb] 1(2) show ?case by (metis)
qed

text \<open>
  C20: a worker that executes callbacks one after the other, each in a new fiber, is back in its
  scheduling fiber after the last one, whatever their number, and its fibers are consistent.
\<close>

theorem callbacks_return_to_scheduler:
  assumes "fiber_inv th" "t_scheduler_fiber th = Some (flow th)"
  shows "\<exists>th'. rfold (\<lambda>cb th. rbind (run_task (SchedulerTask_cb (Some cb) (- 1)) th) MainFunc_end) cbs th = Inr th' \<and>
    fiber_inv th' \<and> flow th' = flow th \<and> GetFiberId th' = flow th"
proof -
  have "flow th = the (t_scheduler_fiber th)" using assms(2) by simp
  from worker.all_return_home [OF assms(1) this, of cbs] show ?thesis using assms(2)
    by (auto simp: GetFiberId_def fiber_inv_def fiber_ok_def)
qed

theorem callbacks_return_to_scheduler_witness:
  "\<exists>th th' :: nat fiber_thread. flow th' = flow th \<and>
     rfold (\<lambda>cb th. rbind (run_task (SchedulerTask_cb (Some cb) (- 1)) th) MainFunc_end) [7, 8, 9] th = Inr th'"
proof -
  obtain th0 :: "nat fiber_thread" where th0: "GetThis True (fiber_thread_new 0) = Inr (0, th0)"
    "t_scheduler_fiber th0 = Some (flow th0)"
    by (simp add: GetThis_def fiber_thread_new_def Fiber_main_def Let_def)
  with callbacks_return_to_scheduler [OF fiber_reach_inv [OF freach_start [OF th0(1)]] th0(2), of "[7, 8, 9]"]
  show ?thesis by blast
qed

section \<open>The choice of a task\<close>

definition eligible :: "int \<Rightarrow> ('fiber, 'cb) SchedulerTask \<Rightarrow> bool" where
  "eligible w t \<longleftrightarrow> task_thread t = - 1 \<or> task_thread t = w"

lemma pick_correct:
  assumes "\<forall>t \<in> set ts. has_work t"
  shows "(\<exists>pre t post. ts = pre @ t # post \<and> eligible w t \<and> (\<forall>u \<in> set pre. \<not> eligible w u) \<and>
      pick w tk ts = Inr (Some t, pre @ post, tk \<or> pre @ post \<noteq> [])) \<or>
    (\<forall>u \<in> set ts. \<not> eligible w u) \<and> pick w tk ts = Inr (None, ts, tk \<or> ts \<noteq> [])"
  using assms
proof (induction ts arbitrary: tk)
  case (Cons t ts)
  show ?case
  proof (cases "eligible w t")
    case True
    with Cons.prems have "pick w tk (t # ts) = Inr (Some t, [] @ ts, tk \<or> [] @ ts \<noteq> [])"
      by (auto simp: eligible_def)
    with True show ?thesis by (metis append_Nil empty_iff empty_set)
  next
    case False
    then have st: "pick w tk (t # ts) = rmap (\<lambda>(r, rest, tk). (r, t # rest, tk)) (pick w True ts)"
      by (simp add: eligible_def)
    have "\<forall>t \<in> set ts. has_work t" using Cons.prems by simp
    from Cons.IH [OF this, of True] show ?thesis
    proof (elim disjE exE conjE, goal_cases)
      case (1 pre u post)
      with False st show ?case by (intro disjI1 exI [of _ "t # pre"] exI [of _ u] exI [of _ post]) auto
    next
      case 2
      with False st show ?case by (intro disjI2) auto
    qed
  qed
qed simp

lemma take_task_Some:
  assumes "\<forall>t \<in> set (m_tasks s). has_work t" "take_task w s = Inr (Some t, tk, s')"
  shows "eligible w t \<and> mset (m_tasks s) = add_mset t (mset (m_tasks s')) \<and>
    (tk \<longleftrightarrow> m_tasks s' \<noteq> []) \<and> m_activeThreadCount s' = Suc (m_activeThreadCount s) \<and>
    m_idleThreadCount s' = m_idleThreadCount s \<and> m_stopping s' = m_stopping s \<and>
    set (m_tasks s') \<subseteq> set (m_tasks s)"
  using pick_correct [OF assms(1), of w False] assms(2) by (auto simp: take_task_def)

lemma take_task_None:
  assumes "\<forall>t \<in> set (m_tasks s). has_work t" "take_task w s = Inr (None, tk, s')"
  shows "s' = s \<and> (\<forall>u \<in> set (m_tasks s). \<not> eligible w u) \<and> (tk \<longleftrightarrow> m_tasks s \<noteq> [])"
  using pick_correct [OF assms(1), of w False] assms(2) by (auto simp: take_task_def)

text \<open>A worker left alone executes all its tasks in the order of the queue and no others.\<close>

lemma run_rounds_all:
  assumes "\<forall>t \<in> set (m_tasks s). has_work t" "length (filter (eligible w) (m_tasks s)) \<le> n"
  shows "run_rounds n w s =
    Inr (filter (eligible w) (m_tasks s), s\<lparr>m_tasks := filter (\<lambda>t. \<not> eligible w t) (m_tasks s)\<rparr>)"
  using assms
proof (induction n arbitrary: s)
  case 0
  then have "filter (\<lambda>t. \<not> eligible w t) (m_tasks s) = m_tasks s" by (simp add: filter_empty_conv)
  with 0 show ?case by simp
next
  case (Suc n)
  from pick_correct [OF Suc.prems(1), of w False] show ?case
  proof (elim disjE exE conjE, goal_cases)
    case (1 pre t post)
    let ?s = "s\<lparr>m_tasks := pre @ post\<rparr>"
    have pre: "filter (eligible w) pre = []" "filter (\<lambda>t. \<not> eligible w t) pre = pre" using 1(3) by (simp_all add: filter_empty_conv)
    have "run_rounds n w ?s =
        Inr (filter (eligible w) (m_tasks ?s), ?s\<lparr>m_tasks := filter (\<lambda>t. \<not> eligible w t) (m_tasks ?s)\<rparr>)"
      using Suc.prems 1(1,2) pre by (intro Suc.IH) auto
    then show ?case using 1 pre by (simp add: take_task_def)
  next
    case 2
    then have "filter (eligible w) (m_tasks s) = []" "filter (\<lambda>t. \<not> eligible w t) (m_tasks s) = m_tasks s"
      by (simp_all add: filter_empty_conv)
    with 2 show ?case by (simp add: take_task_def)
  qed
qed

section \<open>Accounting\<close>

fun phase_tasks :: "('fiber, 'cb) phase \<Rightarrow> ('fiber, 'cb) SchedulerTask multiset" where
  "phase_tasks (Executing t) = {#t#}"
| "phase_tasks _ = {#}"

definition exec_tasks :: "(int \<rightharpoonup> ('fiber, 'cb) phase) \<Rightarrow> ('fiber, 'cb) SchedulerTask multiset" where
  "exec_tasks ws = (\<Sum>w \<in> dom ws. phase_tasks (the (ws w)))"

definition idlers :: "(int \<rightharpoonup> ('fiber, 'cb) phase) \<Rightarrow> nat" where
  "idlers ws = (\<Sum>w \<in> dom ws. if ws w = Some In_Idle then 1 else 0)"

lemma sum_dom_update:
  fixes g :: "'p \<Rightarrow> 'a::comm_monoid_add"
  assumes "finite (dom ws)" "ws w = Some q"
  shows "(\<Sum>v \<in> dom (ws(w \<mapsto> p)). g (the ((ws(w \<mapsto> p)) v))) + g q = (\<Sum>v \<in> dom ws. g (the (ws v))) + g p"
proof -
  have w: "w \<in> dom ws" "dom (ws(w \<mapsto> p)) = dom ws" using assms(2) by auto
  have "(\<Sum>v \<in> dom ws - {w}. g (the ((ws(w \<mapsto> p)) v))) = (\<Sum>v \<in> dom ws - {w}. g (the (ws v)))"
    by (rule sum.cong) auto
  then show ?thesis
    unfolding w(2) using sum.remove [OF assms(1) w(1), of "\<lambda>v. g (the ((ws(w \<mapsto> p)) v))"]
      sum.remove [OF assms(1) w(1), of "\<lambda>v. g (the (ws v))"] assms(2)
    by (simp add: add.commute add.left_commute)
qed

lemma exec_tasks_update:
  "finite (dom ws) \<Longrightarrow> ws w = Some q \<Longrightarrow>
   exec_tasks (ws(w \<mapsto> p)) + phase_tasks q = exec_tasks ws + phase_tasks p"
  unfolding exec_tasks_def by (rule sum_dom_update)

lemma idlers_alt: "idlers ws = (\<Sum>w \<in> dom ws. (\<lambda>p. if p = In_Idle then 1 else 0) (the (ws w)))"
  unfolding idlers_def by (rule sum.cong) auto

lemma idlers_update:
  "finite (dom ws) \<Longrightarrow> ws w = Some q \<Longrightarrow>
   idlers (ws(w \<mapsto> p)) + (if q = In_Idle then 1 else 0) = idlers ws + (if p = In_Idle then 1 else 0)"
  unfolding idlers_alt by (rule sum_dom_update)

lemma exec_tasks_empty:
  assumes "finite (dom ws)" "exec_tasks ws = {#}"
  shows "ws w \<noteq> Some (Executing t)"
proof
  assume "ws w = Some (Executing t)"
  with exec_tasks_update [OF assms(1) this, of At_Top] assms(2) show False by simp
qed

text \<open>
  Every submitted task is queued, being executed or completed, and counted once; the counters agree
  with what the workers do; a task that names a thread is executed by that one; a worker's idle fiber
  terminates, and the worker leaves, only after a stop request.
\<close>

definition sched_inv :: "('fiber, 'cb) system \<Rightarrow> bool" where
  "sched_inv S \<longleftrightarrow> finite (dom (workers S)) \<and> (\<forall>t \<in> set (m_tasks (sched S)). has_work t) \<and>
     submitted S = mset (m_tasks (sched S)) + exec_tasks (workers S) + image_mset snd (completed S) \<and>
     m_activeThreadCount (sched S) = size (exec_tasks (workers S)) \<and>
     m_idleThreadCount (sched S) = idlers (workers S) \<and>
     (\<forall>w t. workers S w = Some (Executing t) \<longrightarrow> eligible w t) \<and>
     (\<forall>w t. (w, t) \<in># completed S \<longrightarrow> eligible w t) \<and>
     (\<forall>w. idle_term S w \<or> workers S w = Some Left_Run \<longrightarrow> m_stopping (sched S))"

lemma sched_inv_submit:
  assumes "sched_inv S" "schedulerLock task (sched S) = (s', tk)"
  shows "sched_inv (S\<lparr>sched := s', submitted := (if has_work task then add_mset task (submitted S) else submitted S)\<rparr>)"
  using assms by (auto simp: sched_inv_def schedulerLock_def Let_def)

lemma sched_inv_take:
  assumes inv: "sched_inv S" and w: "workers S w = Some At_Top"
    and t: "take_task w (sched S) = Inr (Some t, tk, s')"
  shows "sched_inv (S\<lparr>sched := s', workers := (workers S)(w \<mapsto> Executing t)\<rparr>)"
proof -
  have fin: "finite (dom (workers S))" and work: "\<forall>t \<in> set (m_tasks (sched S)). has_work t"
    using inv by (auto simp: sched_inv_def)
  note u = exec_tasks_update [OF fin w, of "Executing t", simplified]
    idlers_update [OF fin w, of "Executing t", simplified]
  show ?thesis using inv take_task_Some [OF work t] fin work u
    by (auto simp: sched_inv_def split: if_splits)
qed

lemma sched_inv_complete:
  assumes inv: "sched_inv S" and w: "workers S w = Some (Executing t)"
  shows "sched_inv (S\<lparr>sched := (sched S)\<lparr>m_activeThreadCount := m_activeThreadCount (sched S) - 1\<rparr>,
    workers := (workers S)(w \<mapsto> At_Top), completed := add_mset (w, t) (completed S)\<rparr>)"
proof -
  have fin: "finite (dom (workers S))" using inv by (auto simp: sched_inv_def)
  note u = exec_tasks_update [OF fin w, of At_Top, simplified, symmetric]
    idlers_update [OF fin w, of At_Top, simplified]
  show ?thesis using inv fin u w by (auto simp: sched_inv_def split: if_splits)
qed

lemma sched_inv_idle:
  assumes inv: "sched_inv S" and w: "workers S w = Some At_Top"
    and t: "take_task w (sched S) = Inr (None, tk, s')"
  shows "sched_inv (S\<lparr>sched := s'\<lparr>m_idleThreadCount := m_idleThreadCount s' + 1\<rparr>, workers := (workers S)(w \<mapsto> In_Idle)\<rparr>)"
    and "idle_term S w \<Longrightarrow> sched_inv (S\<lparr>sched := s', workers := (workers S)(w \<mapsto> Left_Run)\<rparr>)"
proof -
  have fin: "finite (dom (workers S))" and work: "\<forall>t \<in> set (m_tasks (sched S)). has_work t"
    using inv by (auto simp: sched_inv_def)
  note s' = conjunct1 [OF take_task_None [OF work t]]
  note u = exec_tasks_update [OF fin w, of In_Idle, simplified] idlers_update [OF fin w, of In_Idle, simplified]
    exec_tasks_update [OF fin w, of Left_Run, simplified] idlers_update [OF fin w, of Left_Run, simplified]
  show "sched_inv (S\<lparr>sched := s'\<lparr>m_idleThreadCount := m_idleThreadCount s' + 1\<rparr>, workers := (workers S)(w \<mapsto> In_Idle)\<rparr>)"
    using inv fin u s' by (auto simp: sched_inv_def split: if_splits)
  show "sched_inv (S\<lparr>sched := s', workers := (workers S)(w \<mapsto> Left_Run)\<rparr>)" if "idle_term S w"
    using inv fin u s' that by (auto simp: sched_inv_def split: if_splits)
qed

lemma sched_inv_idle_back:
  assumes inv: "sched_inv S" and w: "workers S w = Some In_Idle"
  shows "sched_inv (S\<lparr>sched := (sched S)\<lparr>m_idleThreadCount := m_idleThreadCount (sched S) - 1\<rparr>,
    workers := (workers S)(w \<mapsto> At_Top), idle_term := (idle_term S)(w := (Scheduler_idle (sched S) = TERM_STATE))\<rparr>)"
proof -
  have fin: "finite (dom (workers S))" using inv by (auto simp: sched_inv_def)
  note u = exec_tasks_update [OF fin w, of At_Top, simplified]
    idlers_update [OF fin w, of At_Top, simplified, symmetric]
  show ?thesis using inv fin u w by (auto simp: sched_inv_def Scheduler_idle_def stopping_def split: if_splits)
qed

lemma sched_inv_stop:
  "sched_inv S \<Longrightarrow> stop is_this (sched S) = Inr (s', tks, res) \<Longrightarrow> sched_inv (S\<lparr>sched := s'\<rparr>)"
  by (auto simp: sched_inv_def stop_def request_stop_def Let_def split: if_splits)

lemma sched_step_inv: "sched_step S S' \<Longrightarrow> sched_inv S \<Longrightarrow> sched_inv S'"
  by (induction rule: sched_step.induct)
    (blast intro: sched_inv_submit sched_inv_take sched_inv_complete sched_inv_idle sched_inv_idle_back
      sched_inv_stop)+

lemma sched_reach_inv: "sched_reach S \<Longrightarrow> sched_inv S"
proof (induction rule: sched_reach.induct)
  case (sreach_start tid threads use_caller name s W)
  have dom: "dom (\<lambda>w. if w \<in> W then Some At_Top else None) = W" by (auto split: if_splits)
  from sreach_start show ?case
    by (auto simp: sched_inv_def Scheduler_new_def exec_tasks_def idlers_def dom split: if_splits)
qed (rule sched_step_inv)

text \<open>A scheduler of one worker after a stop request, for the instances below.\<close>

lemma sample_reach:
  obtains S :: "(nat, nat) system" where "sched_reach S" "m_tasks (sched S) = []" "stopping (sched S)"
    "workers S 5 = Some At_Top"
proof -
  obtain s :: "(nat, nat) Scheduler" where s: "Scheduler_new False 5 1 True ''io'' = Inr s"
    "m_tasks s = []" "m_activeThreadCount s = 0" "\<not> m_stopping s" "m_useCaller s"
    by (simp add: Scheduler_new_def)
  let ?S = "\<lparr>sched = s, workers = (\<lambda>w. if w \<in> {5} then Some At_Top else None), idle_term = (\<lambda>_. False),
    submitted = {#}, completed = {#}\<rparr>"
  obtain tks res where st: "stop True (sched ?S) = Inr (s\<lparr>m_stopping := True\<rparr>, tks, res)"
    using s by (simp add: stop_def request_stop_def stopping_def Let_def)
  have "sched_reach (?S\<lparr>sched := s\<lparr>m_stopping := True\<rparr>\<rparr>)"
    by (rule sreach_step [OF sreach_start [OF s(1)] stop_request [OF st]]) simp
  then show thesis by (rule that) (use s in \<open>simp_all add: stopping_def\<close>)
qed

section \<open>Shutting down\<close>

text \<open>The steps of one worker that has nothing to do.\<close>

inductive worker_steps :: "int \<Rightarrow> ('fiber, 'cb) system \<Rightarrow> ('fiber, 'cb) system \<Rightarrow> bool" for w where
  worker_refl: "worker_steps w S S"
| worker_step: "worker_steps w S S' \<Longrightarrow> sched_step S' S'' \<Longrightarrow> (\<forall>v. v \<noteq> w \<longrightarrow> workers S'' v = workers S' v) \<Longrightarrow>
    submitted S'' = submitted S' \<Longrightarrow> worker_steps w S S''"

lemma take_task_empty: "m_tasks s = [] \<Longrightarrow> take_task w s = Inr (None, False, s)"
  by (simp add: take_task_def)

text \<open>Once the scheduler is stopping it stays so, whatever the workers do, as long as nothing is submitted.\<close>

lemma stopping_stable:
  assumes "sched_inv S" "stopping (sched S)" "sched_step S S'" "submitted S' = submitted S"
  shows "stopping (sched S') \<and> completed S' = completed S"
  using assms(3)
proof (cases rule: sched_step.cases)
  case (submit task s' tk)
  with assms(2,4) show ?thesis by (auto simp: schedulerLock_def Let_def split: if_splits)
next
  case (take_one w t tk s')
  with assms(2) show ?thesis by (simp add: take_task_empty stopping_def)
next
  case (complete w t)
  then show ?thesis using assms(1,2) exec_tasks_empty [of "workers S" w t] by (simp add: sched_inv_def stopping_def)
next
  case (stop_request is_this s' tks res)
  with assms(2) show ?thesis by (simp add: stop_def)
qed (use assms(2) in \<open>auto simp: take_task_empty stopping_def\<close>)

text \<open>
  A worker of a stopping scheduler that is at the top of its loop or idle leaves the loop by its own
  steps.
\<close>

lemma worker_leaves_top:
  assumes "stopping (sched S)" "workers S w = Some At_Top" "idle_term S w"
  shows "\<exists>S'. worker_steps w S S' \<and> workers S' w = Some Left_Run"
proof -
  have t: "take_task w (sched S) = Inr (None, False, sched S)" using assms(1) by (simp add: take_task_empty stopping_def)
  show ?thesis
    using worker_step [OF worker_refl leave_run [OF assms(2) t assms(3)]] by fastforce
qed

lemma worker_steps_trans: "worker_steps w S S' \<Longrightarrow> worker_steps w S' S'' \<Longrightarrow> worker_steps w S S''"
  by (rotate_tac, induction rule: worker_steps.induct) (blast intro: worker_step)+

lemma worker_leaves_idle:
  assumes "stopping (sched S)" "workers S w = Some In_Idle"
  shows "\<exists>S'. worker_steps w S S' \<and> workers S' w = Some Left_Run"
proof -
  let ?S = "S\<lparr>sched := (sched S)\<lparr>m_idleThreadCount := m_idleThreadCount (sched S) - 1\<rparr>, workers := (workers S)(w \<mapsto> At_Top),
    idle_term := (idle_term S)(w := (Scheduler_idle (sched S) = TERM_STATE))\<rparr>"
  have "worker_steps w S ?S" by (rule worker_step [OF worker_refl idle_back [OF assms(2)]]) auto
  moreover have "\<exists>S'. worker_steps w ?S S' \<and> workers S' w = Some Left_Run"
    using assms(1) by (intro worker_leaves_top) (auto simp: stopping_def Scheduler_idle_def)
  ultimately show ?thesis by (blast intro: worker_steps_trans)
qed

lemma worker_leaves:
  assumes "stopping (sched S)" "workers S w = Some At_Top \<or> workers S w = Some In_Idle"
  shows "\<exists>S'. worker_steps w S S' \<and> workers S' w = Some Left_Run"
proof (cases "workers S w = Some At_Top \<and> \<not> idle_term S w")
  case True
  have t: "take_task w (sched S) = Inr (None, False, sched S)" using assms(1) by (simp add: take_task_empty stopping_def)
  let ?S = "S\<lparr>sched := (sched S)\<lparr>m_idleThreadCount := m_idleThreadCount (sched S) + 1\<rparr>, workers := (workers S)(w \<mapsto> In_Idle)\<rparr>"
  have "worker_steps w S ?S" using True by (intro worker_step [OF worker_refl go_idle [OF _ t]]) auto
  moreover have "\<exists>S'. worker_steps w ?S S' \<and> workers S' w = Some Left_Run"
    using assms(1) by (intro worker_leaves_idle) (auto simp: stopping_def)
  ultimately show ?thesis by (blast intro: worker_steps_trans)
qed (use assms worker_leaves_top worker_leaves_idle in blast)

section \<open>What the scheduler promises\<close>

text \<open>
  C4: in every state that any interleaving of submissions, workers and stop requests can reach, each
  submitted task is in exactly one place (queued, being executed, or completed, with multiplicity),
  the active and idle counters equal the numbers of workers that execute a task and that are idle, a
  task bound to a thread has been taken by no other one, and a worker has left its loop only if a
  stop was requested.
\<close>

theorem tasks_conserved:
  assumes "sched_reach S"
  shows "submitted S = mset (m_tasks (sched S)) + exec_tasks (workers S) + image_mset snd (completed S) \<and>
    m_activeThreadCount (sched S) = size (exec_tasks (workers S)) \<and>
    m_idleThreadCount (sched S) = idlers (workers S) \<and>
    (\<forall>w t. workers S w = Some (Executing t) \<or> (w, t) \<in># completed S \<longrightarrow> task_thread t = - 1 \<or> task_thread t = w) \<and>
    (\<forall>w. workers S w = Some Left_Run \<longrightarrow> m_stopping (sched S))"
  using sched_reach_inv [OF assms] by (auto simp: sched_inv_def eligible_def)

theorem tasks_conserved_witness:
  "\<exists>S :: (nat, nat) system. workers S 5 = Some At_Top \<and>
     m_activeThreadCount (sched S) = size (exec_tasks (workers S))"
proof -
  obtain S :: "(nat, nat) system" where S: "sched_reach S" "workers S 5 = Some At_Top"
    using sample_reach by blast
  with tasks_conserved [OF S(1)] show ?thesis by blast
qed

lemma stopping_all_done:
  assumes "sched_inv S" "stopping (sched S)"
  shows "image_mset snd (completed S) = submitted S" "workers S w \<noteq> Some (Executing t)"
proof -
  have "exec_tasks (workers S) = {#}" using assms by (auto simp: sched_inv_def stopping_def)
  then show "image_mset snd (completed S) = submitted S" "workers S w \<noteq> Some (Executing t)"
    using assms exec_tasks_empty [of "workers S"] by (auto simp: sched_inv_def stopping_def)
qed

lemma worker_steps_stopping:
  "worker_steps w S S' \<Longrightarrow> sched_inv S \<Longrightarrow> stopping (sched S) \<Longrightarrow>
   sched_inv S' \<and> stopping (sched S') \<and> completed S' = completed S"
proof (induction rule: worker_steps.induct)
  case (worker_step S S' S'')
  then show ?case using sched_step_inv [of S' S''] stopping_stable [of S' S''] by simp
qed simp

text \<open>
  C19: \<open>stopping()\<close> holds only when every task submitted so far has been executed to its end, so the
  workers leave no work behind; and then the scheduler can be shut down: every worker, wherever it is,
  leaves its loop after finitely many steps of its own, the scheduler is still stopping, and its destructor
  passes its assertion and clears the pointer of the thread.
\<close>

theorem shutdown_completes:
  assumes "sched_reach S" "stopping (sched S)" "workers S w = Some p"
  shows "image_mset snd (completed S) = submitted S \<and>
    (\<exists>S'. worker_steps w S S' \<and> workers S' w = Some Left_Run \<and> stopping (sched S') \<and> completed S' = completed S \<and>
      Scheduler_delete this (Scheduler_SetThis this t) (sched S') = Inr None)"
proof -
  have inv: "sched_inv S" using assms(1) by (rule sched_reach_inv)
  have "\<exists>S'. worker_steps w S S' \<and> workers S' w = Some Left_Run"
    using assms(2,3) stopping_all_done(2) [OF inv assms(2), of w] worker_leaves [of S w] worker_refl [of w S]
    by (cases p) auto
  then obtain S' where S': "worker_steps w S S'" "workers S' w = Some Left_Run" by blast
  moreover have "stopping (sched S')" "completed S' = completed S"
    using worker_steps_stopping [OF S'(1) inv assms(2)] by auto
  ultimately show ?thesis using stopping_all_done(1) [OF inv assms(2)]
    by (auto simp: Scheduler_delete_def Scheduler_SetThis_def)
qed

theorem shutdown_completes_witness:
  "\<exists>(S :: (nat, nat) system) (S' :: (nat, nat) system). workers S 5 = Some At_Top \<and> stopping (sched S) \<and> workers S' 5 = Some Left_Run \<and>
     Scheduler_delete 1 (Scheduler_SetThis 1 None) (sched S') = Inr None"
proof -
  obtain S :: "(nat, nat) system" where S: "sched_reach S" "stopping (sched S)" "workers S 5 = Some At_Top"
    using sample_reach by blast
  with shutdown_completes [OF S, of 1 None] show ?thesis by blast
qed

text \<open>
  A worker takes the first task of the queue that names no thread or its own, leaves the others
  in their order, and wakes another worker exactly when tasks remain; if there is none the queue is
  unchanged. The assertion on empty tasks never fails for queues that \<open>schedulerLock\<close> has built.
\<close>

lemma worker_takes_first_eligible:
  assumes "\<forall>t \<in> set (m_tasks s). has_work t"
  shows "(\<exists>pre t post. m_tasks s = pre @ t # post \<and> eligible w t \<and> (\<forall>u \<in> set pre. \<not> eligible w u) \<and>
      take_task w s = Inr (Some t, pre @ post \<noteq> [],
        s\<lparr>m_tasks := pre @ post, m_activeThreadCount := m_activeThreadCount s + 1\<rparr>)) \<or>
    (\<forall>u \<in> set (m_tasks s). \<not> eligible w u) \<and> take_task w s = Inr (None, m_tasks s \<noteq> [], s)"
  using pick_correct [OF assms, of w False]
proof (elim disjE exE conjE, goal_cases)
  case (1 pre t post)
  then show ?case
    by (intro disjI1 exI [of _ pre] exI [of _ t] exI [of _ post]) (simp add: take_task_def)
next
  case 2
  then show ?case by (intro disjI2) (simp add: take_task_def)
qed

lemma worker_takes_first_eligible_witness:
  "\<exists>s :: (nat, nat) Scheduler. length (m_tasks s) = 2 \<and> (\<exists>t s'. take_task 5 s = Inr (Some t, True, s'))"
proof -
  obtain s :: "(nat, nat) Scheduler" where "Scheduler_new False 5 1 True ''io'' = Inr s"
    by (simp add: Scheduler_new_def)
  define q where "q = s\<lparr>m_tasks := [SchedulerTask_fiber (Some 1) 6, SchedulerTask_cb (Some 2) (- 1)]\<rparr>"
  have work: "\<forall>t \<in> set (m_tasks q). has_work t"
    by (simp add: q_def has_work_def SchedulerTask_fiber_def SchedulerTask_cb_def)
  have two: "m_tasks q = [SchedulerTask_fiber (Some 1) 6, SchedulerTask_cb (Some 2) (- 1)]"
    "eligible 5 (SchedulerTask_cb (Some 2) (- 1) :: (nat, nat) SchedulerTask)"
    by (simp_all add: q_def eligible_def SchedulerTask_cb_def)
  from worker_takes_first_eligible [OF work, of 5] have "\<exists>t s'. take_task 5 q = Inr (Some t, True, s')"
  proof (elim disjE exE conjE, goal_cases)
    case (1 pre t post)
    then have "length (pre @ post) = 1" using two(1) by (metis One_nat_def Suc_inject add_Suc_right
          length_Cons length_append list.size(3))
    then have "pre @ post \<noteq> []" by auto
    with 1 show ?case by simp
  next
    case 2
    with two show ?case by simp
  qed
  with two(1) show ?thesis by (intro exI [of _ q]) simp
qed

end
