(* ===== verification/Timer.thy ===== *)
theory Timer
  imports Dag_Prelude
begin

text \<open>
  The timers of \<open>dag/timer.cpp\<close>: \<open>Timer\<close> and \<open>TimerManager\<close>. A \<open>shared_ptr<Timer>\<close> is an index into
  the field \<open>tm_heap\<close> that holds the timer objects; \<open>m_timers\<close>, a \<open>std::set\<close> ordered by
  \<open>Comparator\<close>, is the list of its elements in order. As in the library, two elements that the
  comparator does not order are the same to the set: \<open>find\<close> returns whichever has the deadline
  asked for and \<open>insert\<close> refuses a second one. Each operation runs under the lock of the manager;
  the clock readings it makes are arguments, in nanoseconds since the epoch. Deadlines are
  mathematical integers: they agree with \<open>std::chrono\<close> as long as \<open>m_ms\<close> stays below about
  \<open>9 * 10 ^ 12\<close> (292 years), where the conversion to nanoseconds would overflow.
\<close>

section \<open>State\<close>

text \<open>
  A callback is a plain function or the binding of \<open>OnTimer\<close> that \<open>addConditionTimer\<close> makes from a
  weak pointer; the null function is \<open>None\<close>.
\<close>

datatype 'f callback = Plain 'f | Bound_OnTimer nat 'f

record 'f Timer =
  m_recurring :: bool
  m_ms :: nat
  m_next :: int
  m_cb :: "'f callback option"

record 'f TimerManager =
  m_timers :: "nat list"
  m_tickled :: bool
  m_previouseTime :: int
  tm_heap :: "nat \<rightharpoonup> 'f Timer"
  tm_fresh :: nat

definition milliseconds :: "nat \<Rightarrow> int" where
  "milliseconds ms = int ms * 1000000"

definition due :: "(nat \<rightharpoonup> 'f Timer) \<Rightarrow> nat \<Rightarrow> int" where
  "due h t = (case h t of Some x \<Rightarrow> m_next x | None \<Rightarrow> 0)"

abbreviation deadline :: "'f TimerManager \<Rightarrow> nat \<Rightarrow> int" where
  "deadline tm \<equiv> due (tm_heap tm)"

definition Timer_new :: "nat \<Rightarrow> 'f callback \<Rightarrow> bool \<Rightarrow> int \<Rightarrow> 'f Timer" where
  "Timer_new ms cb recurring now =
     \<lparr>m_recurring = recurring, m_ms = ms, m_next = now + milliseconds ms, m_cb = Some cb\<rparr>"

definition TimerManager_new :: "int \<Rightarrow> 'f TimerManager" where
  "TimerManager_new now =
     \<lparr>m_timers = [], m_tickled = False, m_previouseTime = now, tm_heap = Map.empty, tm_fresh = 0\<rparr>"

section \<open>The ordered set\<close>

definition Comparator :: "(nat \<Rightarrow> int) \<Rightarrow> nat \<Rightarrow> nat \<Rightarrow> bool" where
  "Comparator key lhs rhs = (key lhs < key rhs)"

definition set_find :: "(nat \<Rightarrow> int) \<Rightarrow> nat \<Rightarrow> nat list \<Rightarrow> nat option" where
  "set_find key t ts = find (\<lambda>s. \<not> Comparator key s t \<and> \<not> Comparator key t s) ts"

text \<open>The new set and the element the returned iterator points to.\<close>

fun set_insert :: "(nat \<Rightarrow> int) \<Rightarrow> nat \<Rightarrow> nat list \<Rightarrow> nat list \<times> nat" where
  "set_insert key t [] = ([t], t)"
| "set_insert key t (s # ss) =
     (if Comparator key t s then (t # s # ss, t)
      else if Comparator key s t then (let (ss', it) = set_insert key t ss in (s # ss', it))
      else (s # ss, s))"

section \<open>Operations of the manager\<close>

definition addTimer_ptr :: "nat \<Rightarrow> 'f TimerManager \<Rightarrow> 'f TimerManager \<times> bool" where
  "addTimer_ptr t tm =
     (let (ts, it) = set_insert (deadline tm) t (m_timers tm);
          at_front = (ts \<noteq> [] \<and> it = hd ts \<and> \<not> m_tickled tm)
      in (tm\<lparr>m_timers := ts, m_tickled := (if at_front then True else m_tickled tm)\<rparr>, at_front))"

definition addTimer ::
  "nat \<Rightarrow> 'f callback \<Rightarrow> bool \<Rightarrow> int \<Rightarrow> 'f TimerManager \<Rightarrow> nat \<times> 'f TimerManager \<times> bool" where
  "addTimer ms cb recurring now tm =
     (let t = tm_fresh tm;
          tm' = tm\<lparr>tm_heap := (tm_heap tm)(t \<mapsto> Timer_new ms cb recurring now), tm_fresh := Suc t\<rparr>
      in (t, addTimer_ptr t tm'))"

definition addConditionTimer ::
  "nat \<Rightarrow> 'f \<Rightarrow> nat \<Rightarrow> bool \<Rightarrow> int \<Rightarrow> 'f TimerManager \<Rightarrow> nat \<times> 'f TimerManager \<times> bool" where
  "addConditionTimer ms cb weak_cond recurring now tm =
     addTimer ms (Bound_OnTimer weak_cond cb) recurring now tm"

text \<open>Calling a callback: which functions run, given the objects that are still alive.\<close>

fun OnTimer :: "(nat \<Rightarrow> bool) \<Rightarrow> 'f callback \<Rightarrow> 'f list" where
  "OnTimer alive (Plain f) = [f]"
| "OnTimer alive (Bound_OnTimer weak_cond f) = (if alive weak_cond then [f] else [])"

definition no_timer :: nat where
  "no_timer = 2 ^ 64 - 1"

definition getNextTimer :: "int \<Rightarrow> 'f TimerManager \<Rightarrow> nat \<times> 'f TimerManager" where
  "getNextTimer now tm =
     (let tm' = tm\<lparr>m_tickled := False\<rparr> in
      case m_timers tm' of
        [] \<Rightarrow> (no_timer, tm')
      | t # _ \<Rightarrow> if now \<ge> deadline tm' t then (0, tm')
                 else (nat ((deadline tm' t - now) div 1000000), tm'))"

definition hasTimer :: "'f TimerManager \<Rightarrow> bool" where
  "hasTimer tm = (m_timers tm \<noteq> [])"

definition detectClockRollover :: "int \<Rightarrow> 'f TimerManager \<Rightarrow> bool \<times> 'f TimerManager" where
  "detectClockRollover now tm =
     (now < m_previouseTime tm - milliseconds (60 * 60 * 1000), tm\<lparr>m_previouseTime := now\<rparr>)"

text \<open>One round of the loop of \<open>listExpiredCb\<close> on the first timer, and the loop.\<close>

definition expire_front :: "int \<Rightarrow> 'f TimerManager \<Rightarrow> 'f callback option \<times> 'f TimerManager" where
  "expire_front now tm =
     (let temp = hd (m_timers tm);
          x = the (tm_heap tm temp);
          tm1 = tm\<lparr>m_timers := tl (m_timers tm)\<rparr>
      in if m_recurring x then
           let tm2 = tm1\<lparr>tm_heap := (tm_heap tm1)(temp \<mapsto> x\<lparr>m_next := now + milliseconds (m_ms x)\<rparr>)\<rparr>
           in (m_cb x, tm2\<lparr>m_timers := fst (set_insert (deadline tm2) temp (m_timers tm2))\<rparr>)
         else (m_cb x, tm1\<lparr>tm_heap := (tm_heap tm1)(temp \<mapsto> x\<lparr>m_cb := None\<rparr>)\<rparr>))"

partial_function (option) listExpired_loop ::
  "bool \<Rightarrow> int \<Rightarrow> 'f callback option list \<Rightarrow> 'f TimerManager
     \<Rightarrow> ('f callback option list \<times> 'f TimerManager) option" where
  "listExpired_loop rollover now cbs tm =
     (if m_timers tm \<noteq> [] \<and> rollover \<or> m_timers tm \<noteq> [] \<and> deadline tm (hd (m_timers tm)) \<le> now
      then case expire_front now tm of (cb, tm') \<Rightarrow> listExpired_loop rollover now (cbs @ [cb]) tm'
      else Some (cbs, tm))"

text \<open>The function reads the clock twice: before it takes the lock and in \<open>detectClockRollover\<close>.\<close>

definition listExpiredCb ::
  "int \<Rightarrow> int \<Rightarrow> 'f TimerManager \<Rightarrow> ('f callback option list \<times> 'f TimerManager) option" where
  "listExpiredCb now now' tm =
     (case detectClockRollover now' tm of (rollover, tm') \<Rightarrow> listExpired_loop rollover now [] tm')"

section \<open>Operations of a timer\<close>

definition cancel :: "nat \<Rightarrow> 'f TimerManager \<Rightarrow> bool \<times> 'f TimerManager" where
  "cancel t tm =
     (let x = the (tm_heap tm t) in
      if m_cb x = None then (False, tm)
      else let tm' = tm\<lparr>tm_heap := (tm_heap tm)(t \<mapsto> x\<lparr>m_cb := None\<rparr>)\<rparr> in
        case set_find (deadline tm') t (m_timers tm') of
          Some it \<Rightarrow> (True, tm'\<lparr>m_timers := remove1 it (m_timers tm')\<rparr>)
        | None \<Rightarrow> (True, tm'))"

definition refresh :: "nat \<Rightarrow> int \<Rightarrow> 'f TimerManager \<Rightarrow> bool \<times> 'f TimerManager" where
  "refresh t now tm =
     (let x = the (tm_heap tm t) in
      if m_cb x = None then (False, tm)
      else case set_find (deadline tm) t (m_timers tm) of
          None \<Rightarrow> (False, tm)
        | Some it \<Rightarrow>
            let tm1 = tm\<lparr>m_timers := remove1 it (m_timers tm),
                         tm_heap := (tm_heap tm)(t \<mapsto> x\<lparr>m_next := now + milliseconds (m_ms x)\<rparr>)\<rparr>
            in (True, tm1\<lparr>m_timers := fst (set_insert (deadline tm1) t (m_timers tm1))\<rparr>))"

definition reset :: "nat \<Rightarrow> nat \<Rightarrow> bool \<Rightarrow> int \<Rightarrow> 'f TimerManager \<Rightarrow> bool \<times> 'f TimerManager \<times> bool" where
  "reset t ms from_now now tm =
     (let x = the (tm_heap tm t) in
      if ms = m_ms x \<and> \<not> from_now then (True, tm, False)
      else if m_cb x = None then (False, tm, False)
      else case set_find (deadline tm) t (m_timers tm) of
          None \<Rightarrow> (False, tm, False)
        | Some it \<Rightarrow>
            let start = (if from_now then now else m_next x - milliseconds (m_ms x));
                tm1 = tm\<lparr>m_timers := remove1 it (m_timers tm),
                         tm_heap := (tm_heap tm)(t \<mapsto> x\<lparr>m_ms := ms, m_next := start + milliseconds ms\<rparr>)\<rparr>
            in (True, addTimer_ptr t tm1))"

section \<open>Invariant\<close>

text \<open>
  The set is strictly ordered by deadline, and its elements are live objects that still have their
  callback.
\<close>

definition timers_ok :: "nat list \<Rightarrow> (nat \<rightharpoonup> 'f Timer) \<Rightarrow> nat \<Rightarrow> bool" where
  "timers_ok ts h n \<longleftrightarrow> sorted_wrt (Comparator (due h)) ts \<and>
     (\<forall>t \<in> set ts. \<exists>x. h t = Some x \<and> m_cb x \<noteq> None) \<and> (\<forall>t. n \<le> t \<longrightarrow> h t = None)"

abbreviation tm_inv :: "'f TimerManager \<Rightarrow> bool" where
  "tm_inv tm \<equiv> timers_ok (m_timers tm) (tm_heap tm) (tm_fresh tm)"

definition expired :: "int \<Rightarrow> 'f TimerManager \<Rightarrow> nat list" where
  "expired now tm = takeWhile (\<lambda>t. deadline tm t \<le> now) (m_timers tm)"

definition periods_positive :: "'f TimerManager \<Rightarrow> bool" where
  "periods_positive tm \<longleftrightarrow> (\<forall>t x. tm_heap tm t = Some x \<longrightarrow> m_recurring x \<longrightarrow> 0 < m_ms x)"

section \<open>Facts on the ordered set\<close>

lemma due_update [simp]: "due (h(t \<mapsto> x)) = (due h)(t := m_next x)"
  by (auto simp: due_def fun_eq_iff)

lemma due_same: "h t = Some x \<Longrightarrow> (due h)(t := m_next x) = due h"
  by (auto simp: due_def fun_eq_iff)

lemma sorted_key_inj:
  assumes "sorted_wrt (Comparator key) ts" "s \<in> set ts" "t \<in> set ts" "key s = key t"
  shows "s = t"
  using assms by (induction ts) (auto simp: Comparator_def)

lemma sorted_key_distinct: "sorted_wrt (Comparator key) ts \<Longrightarrow> distinct ts"
  by (induction ts) (auto simp: Comparator_def)

lemma sorted_key_cong:
  "(\<And>s. s \<in> set ts \<Longrightarrow> key s = key' s) \<Longrightarrow>
   sorted_wrt (Comparator key) ts = sorted_wrt (Comparator key') ts"
  by (induction ts) (auto simp: Comparator_def)

lemma sorted_key_remove1: "sorted_wrt (Comparator key) ts \<Longrightarrow> sorted_wrt (Comparator key) (remove1 t ts)"
  by (induction ts) (auto dest: notin_set_remove1)

lemma set_find_Some:
  "set_find key t ts = Some s \<Longrightarrow> s \<in> set ts \<and> key s = key t"
  by (induction ts) (auto simp: set_find_def Comparator_def split: if_splits)

lemma set_find_None: "set_find key t ts = None \<longleftrightarrow> (\<forall>s \<in> set ts. key s \<noteq> key t)"
  by (auto simp: set_find_def find_None_iff Comparator_def not_less) (metis order.eq_iff)

lemma set_find_member:
  assumes "sorted_wrt (Comparator key) ts" "t \<in> set ts"
  shows "set_find key t ts = Some t"
proof (cases "set_find key t ts")
  case None
  with assms(2) show ?thesis by (auto simp: set_find_None)
next
  case (Some s)
  with set_find_Some [OF Some] sorted_key_inj [OF assms(1) _ assms(2)] show ?thesis by auto
qed

lemma set_insert_set:
  "set (fst (set_insert key t ts)) =
     (if \<exists>s \<in> set ts. key s = key t then set ts else insert t (set ts))"
  if "sorted_wrt (Comparator key) ts"
  using that by (induction ts) (auto simp: Comparator_def split: prod.splits if_splits)

lemma set_insert_subset: "set (fst (set_insert key t ts)) \<subseteq> insert t (set ts)"
  by (induction ts) (auto split: prod.splits)

lemma set_insert_sorted:
  assumes "sorted_wrt (Comparator key) ts"
  shows "sorted_wrt (Comparator key) (fst (set_insert key t ts))"
  using assms
proof (induction ts)
  case (Cons s ss)
  then show ?case using set_insert_subset [of key t ss]
    by (cases "set_insert key t ss") (auto simp: Comparator_def)
qed simp

lemma set_insert_iterator:
  "sorted_wrt (Comparator key) ts \<Longrightarrow>
   snd (set_insert key t ts) \<in> set (fst (set_insert key t ts)) \<and> key (snd (set_insert key t ts)) = key t"
  by (induction ts) (auto simp: Comparator_def split: prod.splits)

lemma set_insert_nonempty [simp]: "fst (set_insert key t ts) \<noteq> []"
  by (cases ts) (auto split: prod.splits)

lemma set_insert_same:
  "sorted_wrt (Comparator key) ts \<Longrightarrow> s \<in> set ts \<Longrightarrow> key s = key t \<Longrightarrow> fst (set_insert key t ts) = ts"
  by (induction ts) (auto simp: Comparator_def split: prod.splits)

lemma insert_front:
  "sorted_wrt (Comparator key) ts \<Longrightarrow>
   snd (set_insert key t ts) = hd (fst (set_insert key t ts)) \<longleftrightarrow> (\<forall>s \<in> set ts. key t \<le> key s)"
  if "t \<notin> set ts"
proof (cases ts)
  case (Cons s ss)
  then show "sorted_wrt (Comparator key) ts \<Longrightarrow> ?thesis"
    using set_insert_iterator [of key ss t] by (auto simp: Comparator_def split: prod.splits)
qed simp

lemma takeWhile_set_insert:
  assumes "sorted_wrt (Comparator key) ts" "now < key t"
  shows "takeWhile (\<lambda>s. key s \<le> now) (fst (set_insert key t ts)) = takeWhile (\<lambda>s. key s \<le> now) ts"
  using assms by (induction ts) (auto simp: Comparator_def split: prod.splits)

section \<open>Every operation keeps the invariant\<close>

lemma timers_ok_heap:
  assumes "timers_ok ts h n" "t \<notin> set ts" "t < n"
  shows "timers_ok ts (h(t \<mapsto> x)) n"
proof -
  have "sorted_wrt (Comparator ((due h)(t := m_next x))) ts = sorted_wrt (Comparator (due h)) ts"
    by (rule sorted_key_cong) (use assms(2) in auto)
  with assms show ?thesis by (auto simp: timers_ok_def)
qed

lemma timers_ok_remove1: "timers_ok ts h n \<Longrightarrow> timers_ok (remove1 t ts) h n"
  by (auto simp: timers_ok_def intro: sorted_key_remove1 dest: notin_set_remove1)

lemma timers_ok_tl: "timers_ok (t # ts) h n \<Longrightarrow> timers_ok ts h n"
  by (auto simp: timers_ok_def)

lemma timers_ok_insert:
  assumes "timers_ok ts h n" "h t = Some x" "m_cb x \<noteq> None"
  shows "timers_ok (fst (set_insert (due h) t ts)) h n"
  using assms set_insert_subset [of "due h" t ts]
  by (auto simp: timers_ok_def set_insert_sorted)

lemma timers_ok_live: "timers_ok ts h n \<Longrightarrow> h t = Some x \<Longrightarrow> t < n"
  by (metis option.distinct(1) not_less timers_ok_def)

text \<open>Taking a timer out under the key of \<open>t\<close> and changing \<open>t\<close>, whether or not it was \<open>t\<close>.\<close>

lemma timers_ok_change:
  assumes "timers_ok ts h n" "h t = Some x" "set_find (due h) t ts = Some it"
  shows "timers_ok (remove1 it ts) (h(t \<mapsto> y)) n"
proof -
  have "t \<notin> set (remove1 it ts)"
    using assms set_find_Some [OF assms(3)] sorted_key_inj [of "due h" ts t it]
      sorted_key_distinct [of "due h" ts]
    by (auto simp: timers_ok_def dest: notin_set_remove1)
  then show ?thesis
    using timers_ok_heap [OF timers_ok_remove1 [OF assms(1)]] timers_ok_live [OF assms(1,2)] by blast
qed

lemma tm_inv_new: "tm_inv (TimerManager_new now)"
  by (simp add: timers_ok_def TimerManager_new_def)

lemma tm_inv_addTimer_ptr:
  assumes "tm_inv tm" "tm_heap tm t = Some x" "m_cb x \<noteq> None"
  shows "tm_inv (fst (addTimer_ptr t tm))"
  using timers_ok_insert [OF assms] by (auto simp: addTimer_ptr_def Let_def split: prod.splits)

lemma tm_inv_addTimer:
  assumes "tm_inv tm"
  shows "tm_inv (fst (snd (addTimer ms cb recurring now tm)))"
proof -
  let ?x = "Timer_new ms cb recurring now"
  let ?tm = "tm\<lparr>tm_heap := (tm_heap tm)(tm_fresh tm \<mapsto> ?x), tm_fresh := Suc (tm_fresh tm)\<rparr>"
  have "tm_fresh tm \<notin> set (m_timers tm)"
    using assms by (metis option.distinct(1) order_refl timers_ok_def)
  moreover have "timers_ok (m_timers tm) (tm_heap tm) (Suc (tm_fresh tm))"
    using assms by (simp add: timers_ok_def)
  ultimately have "tm_inv ?tm"
    using timers_ok_heap [of "m_timers tm" "tm_heap tm" "Suc (tm_fresh tm)" "tm_fresh tm" ?x] by simp
  then have "tm_inv (fst (addTimer_ptr (tm_fresh tm) ?tm))"
    using tm_inv_addTimer_ptr [of ?tm "tm_fresh tm" ?x] by (simp add: Timer_new_def)
  then show ?thesis by (simp add: addTimer_def Let_def)
qed

lemma tm_inv_cancel:
  assumes "tm_inv tm" "tm_heap tm t = Some x"
  shows "tm_inv (snd (cancel t tm))"
proof (cases "m_cb x = None")
  case False
  have key: "(deadline tm)(t := m_next x) = deadline tm" using assms(2) by (rule due_same)
  show ?thesis
  proof (cases "set_find (deadline tm) t (m_timers tm)")
    case None
    then have "t \<notin> set (m_timers tm)" by (auto simp: set_find_None)
    with None False show ?thesis
      using timers_ok_heap [OF assms(1)] timers_ok_live [OF assms] assms(2)
      by (auto simp: cancel_def key Let_def)
  next
    case (Some it)
    from timers_ok_change [OF assms Some] Some False assms(2) show ?thesis
      by (auto simp: cancel_def key Let_def)
  qed
qed (simp add: cancel_def assms)

lemma tm_inv_refresh:
  assumes "tm_inv tm" "tm_heap tm t = Some x"
  shows "tm_inv (snd (refresh t now tm))"
proof (cases "set_find (deadline tm) t (m_timers tm)")
  case (Some it)
  let ?y = "x\<lparr>m_next := now + milliseconds (m_ms x)\<rparr>"
  from timers_ok_insert [OF timers_ok_change [OF assms Some, of ?y], of t ?y] Some assms(2)
  show ?thesis using assms(1) by (auto simp: refresh_def Let_def)
qed (simp add: refresh_def Let_def assms)

lemma tm_inv_reset:
  assumes "tm_inv tm" "tm_heap tm t = Some x"
  shows "tm_inv (fst (snd (reset t ms from_now now tm)))"
proof (cases "set_find (deadline tm) t (m_timers tm)")
  case (Some it)
  define start where "start = (if from_now then now else m_next x - milliseconds (m_ms x))"
  let ?y = "x\<lparr>m_ms := ms, m_next := start + milliseconds ms\<rparr>"
  let ?tm = "tm\<lparr>m_timers := remove1 it (m_timers tm), tm_heap := (tm_heap tm)(t \<mapsto> ?y)\<rparr>"
  have "tm_inv ?tm" using timers_ok_change [OF assms Some, of ?y] by simp
  from tm_inv_addTimer_ptr [OF this, of t ?y] Some assms
  show ?thesis by (cases "m_cb x") (auto simp: reset_def Let_def start_def)
qed (simp add: reset_def Let_def assms)

lemma tm_inv_getNextTimer: "tm_inv tm \<Longrightarrow> tm_inv (snd (getNextTimer now tm))"
  by (auto simp: getNextTimer_def Let_def split: list.split)

lemma tm_inv_expire_front:
  assumes "tm_inv tm" "m_timers tm = t # ts"
  shows "tm_inv (snd (expire_front now tm))"
proof -
  obtain x where x: "tm_heap tm t = Some x" "m_cb x \<noteq> None" using assms by (auto simp: timers_ok_def)
  have t: "t \<notin> set ts" "t < tm_fresh tm"
    using assms sorted_key_distinct [of "deadline tm" "t # ts"] timers_ok_live [OF assms(1) x(1)]
    by (auto simp: timers_ok_def)
  have h: "timers_ok ts ((tm_heap tm)(t \<mapsto> y)) (tm_fresh tm)" for y
    using timers_ok_heap [OF timers_ok_tl, of t ts "tm_heap tm"] t assms by simp
  show ?thesis
    using timers_ok_insert [OF h, where t = t and x = "x\<lparr>m_next := now + milliseconds (m_ms x)\<rparr>"] h x assms(2)
    by (auto simp: expire_front_def Let_def)
qed

section \<open>Expiry\<close>

text \<open>
  What one round does: the first timer leaves the set or is armed for the next period, and the
  others stay as they are.
\<close>

definition rearmed :: "int \<Rightarrow> 'f Timer \<Rightarrow> 'f Timer" where
  "rearmed now x =
     (if m_recurring x then x\<lparr>m_next := now + milliseconds (m_ms x)\<rparr> else x\<lparr>m_cb := None\<rparr>)"

lemma expire_front_step:
  assumes "tm_inv tm" "m_timers tm = t # ts" "tm_heap tm t = Some x" "m_recurring x \<Longrightarrow> 0 < m_ms x"
  shows "\<exists>ts'. expire_front now tm =
      (m_cb x, tm\<lparr>m_timers := ts', tm_heap := (tm_heap tm)(t \<mapsto> rearmed now x)\<rparr>) \<and>
    takeWhile (\<lambda>s. ((deadline tm)(t := m_next (rearmed now x))) s \<le> now) ts' =
      takeWhile (\<lambda>s. deadline tm s \<le> now) ts \<and>
    set ts \<subseteq> set ts' \<and> set ts' \<subseteq> insert t (set ts) \<and>
    (if m_recurring x then \<exists>s \<in> set ts'. ((deadline tm)(t := m_next (rearmed now x))) s = m_next (rearmed now x)
     else t \<notin> set ts')"
proof -
  let ?k = "(deadline tm)(t := now + milliseconds (m_ms x))"
  have t: "t \<notin> set ts" and srt: "sorted_wrt (Comparator (deadline tm)) ts"
    using assms(1,2) sorted_key_distinct [of "deadline tm" "t # ts"] by (auto simp: timers_ok_def)
  have k: "sorted_wrt (Comparator ?k) ts"
    using srt sorted_key_cong [of ts ?k "deadline tm"] t by (metis fun_upd_other)
  have tw: "takeWhile (\<lambda>s. ((deadline tm)(t := v)) s \<le> now) ts = takeWhile (\<lambda>s. deadline tm s \<le> now) ts" for v
    by (rule takeWhile_cong) (use t in auto)
  show ?thesis
  proof (cases "m_recurring x")
    case True
    then have "now < ?k t" using assms(4) by (simp add: milliseconds_def)
    then have "takeWhile (\<lambda>s. ?k s \<le> now) (fst (set_insert ?k t ts)) = takeWhile (\<lambda>s. deadline tm s \<le> now) ts"
      using takeWhile_set_insert [OF k, of now t] tw by metis
    with True set_insert_set [OF k, of t] set_insert_iterator [OF k, of t] assms(2,3) show ?thesis
      by (intro exI [of _ "fst (set_insert ?k t ts)"])
        (auto simp: expire_front_def rearmed_def Let_def)
  next
    case False
    with assms(2,3) t tw [of "m_next x"] show ?thesis
      by (intro exI [of _ ts]) (auto simp: expire_front_def rearmed_def Let_def)
  qed
qed

lemma expired_Cons:
  "m_timers tm = t # ts \<Longrightarrow> deadline tm t \<le> now \<Longrightarrow>
   expired now tm = t # takeWhile (\<lambda>s. deadline tm s \<le> now) ts"
  by (simp add: expired_def)

lemma expired_alive:
  "tm_inv tm \<Longrightarrow> t \<in> set (expired now tm) \<Longrightarrow> \<exists>x. tm_heap tm t = Some x \<and> m_cb x \<noteq> None"
  by (auto simp: expired_def timers_ok_def dest!: set_takeWhileD)

text \<open>
  The loop without a clock rollover fires exactly the timers that are due, in the order of their
  deadlines, and stops with nothing due in the set.
\<close>

lemma listExpired_loop_correct:
  assumes "tm_inv tm" "periods_positive tm"
  shows "\<exists>tm'. listExpired_loop False now cbs tm =
      Some (cbs @ map (\<lambda>t. m_cb (the (tm_heap tm t))) (expired now tm), tm') \<and>
    tm_inv tm' \<and> periods_positive tm' \<and> expired now tm' = [] \<and>
    (\<forall>t. tm_heap tm' t =
      (if t \<in> set (expired now tm) then map_option (rearmed now) (tm_heap tm t) else tm_heap tm t)) \<and>
    set (m_timers tm) - set (expired now tm) \<subseteq> set (m_timers tm') \<and>
    set (m_timers tm') \<subseteq> set (m_timers tm)"
  using assms
proof (induction "length (expired now tm)" arbitrary: tm cbs)
  case 0
  then have "m_timers tm = [] \<or> \<not> deadline tm (hd (m_timers tm)) \<le> now"
    by (cases "m_timers tm") (auto simp: expired_def split: if_splits)
  with 0 show ?case by (subst listExpired_loop.simps) auto
next
  case (Suc n)
  obtain t ts where ts: "m_timers tm = t # ts" "deadline tm t \<le> now"
    using Suc(2) by (cases "m_timers tm") (auto simp: expired_def split: if_splits)
  obtain x where x: "tm_heap tm t = Some x" using Suc(3) ts(1) by (auto simp: timers_ok_def)
  then have ms: "m_recurring x \<Longrightarrow> 0 < m_ms x" using Suc(4) by (auto simp: periods_positive_def)
  obtain ts' where st: "expire_front now tm =
      (m_cb x, tm\<lparr>m_timers := ts', tm_heap := (tm_heap tm)(t \<mapsto> rearmed now x)\<rparr>)"
    "takeWhile (\<lambda>s. ((deadline tm)(t := m_next (rearmed now x))) s \<le> now) ts' =
      takeWhile (\<lambda>s. deadline tm s \<le> now) ts"
    "set ts \<subseteq> set ts'" "set ts' \<subseteq> insert t (set ts)"
    using expire_front_step [OF Suc(3) ts(1) x ms, of now] by blast
  let ?tm = "tm\<lparr>m_timers := ts', tm_heap := (tm_heap tm)(t \<mapsto> rearmed now x)\<rparr>"
  have ex: "expired now tm = t # expired now ?tm" "n = length (expired now ?tm)"
    using expired_Cons [OF ts] st(2) Suc(2) by (simp_all add: expired_def)
  have inv: "tm_inv ?tm" using tm_inv_expire_front [OF Suc(3) ts(1), of now] st(1) by simp
  have per: "periods_positive ?tm"
    using Suc(4) x by (auto simp: periods_positive_def rearmed_def)
  have t: "t \<notin> set (expired now ?tm)"
    using ex(1) sorted_key_distinct [of "deadline tm" "m_timers tm"] Suc(3)
    by (metis distinct.simps(2) distinct_takeWhile expired_def timers_ok_def)
  have "listExpired_loop False now cbs tm = listExpired_loop False now (cbs @ [m_cb x]) ?tm"
    using ts st(1) by (subst listExpired_loop.simps) simp
  moreover have "map (\<lambda>s. m_cb (the (tm_heap ?tm s))) (expired now ?tm) =
      map (\<lambda>s. m_cb (the (tm_heap tm s))) (expired now ?tm)"
    by (rule map_cong [OF refl]) (use t in auto)
  ultimately obtain tm' where tm': "listExpired_loop False now cbs tm =
      Some (cbs @ map (\<lambda>t. m_cb (the (tm_heap tm t))) (expired now tm), tm')"
    "tm_inv tm'" "periods_positive tm'" "expired now tm' = []"
    "\<forall>s. tm_heap tm' s =
      (if s \<in> set (expired now ?tm) then map_option (rearmed now) (tm_heap ?tm s) else tm_heap ?tm s)"
    "set ts' - set (expired now ?tm) \<subseteq> set (m_timers tm')" "set (m_timers tm') \<subseteq> set ts'"
    using Suc(1) [OF ex(2) inv per, of "cbs @ [m_cb x]"] ex(1) x by auto
  moreover have "tm_heap tm' s =
      (if s \<in> set (expired now tm) then map_option (rearmed now) (tm_heap tm s) else tm_heap tm s)" for s
    using tm'(5) ex(1) t x by auto
  moreover have "set (m_timers tm) - set (expired now tm) \<subseteq> set (m_timers tm')"
    using tm'(6) st(3) ts(1) ex(1) by auto
  moreover have "set (m_timers tm') \<subseteq> set (m_timers tm)" using tm'(7) st(4) ts(1) by auto
  ultimately show ?case by blast
qed

section \<open>Reachable managers\<close>

inductive tm_step :: "'f TimerManager \<Rightarrow> 'f TimerManager \<Rightarrow> bool" where
  step_add: "addTimer ms cb recurring now tm = (t, tm', front) \<Longrightarrow> tm_step tm tm'"
| step_cancel: "tm_heap tm t = Some x \<Longrightarrow> cancel t tm = (r, tm') \<Longrightarrow> tm_step tm tm'"
| step_refresh: "tm_heap tm t = Some x \<Longrightarrow> refresh t now tm = (r, tm') \<Longrightarrow> tm_step tm tm'"
| step_reset: "tm_heap tm t = Some x \<Longrightarrow> reset t ms from_now now tm = (r, tm', front) \<Longrightarrow> tm_step tm tm'"
| step_next: "getNextTimer now tm = (ms, tm') \<Longrightarrow> tm_step tm tm'"
| step_expire: "listExpiredCb now now' tm = Some (cbs, tm') \<Longrightarrow> tm_step tm tm'"

inductive_cases tm_step_cases: "tm_step tm tm'"

inductive tm_reach :: "'f TimerManager \<Rightarrow> bool" where
  reach_start: "tm_reach (TimerManager_new now)"
| reach_next: "tm_reach tm \<Longrightarrow> tm_step tm tm' \<Longrightarrow> tm_reach tm'"

lemma expire_front_cb:
  assumes "tm_inv tm" "m_timers tm = t # ts" "expire_front now tm = (cb, tm')"
  shows "cb \<noteq> None"
proof -
  obtain x where x: "tm_heap tm t = Some x" "m_cb x \<noteq> None" using assms by (auto simp: timers_ok_def)
  have "cb = m_cb x" using assms(2,3) x(1) by (auto simp: expire_front_def Let_def split: if_splits)
  with x(2) show ?thesis by simp
qed

lemma listExpired_loop_inv:
  assumes "listExpired_loop rollover now cbs tm = Some r"
  shows "tm_inv tm \<longrightarrow> None \<notin> set cbs \<longrightarrow> tm_inv (snd r) \<and> None \<notin> set (fst r)"
  using assms
proof (induction rollover now cbs tm r rule: listExpired_loop.raw_induct [rotated, consumes 1])
  case (1 loop rollover now cbs tm r)
  show ?case
  proof (cases "m_timers tm \<noteq> [] \<and> (rollover \<or> deadline tm (hd (m_timers tm)) \<le> now)")
    case True
    then obtain t ts where ts: "m_timers tm = t # ts" by (cases "m_timers tm") auto
    obtain cb tm1 where ef: "expire_front now tm = (cb, tm1)" by fastforce
    have "tm_inv tm \<Longrightarrow> tm_inv tm1 \<and> None \<noteq> cb"
      using tm_inv_expire_front [OF _ ts, of now] expire_front_cb [OF _ ts ef] ef by auto
    moreover have "loop rollover now (cbs @ [cb]) tm1 = Some r"
      using 1(2) True ef by (auto split: if_splits)
    ultimately show ?thesis using 1(1) by fastforce
  next
    case False
    with 1(2) show ?thesis by (auto split: if_splits)
  qed
qed

lemma listExpiredCb_inv:
  "listExpiredCb now now' tm = Some (cbs, tm') \<Longrightarrow> tm_inv tm \<Longrightarrow> tm_inv tm' \<and> None \<notin> set cbs"
  by (auto simp: listExpiredCb_def detectClockRollover_def dest!: listExpired_loop_inv)

text \<open>A property of all callbacks of the manager's timers.\<close>

definition cbs_all :: "('f callback \<Rightarrow> bool) \<Rightarrow> 'f TimerManager \<Rightarrow> bool" where
  "cbs_all P tm \<longleftrightarrow> (\<forall>t x cb. tm_heap tm t = Some x \<longrightarrow> m_cb x = Some cb \<longrightarrow> P cb)"

lemma addTimer_heap:
  "addTimer ms cb r now tm = (t, tm', front) \<Longrightarrow> tm_heap tm' = (tm_heap tm)(t \<mapsto> Timer_new ms cb r now)"
  by (auto simp: addTimer_def addTimer_ptr_def Let_def split: prod.splits)

lemma cbs_all_addTimer: "cbs_all P tm \<Longrightarrow> P cb \<Longrightarrow> addTimer ms cb r now tm = (t, tm', front) \<Longrightarrow> cbs_all P tm'"
  by (drule addTimer_heap) (simp add: cbs_all_def Timer_new_def)

lemma cbs_all_cancel: "cbs_all P tm \<Longrightarrow> tm_heap tm t = Some x \<Longrightarrow> cbs_all P (snd (cancel t tm))"
  by (auto simp: cbs_all_def cancel_def Let_def split: option.splits)

lemma cbs_all_expire_front:
  assumes "cbs_all P tm" "tm_inv tm" "m_timers tm = t # ts" "expire_front now tm = (cb, tm')"
  shows "cbs_all P tm' \<and> (\<forall>f. cb = Some f \<longrightarrow> P f)"
proof -
  obtain x where "tm_heap tm t = Some x" using assms(2,3) by (auto simp: timers_ok_def)
  with assms show ?thesis by (auto simp: cbs_all_def expire_front_def Let_def split: if_splits)
qed

lemma listExpired_loop_cbs:
  assumes "listExpired_loop rollover now cbs tm = Some r"
  shows "tm_inv tm \<longrightarrow> cbs_all P tm \<longrightarrow> (\<forall>f. Some f \<in> set cbs \<longrightarrow> P f) \<longrightarrow>
    cbs_all P (snd r) \<and> (\<forall>f. Some f \<in> set (fst r) \<longrightarrow> P f)"
  using assms
proof (induction rollover now cbs tm r rule: listExpired_loop.raw_induct [rotated, consumes 1])
  case (1 loop rollover now cbs tm r)
  show ?case
  proof (cases "m_timers tm \<noteq> [] \<and> (rollover \<or> deadline tm (hd (m_timers tm)) \<le> now)")
    case True
    then obtain t ts where ts: "m_timers tm = t # ts" by (cases "m_timers tm") auto
    obtain cb tm1 where ef: "expire_front now tm = (cb, tm1)" by fastforce
    have "loop rollover now (cbs @ [cb]) tm1 = Some r"
      using 1(2) True ef by (auto split: if_splits)
    moreover have "tm_inv tm \<Longrightarrow> tm_inv tm1" using tm_inv_expire_front [OF _ ts, of now] ef by auto
    moreover have "tm_inv tm \<Longrightarrow> cbs_all P tm \<Longrightarrow> cbs_all P tm1 \<and> (\<forall>f. cb = Some f \<longrightarrow> P f)"
      using cbs_all_expire_front [OF _ _ ts ef] by blast
    moreover have "(\<forall>f. Some f \<in> set (cbs @ [cb]) \<longrightarrow> P f) \<longleftrightarrow> (\<forall>f. Some f \<in> set cbs \<longrightarrow> P f) \<and> (\<forall>f. cb = Some f \<longrightarrow> P f)"
      by auto
    ultimately show ?thesis using 1(1) [of rollover now "cbs @ [cb]" tm1 r] by blast
  next
    case False
    with 1(2) show ?thesis by (auto split: if_splits)
  qed
qed

lemma listExpiredCb_cbs:
  assumes "listExpiredCb now now' tm = Some (cbs, tm')" "tm_inv tm" "cbs_all P tm"
  shows "cbs_all P tm' \<and> (\<forall>f. Some f \<in> set cbs \<longrightarrow> P f)"
proof -
  let ?tm = "tm\<lparr>m_previouseTime := now'\<rparr>"
  have "cbs_all P ?tm" using assms(3) by (simp add: cbs_all_def)
  with assms(1,2) show ?thesis
    by (auto simp: listExpiredCb_def detectClockRollover_def dest!: listExpired_loop_cbs [where P = P])
qed

lemma tm_step_inv: "tm_step tm tm' \<Longrightarrow> tm_inv tm \<Longrightarrow> tm_inv tm'"
proof (erule tm_step_cases, goal_cases)
  case (1 ms cb recurring now t front)
  then show ?case using tm_inv_addTimer [of tm ms cb recurring now] by simp
next
  case (2 t x r)
  then show ?case using tm_inv_cancel [of tm t x] by simp
next
  case (3 t x now r)
  then show ?case using tm_inv_refresh [of tm t x now] by simp
next
  case (4 t x ms from_now now r front)
  then show ?case using tm_inv_reset [of tm t x ms from_now now] by simp
next
  case (5 now ms)
  then show ?case using tm_inv_getNextTimer [of tm now] by simp
qed (auto dest: listExpiredCb_inv)



lemma listExpiredCb_correct:
  assumes "tm_inv tm" "periods_positive tm"
    and "m_previouseTime tm - milliseconds 3600000 \<le> now'"
  shows "\<exists>tm'. listExpiredCb now now' tm =
      Some (map (\<lambda>t. m_cb (the (tm_heap tm t))) (expired now tm), tm') \<and> tm_inv tm' \<and>
    (\<forall>t \<in> set (m_timers tm'). now < deadline tm' t) \<and>
    (\<forall>t. tm_heap tm' t = (if t \<in> set (expired now tm) then map_option (rearmed now) (tm_heap tm t)
      else tm_heap tm t)) \<and>
    set (m_timers tm) - set (expired now tm) \<subseteq> set (m_timers tm') \<and> set (m_timers tm') \<subseteq> set (m_timers tm)"
proof -
  let ?tm = "tm\<lparr>m_previouseTime := now'\<rparr>"
  have "expired now ?tm = expired now tm" "periods_positive ?tm" "tm_inv ?tm"
    using assms by (simp_all add: expired_def periods_positive_def)
  moreover have "now < deadline tm' t" if "expired now tm' = []" "tm_inv tm'" "t \<in> set (m_timers tm')"
    for tm' :: "'a TimerManager" and t
    using that by (cases "m_timers tm'") (auto simp: expired_def timers_ok_def Comparator_def split: if_splits)
  ultimately show ?thesis
    using listExpired_loop_correct [of ?tm now "[]"] assms(3)
    by (auto simp: listExpiredCb_def detectClockRollover_def)
qed

text \<open>With a rollover, a set of periodic timers only never becomes empty.\<close>

definition all_recurring :: "'f TimerManager \<Rightarrow> bool" where
  "all_recurring tm \<longleftrightarrow> m_timers tm \<noteq> [] \<and> (\<forall>t \<in> set (m_timers tm). m_recurring (the (tm_heap tm t)))"

lemma all_recurring_expire:
  assumes "all_recurring tm" "expire_front now tm = (cb, tm')"
  shows "all_recurring tm'"
proof -
  obtain t ts where ts: "m_timers tm = t # ts" using assms(1) by (cases "m_timers tm") (auto simp: all_recurring_def)
  let ?h = "(tm_heap tm)(t \<mapsto> (the (tm_heap tm t))\<lparr>m_next := now + milliseconds (m_ms (the (tm_heap tm t)))\<rparr>)"
  let ?ts = "fst (set_insert (due ?h) t ts)"
  have tm': "tm' = tm\<lparr>tm_heap := ?h, m_timers := ?ts\<rparr>"
    using assms ts by (auto simp: expire_front_def all_recurring_def Let_def)
  have "s = t \<or> s \<in> set ts" if "s \<in> set ?ts" for s using that set_insert_subset [of "due ?h" t ts] by blast
  then show ?thesis using assms(1) ts by (auto simp: all_recurring_def tm' simp del: due_update)
qed

lemma rollover_loop:
  assumes "listExpired_loop rollover now cbs tm = Some r"
  shows "rollover \<longrightarrow> \<not> all_recurring tm"
  using assms
proof (induction rollover now cbs tm r rule: listExpired_loop.raw_induct [rotated, consumes 1])
  case (1 loop rollover now cbs tm r)
  show ?case
  proof (cases "rollover \<and> all_recurring tm")
    case True
    then obtain cb tm' where "expire_front now tm = (cb, tm')" "all_recurring tm'"
      using all_recurring_expire by (metis surj_pair)
    with True 1(1) [of rollover now "cbs @ [cb]" tm' r] 1(2) show ?thesis
      by (simp add: all_recurring_def)
  qed blast
qed

section \<open>What the manager promises\<close>

text \<open>
  C16: when the clock has not jumped back by more than an hour and periodic timers have a positive
  period, \<open>listExpiredCb\<close> returns: it yields the callbacks of exactly the timers that are due, in the
  order of their deadlines; afterwards nothing due is left in the set, one-shot timers that fired
  have lost their callback, periodic ones have their next deadline one period after now, and no other
  timer has changed.
\<close>

theorem expired_timers_fire:
  assumes "tm_inv tm" "periods_positive tm"
    and "m_previouseTime tm - milliseconds 3600000 \<le> now'"
  shows "\<exists>tm'. listExpiredCb now now' tm =
      Some (map (\<lambda>t. m_cb (the (tm_heap tm t))) (expired now tm), tm') \<and>
    (\<forall>t \<in> set (m_timers tm'). now < deadline tm' t) \<and>
    (\<forall>t. tm_heap tm' t = (if t \<in> set (expired now tm) then map_option (rearmed now) (tm_heap tm t)
      else tm_heap tm t)) \<and>
    set (m_timers tm) - set (expired now tm) \<subseteq> set (m_timers tm') \<and> set (m_timers tm') \<subseteq> set (m_timers tm)"
  using listExpiredCb_correct [OF assms] by blast

theorem expired_timers_fire_witness:
  "\<exists>tm'. listExpiredCb 9000000 9000000 (fst (snd (addTimer 5 (Plain (7::nat)) True 1000 (TimerManager_new 0)))) =
     Some ([Some (Plain 7)], tm')"
proof -
  let ?tm = "fst (snd (addTimer 5 (Plain (7::nat)) True 1000 (TimerManager_new 0)))"
  have "tm_inv ?tm" by (rule tm_inv_addTimer [OF tm_inv_new])
  moreover have "periods_positive ?tm" "m_previouseTime ?tm - milliseconds 3600000 \<le> 9000000"
    by (simp_all add: addTimer_def addTimer_ptr_def TimerManager_new_def Timer_new_def
        periods_positive_def milliseconds_def)
  moreover have "map (\<lambda>t. m_cb (the (tm_heap ?tm t))) (expired 9000000 ?tm) = [Some (Plain 7)]"
    by (simp add: addTimer_def addTimer_ptr_def TimerManager_new_def Timer_new_def expired_def
        milliseconds_def)
  ultimately show ?thesis using expired_timers_fire [of ?tm 9000000 9000000] by metis
qed

lemma getNextTimer_correct:
  assumes "tm_inv tm" "t \<in> set (m_timers tm)"
  shows "(fst (getNextTimer now tm) = 0 \<or> now + milliseconds (fst (getNextTimer now tm)) \<le> deadline tm t) \<and>
    (\<exists>s \<in> set (m_timers tm). deadline tm s < now + milliseconds (Suc (fst (getNextTimer now tm)))) \<and>
    \<not> m_tickled (snd (getNextTimer now tm))"
proof -
  obtain h ts where ts: "m_timers tm = h # ts" using assms(2) by (cases "m_timers tm") auto
  then have le: "deadline tm h \<le> deadline tm t" using assms by (auto simp: timers_ok_def Comparator_def)
  show ?thesis
  proof (cases "deadline tm h \<le> now")
    case True
    then show ?thesis using ts by (auto simp: getNextTimer_def milliseconds_def)
  next
    case False
    define d where "d = deadline tm h - now"
    have "0 < d" using False by (simp add: d_def)
    then have "int (nat (d div 1000000)) = d div 1000000" by (simp add: pos_imp_zdiv_nonneg_iff)
    moreover have "d div 1000000 * 1000000 \<le> d" "d < (d div 1000000 + 1) * 1000000"
      by presburger+
    ultimately have "milliseconds (nat (d div 1000000)) \<le> d" "d < milliseconds (Suc (nat (d div 1000000)))"
      by (simp_all add: milliseconds_def algebra_simps)
    moreover have "getNextTimer now tm = (nat (d div 1000000), tm\<lparr>m_tickled := False\<rparr>)"
      using False ts by (simp add: getNextTimer_def d_def)
    ultimately show ?thesis using le ts by (auto simp: d_def)
  qed
qed

text \<open>
  The time \<open>getNextTimer\<close> lets the caller sleep is the time to the first deadline in whole
  milliseconds, rounded down, and 0 when that has passed: sleeping that long ends neither after the
  deadline nor more than a millisecond before it. Without timers it is the largest 64-bit value.
\<close>

lemma next_timer_bound:
  assumes "tm_inv tm" "t \<in> set (m_timers tm)"
  shows "(fst (getNextTimer now tm) = 0 \<or> now + milliseconds (fst (getNextTimer now tm)) \<le> deadline tm t) \<and>
    (\<exists>s \<in> set (m_timers tm). deadline tm s < now + milliseconds (Suc (fst (getNextTimer now tm)))) \<and>
    \<not> m_tickled (snd (getNextTimer now tm))"
  by (rule getNextTimer_correct [OF assms])

lemma next_timer_bound_witness:
  "\<exists>tm :: nat TimerManager. m_timers tm = [0] \<and>
     (\<exists>s \<in> set (m_timers tm). deadline tm s < 0 + milliseconds (Suc (fst (getNextTimer 0 tm))))"
proof -
  let ?tm = "fst (snd (addTimer 5 (Plain (7::nat)) True 1000 (TimerManager_new 0)))"
  have "tm_inv ?tm" by (rule tm_inv_addTimer [OF tm_inv_new])
  moreover have ts: "m_timers ?tm = [0]" by (simp add: addTimer_def addTimer_ptr_def TimerManager_new_def)
  ultimately show ?thesis using next_timer_bound [of ?tm 0 0] by (intro exI [of _ ?tm]) simp
qed

text \<open>
  A new timer notifies the thread that waits (\<open>onTimerInsertedAtFront\<close>) exactly when no deadline in
  the set is earlier and nobody has been notified since the last \<open>getNextTimer\<close>; it is armed exactly
  when no other timer has its deadline.
\<close>

lemma add_timer_notifies:
  assumes "tm_inv tm"
  shows "case addTimer ms cb recurring now tm of (t, tm', front) \<Rightarrow>
    (front \<longleftrightarrow> \<not> m_tickled tm \<and> (\<forall>s \<in> set (m_timers tm). now + milliseconds ms \<le> deadline tm s)) \<and>
    (m_tickled tm' \<longleftrightarrow> m_tickled tm \<or> front) \<and>
    set (m_timers tm') = (if \<exists>s \<in> set (m_timers tm). deadline tm s = now + milliseconds ms
      then set (m_timers tm) else insert t (set (m_timers tm)))"
proof -
  let ?t = "tm_fresh tm"
  let ?k = "(deadline tm)(?t := now + milliseconds ms)"
  have t: "?t \<notin> set (m_timers tm)" using assms by (metis option.distinct(1) order_refl timers_ok_def)
  then have k: "sorted_wrt (Comparator ?k) (m_timers tm)"
    using assms sorted_key_cong [of "m_timers tm" ?k "deadline tm"] by (simp add: timers_ok_def) (metis)
  obtain ts it where ins: "set_insert ?k ?t (m_timers tm) = (ts, it)" by fastforce
  have "(\<forall>s \<in> set (m_timers tm). ?k ?t \<le> ?k s) =
      (\<forall>s \<in> set (m_timers tm). now + milliseconds ms \<le> deadline tm s)"
    by (rule ball_cong) (use t in auto)
  then have it: "it = hd ts \<longleftrightarrow> (\<forall>s \<in> set (m_timers tm). now + milliseconds ms \<le> deadline tm s)"
    using insert_front [OF t k] ins by simp
  have "ts \<noteq> []" using set_insert_nonempty [of ?k ?t "m_timers tm"] ins by simp
  moreover have "set ts = (if \<exists>s \<in> set (m_timers tm). deadline tm s = now + milliseconds ms
      then set (m_timers tm) else insert ?t (set (m_timers tm)))"
    using set_insert_set [OF k, of ?t] ins t by (auto simp: fun_upd_apply split: if_splits)
  ultimately show ?thesis
    using ins it by (auto simp: addTimer_def addTimer_ptr_def Timer_new_def Let_def)
qed

lemma add_timer_notifies_witness:
  "snd (snd (addTimer 5 (Plain (7::nat)) True 1000 (TimerManager_new 0)))"
  using add_timer_notifies [OF tm_inv_new [of 0], where ms = 5 and cb = "Plain (7::nat)" and recurring = True and now = 1000]
  by (auto simp: TimerManager_new_def split: prod.splits)

section \<open>Where the set of deadlines loses timers\<close>

text \<open>
  Two timers with the same deadline do not fit the set: the second one is silently not armed,
  and cancelling it returns true and removes the first one instead.
\<close>

lemma equal_deadline_lost:
  assumes "tm_inv tm" "t \<in> set (m_timers tm)" "deadline tm t = now + milliseconds ms"
  shows "case addTimer ms cb recurring now tm of (u, tm', front) \<Rightarrow>
    u \<noteq> t \<and> m_timers tm' = m_timers tm \<and> fst (cancel u tm') \<and>
    m_timers (snd (cancel u tm')) = remove1 t (m_timers tm)"
proof -
  let ?u = "tm_fresh tm"
  let ?k = "(deadline tm)(?u := now + milliseconds ms)"
  have u: "?u \<notin> set (m_timers tm)" using assms by (metis option.distinct(1) order_refl timers_ok_def)
  then have ut: "?u \<noteq> t" using assms(2) by auto
  have k: "sorted_wrt (Comparator ?k) (m_timers tm)"
    using assms(1) u sorted_key_cong [of "m_timers tm" ?k "deadline tm"] by (simp add: timers_ok_def) (metis)
  have eq: "?k t = ?k ?u" using ut assms(3) by simp
  have ins: "fst (set_insert ?k ?u (m_timers tm)) = m_timers tm"
    by (rule set_insert_same [OF k assms(2) eq])
  have "\<exists>s. set_find ?k ?u (m_timers tm) = Some s"
    using set_find_None [of ?k ?u "m_timers tm"] eq assms(2) by blast
  then obtain s where s: "set_find ?k ?u (m_timers tm) = Some s" by blast
  from set_find_Some [OF s] eq have fnd: "set_find ?k ?u (m_timers tm) = Some t"
    using sorted_key_inj [OF k _ assms(2)] s by metis
  show ?thesis
    using ins ut fnd
    by (cases "set_insert ?k ?u (m_timers tm)")
      (simp add: addTimer_def addTimer_ptr_def Timer_new_def cancel_def Let_def)
qed

lemma equal_deadline_lost_witness:
  "\<exists>tm :: nat TimerManager. m_timers tm = [0] \<and>
     (case addTimer 5 (Plain 8) True 1000 tm of (u, tm', front) \<Rightarrow>
        m_timers tm' = [0] \<and> m_timers (snd (cancel u tm')) = [])"
proof -
  let ?tm = "fst (snd (addTimer 5 (Plain (7::nat)) True 1000 (TimerManager_new 0)))"
  have "tm_inv ?tm" by (rule tm_inv_addTimer [OF tm_inv_new])
  moreover have ts: "m_timers ?tm = [0]" "deadline ?tm 0 = 1000 + milliseconds 5"
    by (simp_all add: addTimer_def addTimer_ptr_def TimerManager_new_def Timer_new_def)
  ultimately show ?thesis
    using equal_deadline_lost [of ?tm 0 1000 5 "Plain 8" True]
    by (intro exI [of _ ?tm]) (auto split: prod.splits)
qed

text \<open>
  Of two periodic timers with the same period that expire in the same call, at most one is still
  armed afterwards.
\<close>

lemma recurring_collision:
  assumes "tm_inv tm" "periods_positive tm" "m_previouseTime tm - milliseconds 3600000 \<le> now'"
    and "s \<in> set (expired now tm)" "t \<in> set (expired now tm)" "s \<noteq> t"
    and "tm_heap tm s = Some x" "tm_heap tm t = Some y" "m_recurring x" "m_recurring y" "m_ms x = m_ms y"
  shows "\<exists>cbs tm'. listExpiredCb now now' tm = Some (cbs, tm') \<and>
    \<not> (s \<in> set (m_timers tm') \<and> t \<in> set (m_timers tm'))"
proof -
  obtain cbs tm' where tm': "listExpiredCb now now' tm = Some (cbs, tm')" "tm_inv tm'"
    "\<forall>t. tm_heap tm' t = (if t \<in> set (expired now tm) then map_option (rearmed now) (tm_heap tm t)
      else tm_heap tm t)"
    using listExpiredCb_correct [OF assms(1-3), of now] by blast
  then have "deadline tm' s = deadline tm' t" using assms(4-) by (simp add: due_def rearmed_def)
  then show ?thesis
    using tm'(1,2) assms(6) sorted_key_inj [of "deadline tm'" "m_timers tm'" s t]
    by (auto simp: timers_ok_def)
qed

lemma recurring_collision_witness:
  "\<exists>tm :: nat TimerManager. m_timers tm = [0, 1] \<and>
     (\<exists>cbs tm'. listExpiredCb 9000000 9000000 tm = Some (cbs, tm') \<and>
        \<not> (0 \<in> set (m_timers tm') \<and> 1 \<in> set (m_timers tm')))"
proof -
  let ?tm = "fst (snd (addTimer 5 (Plain (8::nat)) True 2000
    (fst (snd (addTimer 5 (Plain (7::nat)) True 1000 (TimerManager_new 0))))))"
  note defs = addTimer_def addTimer_ptr_def TimerManager_new_def Timer_new_def milliseconds_def
    expired_def Comparator_def
  have "tm_inv ?tm" by (intro tm_inv_addTimer tm_inv_new)
  moreover have "periods_positive ?tm" by (auto simp: defs periods_positive_def)
  moreover have "m_timers ?tm = [0, 1]" by (simp add: defs)
  ultimately show ?thesis
    using recurring_collision [of ?tm 9000000 0 9000000 1 "the (tm_heap ?tm 0)" "the (tm_heap ?tm 1)"]
    by (intro exI [of _ ?tm]) (simp add: defs)
qed

text \<open>
  C34: after a clock rollover the loop of \<open>listExpiredCb\<close> never ends when all armed timers are periodic:
  it puts each one back into the set it tries to empty.
\<close>

theorem rollover_livelock:
  assumes "tm_inv tm" "m_timers tm \<noteq> []"
    and "\<forall>t \<in> set (m_timers tm). m_recurring (the (tm_heap tm t))"
    and "now' < m_previouseTime tm - milliseconds 3600000"
  shows "listExpiredCb now now' tm = None"
  using rollover_loop [of True now "[]" "tm\<lparr>m_previouseTime := now'\<rparr>"] assms
  by (cases "listExpired_loop True now [] (tm\<lparr>m_previouseTime := now'\<rparr>)")
    (auto simp: listExpiredCb_def detectClockRollover_def all_recurring_def)

theorem rollover_livelock_witness:
  "listExpiredCb 0 0 (fst (snd (addTimer 5 (Plain (7::nat)) True 1000 (TimerManager_new 9000000000000)))) = None"
proof -
  let ?tm = "fst (snd (addTimer 5 (Plain (7::nat)) True 1000 (TimerManager_new 9000000000000)))"
  have "tm_inv ?tm" by (rule tm_inv_addTimer [OF tm_inv_new])
  then show ?thesis
    by (rule rollover_livelock)
      (simp_all add: addTimer_def addTimer_ptr_def TimerManager_new_def Timer_new_def milliseconds_def)
qed

end
