(* ===== verification/Timer_Armed.thy ===== *)
theory Timer_Armed
  imports Timer
begin

text \<open>
  One-shot timers whose deadlines differ, as the hooked calls use them: every timer that still has its
  callback is in the set, so that a callback is neither lost nor called twice. What the timers hold is
  added up by a weight for each callback; adding, cancelling and expiring move it.
\<close>

definition armed_all :: "'f TimerManager \<Rightarrow> bool" where
  "armed_all tm \<longleftrightarrow> (\<forall>t x. tm_heap tm t = Some x \<longrightarrow> \<not> m_recurring x \<and> (m_cb x \<noteq> None \<longrightarrow> t \<in> set (m_timers tm)))"

text \<open>No timer of the set has the deadline that a new one would get.\<close>

definition fresh_deadline :: "nat \<Rightarrow> int \<Rightarrow> 'f TimerManager \<Rightarrow> bool" where
  "fresh_deadline ms now tm \<longleftrightarrow> (\<forall>u \<in> set (m_timers tm). deadline tm u \<noteq> now + milliseconds ms)"

definition cb_weight :: "('f callback \<Rightarrow> 'a::comm_monoid_add) \<Rightarrow> (nat \<rightharpoonup> 'f Timer) \<Rightarrow> nat \<Rightarrow> 'a" where
  "cb_weight g h t = (case h t of None \<Rightarrow> 0 | Some x \<Rightarrow> case_option 0 g (m_cb x))"

definition armed_weight :: "('f callback \<Rightarrow> 'a::comm_monoid_add) \<Rightarrow> 'f TimerManager \<Rightarrow> 'a" where
  "armed_weight g tm = sum_list (map (cb_weight g (tm_heap tm)) (m_timers tm))"

definition fired_weight :: "('f callback \<Rightarrow> 'a::comm_monoid_add) \<Rightarrow> 'f callback option list \<Rightarrow> 'a" where
  "fired_weight g cbs = sum_list (map (case_option 0 g) cbs)"

lemma fired_weight_simps [simp]:
  "fired_weight g [] = 0" "fired_weight g (cb # cbs) = case_option 0 g cb + fired_weight g cbs"
  "fired_weight g (cbs @ cbs') = fired_weight g cbs + fired_weight g cbs'"
  by (simp_all add: fired_weight_def)

lemma armed_weight_frame [simp]:
  "armed_weight g (tm\<lparr>m_tickled := b\<rparr>) = armed_weight g tm" "armed_weight g (tm\<lparr>m_previouseTime := i\<rparr>) = armed_weight g tm"
  "armed_all (tm\<lparr>m_tickled := b\<rparr>) = armed_all tm" "armed_all (tm\<lparr>m_previouseTime := i\<rparr>) = armed_all tm"
  by (simp_all add: armed_weight_def armed_all_def)

lemma armed_all_new: "armed_all (TimerManager_new now)" "armed_weight g (TimerManager_new now) = 0"
  by (simp_all add: armed_all_def armed_weight_def TimerManager_new_def)

lemma armed_all_periods: "armed_all tm \<Longrightarrow> periods_positive tm"
  by (auto simp: armed_all_def periods_positive_def)

lemma weight_other: "t \<notin> set ts \<Longrightarrow> sum_list (map (cb_weight g (h(t \<mapsto> x))) ts) = sum_list (map (cb_weight g h) ts)"
  by (induction ts) (auto simp: cb_weight_def)

lemma getNextTimer_timers: "snd (getNextTimer now tm) = tm\<lparr>m_tickled := False\<rparr>"
  by (auto simp: getNextTimer_def Let_def split: list.split)

text \<open>The result of \<open>getNextTimer\<close> tells whether there are timers, for deadlines within the range of the clock.\<close>

lemma getNextTimer_none:
  assumes "\<forall>t \<in> set (m_timers tm). deadline tm t < now + milliseconds no_timer"
  shows "fst (getNextTimer now tm) = 2 ^ 64 - 1 \<longleftrightarrow> m_timers tm = []"
proof (cases "m_timers tm")
  case (Cons t ts)
  then have "deadline tm t - now < 18446744073709551615000000"
    using assms by (simp add: milliseconds_def no_timer_def)
  then have "(deadline tm t - now) div 1000000 < 18446744073709551615" by linarith
  then show ?thesis using Cons by (auto simp: getNextTimer_def Let_def)
qed (simp add: getNextTimer_def no_timer_def)

section \<open>Adding\<close>

lemma remove1_set_insert:
  "t \<notin> set ts \<Longrightarrow> \<forall>u \<in> set ts. key u \<noteq> key t \<Longrightarrow>
   t \<in> set (fst (set_insert key t ts)) \<and> remove1 t (fst (set_insert key t ts)) = ts"
  by (induction ts) (auto simp: Comparator_def split: prod.splits)

lemma addTimer_armed:
  assumes "tm_inv tm" "fresh_deadline ms now tm" "addTimer ms cb r now tm = (t, tm', front)"
  shows "t \<in> set (m_timers tm') \<and> remove1 t (m_timers tm') = m_timers tm \<and> deadline tm' t = now + milliseconds ms \<and>
    tm_inv tm' \<and> t \<notin> set (m_timers tm)"
proof -
  let ?t = "tm_fresh tm" and ?k = "(deadline tm)(tm_fresh tm := now + milliseconds ms)"
  have new: "?t \<notin> set (m_timers tm)" using assms(1) by (metis option.distinct(1) order_refl timers_ok_def)
  have "m_timers tm' = fst (set_insert ?k ?t (m_timers tm))" "t = ?t"
    using assms(3) by (auto simp: addTimer_def addTimer_ptr_def Timer_new_def Let_def split: prod.splits)
  moreover have "\<forall>u \<in> set (m_timers tm). ?k u \<noteq> ?k ?t" using assms(2) new by (auto simp: fresh_deadline_def)
  moreover have "tm_inv tm'" using tm_inv_addTimer [OF assms(1), of ms cb r now] assms(3) by simp
  ultimately show ?thesis
    using remove1_set_insert [OF new, of ?k] addTimer_heap [OF assms(3)] new by (simp add: due_def Timer_new_def)
qed

lemma addTimer_weight:
  assumes "tm_inv tm" "fresh_deadline ms now tm" "addTimer ms cb False now tm = (t, tm', front)"
  shows "armed_weight g tm' = armed_weight g tm + g cb" "armed_all tm \<Longrightarrow> armed_all tm'"
proof -
  note T = addTimer_armed [OF assms]
  have h: "tm_heap tm' = (tm_heap tm)(t \<mapsto> Timer_new ms cb False now)" by (rule addTimer_heap [OF assms(3)])
  have "sum_list (map (cb_weight g (tm_heap tm')) (m_timers tm)) = armed_weight g tm"
    using T by (simp add: h weight_other armed_weight_def)
  moreover have "cb_weight g (tm_heap tm') t = g cb" by (simp add: h cb_weight_def Timer_new_def)
  ultimately show "armed_weight g tm' = armed_weight g tm + g cb"
    using sum_list_map_remove1 [of t "m_timers tm'" "cb_weight g (tm_heap tm')"] T
    by (simp add: armed_weight_def [of g tm'] add.commute)
  have "set (m_timers tm) \<subseteq> set (m_timers tm')" using T by (metis set_remove1_subset)
  then show "armed_all tm \<Longrightarrow> armed_all tm'" using T by (auto simp: armed_all_def h Timer_new_def split: if_splits)
qed

section \<open>Cancelling\<close>

lemma cancel_weight:
  assumes inv: "tm_inv tm" and all: "armed_all tm" and x: "tm_heap tm t = Some x"
  shows "armed_weight g tm = armed_weight g (snd (cancel t tm)) + cb_weight g (tm_heap tm) t" "armed_all (snd (cancel t tm))"
proof -
  have "armed_weight g tm = armed_weight g (snd (cancel t tm)) + cb_weight g (tm_heap tm) t \<and> armed_all (snd (cancel t tm))"
  proof (cases "m_cb x = None")
    case True
    then show ?thesis using x all by (simp add: cancel_def cb_weight_def)
  next
    case False
    let ?h = "(tm_heap tm)(t \<mapsto> x\<lparr>m_cb := None\<rparr>)" and ?ts = "remove1 t (m_timers tm)"
    have t: "t \<in> set (m_timers tm)" using all x False by (auto simp: armed_all_def)
    have srt: "sorted_wrt (Comparator (deadline tm)) (m_timers tm)" using inv by (simp add: timers_ok_def)
    have "due ?h = deadline tm" using due_same [of "tm_heap tm" t x] x by simp
    then have c: "snd (cancel t tm) = tm\<lparr>tm_heap := ?h, m_timers := ?ts\<rparr>"
      using x False set_find_member [OF srt t] by (auto simp: cancel_def Let_def simp del: due_update)
    have d: "t \<notin> set ?ts" using sorted_key_distinct [OF srt] by simp
    have "armed_weight g tm = armed_weight g (snd (cancel t tm)) + cb_weight g (tm_heap tm) t"
      using sum_list_map_remove1 [OF t, of "cb_weight g (tm_heap tm)"] d
      by (simp add: armed_weight_def c add.commute weight_other)
    moreover have "s \<in> set ?ts" if "s \<in> set (m_timers tm)" "s \<noteq> t" for s using that by (simp add: in_set_remove1)
    then have "armed_all (snd (cancel t tm))" using all x by (auto simp: armed_all_def c split: if_splits)
    ultimately show ?thesis by blast
  qed
  then show "armed_weight g tm = armed_weight g (snd (cancel t tm)) + cb_weight g (tm_heap tm) t" "armed_all (snd (cancel t tm))"
    by blast+
qed

section \<open>Expiring\<close>

lemma expire_front_weight:
  assumes inv: "tm_inv tm" and all: "armed_all tm" and ts: "m_timers tm = t # ts" and ef: "expire_front now tm = (cb, tm')"
  shows "armed_weight g tm = armed_weight g tm' + case_option 0 g cb \<and> armed_all tm'"
proof -
  obtain x where x: "tm_heap tm t = Some x" using inv ts by (auto simp: timers_ok_def)
  let ?h = "(tm_heap tm)(t \<mapsto> x\<lparr>m_cb := None\<rparr>)"
  have cb: "cb = m_cb x" and tm': "tm' = tm\<lparr>m_timers := ts, tm_heap := ?h\<rparr>"
    using ef ts x all by (auto simp: expire_front_def armed_all_def Let_def split: if_splits)
  have "t \<notin> set ts" using inv ts sorted_key_distinct [of "deadline tm" "t # ts"] by (simp add: timers_ok_def)
  then have "armed_weight g tm = armed_weight g tm' + case_option 0 g cb"
    by (simp add: armed_weight_def tm' ts cb cb_weight_def [of g "tm_heap tm" t] x add.commute weight_other)
  moreover have "armed_all tm'" using all x ts by (auto simp: armed_all_def tm' split: if_splits)
  ultimately show ?thesis by blast
qed

lemma listExpired_loop_weight:
  assumes "listExpired_loop rollover now cbs tm = Some r"
  shows "tm_inv tm \<longrightarrow> armed_all tm \<longrightarrow>
    armed_weight g tm + fired_weight g cbs = armed_weight g (snd r) + fired_weight g (fst r) \<and> armed_all (snd r)"
  using assms
proof (induction rollover now cbs tm r rule: listExpired_loop.raw_induct [rotated, consumes 1])
  case (1 loop rollover now cbs tm r)
  show ?case
  proof (cases "m_timers tm \<noteq> [] \<and> (rollover \<or> deadline tm (hd (m_timers tm)) \<le> now)")
    case True
    then obtain t ts where ts: "m_timers tm = t # ts" by (cases "m_timers tm") auto
    obtain cb tm1 where ef: "expire_front now tm = (cb, tm1)" by fastforce
    have "loop rollover now (cbs @ [cb]) tm1 = Some r" using 1(2) True ef by (auto split: if_splits)
    from 1(1) [OF this] show ?thesis
      using tm_inv_expire_front [OF _ ts, of now] expire_front_weight [OF _ _ ts ef, of g] ef
      by (auto simp: ac_simps)
  next
    case False
    with 1(2) show ?thesis by (auto split: if_splits)
  qed
qed

lemma listExpiredCb_weight:
  assumes "listExpiredCb now now' tm = Some (cbs, tm')" "tm_inv tm" "armed_all tm"
  shows "armed_weight g tm = armed_weight g tm' + fired_weight g cbs" "armed_all tm'"
  using assms listExpired_loop_weight [of _ now "[]" "tm\<lparr>m_previouseTime := now'\<rparr>" "(cbs, tm')" g]
  by (auto simp: listExpiredCb_def detectClockRollover_def)

text \<open>A timer that is due fires in the next round.\<close>

lemma due_timer_fires:
  assumes "tm_inv tm" "armed_all tm" "t \<in> set (m_timers tm)" "deadline tm t \<le> now" "tm_heap tm t = Some x"
    and "m_previouseTime tm - milliseconds 3600000 \<le> now'"
  shows "\<exists>cbs tm'. listExpiredCb now now' tm = Some (cbs, tm') \<and> m_cb x \<in> set cbs"
proof -
  have srt: "sorted_wrt (Comparator (deadline tm)) (m_timers tm)" using assms(1) by (simp add: timers_ok_def)
  have "t \<in> set (takeWhile (\<lambda>t. deadline tm t \<le> now) ts)" if "sorted_wrt (Comparator (deadline tm)) ts" "t \<in> set ts" for ts
    using that assms(4) by (induction ts) (auto simp: Comparator_def)
  then have "t \<in> set (expired now tm)" using srt assms(3) by (simp add: expired_def)
  then have "m_cb x \<in> set (map (\<lambda>t. m_cb (the (tm_heap tm t))) (expired now tm))" using assms(5) by force
  then show ?thesis using listExpiredCb_correct [OF assms(1) armed_all_periods [OF assms(2)] assms(6), of now] by blast
qed

end
