(* ===== verification/IOManager.thy ===== *)
theory IOManager
  imports Scheduler Timer_Armed
begin

text \<open>
  The event loop, \<open>dag/ioscheduler.cpp\<close>: a scheduler and a timer manager together with the events
  that fibers and callbacks wait for on descriptors. The results of \<open>epoll_ctl\<close> and \<open>epoll_wait\<close> are
  arguments; the field \<open>ep_interest\<close> is what the successful calls of \<open>epoll_ctl\<close> have registered with
  the kernel. Each operation is one step: it runs under the lock of its descriptor's context. A task
  is scheduled on this manager; an event that was added outside a scheduler has no scheduler and
  triggering it goes through a null pointer.
\<close>

section \<open>Events and contexts\<close>

type_synonym events = u32

definition NONE :: events where "NONE = 0x0"
definition READ :: events where "READ = 0x1"
definition WRITE :: events where "WRITE = 0x4"
definition EPOLLIN :: events where "EPOLLIN = 0x1"
definition EPOLLOUT :: events where "EPOLLOUT = 0x4"
definition EPOLLERR :: events where "EPOLLERR = 0x8"
definition EPOLLHUP :: events where "EPOLLHUP = 0x10"
definition EPOLLET :: events where "EPOLLET = 0x80000000"

lemmas event_defs = NONE_def READ_def WRITE_def EPOLLIN_def EPOLLOUT_def EPOLLERR_def EPOLLHUP_def EPOLLET_def

record ('fiber, 'f) EventContext =
  ev_scheduler :: bool
  ev_fiber :: "'fiber option"
  ev_cb :: "'f callback option"

definition EventContext_empty :: "('fiber, 'f) EventContext" where
  "EventContext_empty = \<lparr>ev_scheduler = False, ev_fiber = None, ev_cb = None\<rparr>"

record ('fiber, 'f) FdContext =
  fc_read :: "('fiber, 'f) EventContext"
  fc_write :: "('fiber, 'f) EventContext"
  fc_fd :: nat
  fc_events :: events

definition FdContext_new :: "nat \<Rightarrow> ('fiber, 'f) FdContext" where
  "FdContext_new i =
     \<lparr>fc_read = EventContext_empty, fc_write = EventContext_empty, fc_fd = i, fc_events = NONE\<rparr>"

definition getEventContext :: "events \<Rightarrow> ('fiber, 'f) FdContext \<Rightarrow> ('fiber, 'f) EventContext res" where
  "getEventContext event c =
     (if event = READ then Inr (fc_read c)
      else if event = WRITE then Inr (fc_write c)
      else Inl (Assertion ''event==READ || event ==WRITE''))"

definition setEventContext ::
  "events \<Rightarrow> ('fiber, 'f) EventContext \<Rightarrow> ('fiber, 'f) FdContext \<Rightarrow> ('fiber, 'f) FdContext" where
  "setEventContext event x c = (if event = READ then c\<lparr>fc_read := x\<rparr> else c\<lparr>fc_write := x\<rparr>)"

section \<open>The manager\<close>

datatype ctl_op = EPOLL_CTL_ADD | EPOLL_CTL_MOD | EPOLL_CTL_DEL

record ('fiber, 'f) IOManager =
  io_sched :: "('fiber, 'f callback) Scheduler"
  io_timers :: "'f TimerManager"
  m_pendingEvenCount :: nat
  m_fdContexts :: "('fiber, 'f) FdContext list"
  ep_interest :: "nat \<rightharpoonup> events"

definition ctl_effect :: "ctl_op \<Rightarrow> nat \<Rightarrow> events \<Rightarrow> (nat \<rightharpoonup> events) \<Rightarrow> (nat \<rightharpoonup> events)" where
  "ctl_effect op fd ev m = (if op = EPOLL_CTL_DEL then m(fd := None) else m(fd \<mapsto> ev))"

definition contextResize :: "nat \<Rightarrow> ('fiber, 'f) IOManager \<Rightarrow> ('fiber, 'f) IOManager" where
  "contextResize n io =
     io\<lparr>m_fdContexts := take n (m_fdContexts io) @ map FdContext_new [length (m_fdContexts io)..<n]\<rparr>"

definition IOManager_new ::
  "int \<Rightarrow> ('fiber, 'f callback) Scheduler \<Rightarrow> int list \<Rightarrow> ('fiber, 'f) IOManager res" where
  "IOManager_new now s ids =
     (let io = contextResize 32 \<lparr>io_sched = s, io_timers = TimerManager_new now, m_pendingEvenCount = 0,
                                 m_fdContexts = [], ep_interest = Map.empty\<rparr>
      in rmap (\<lambda>s'. io\<lparr>io_sched := s'\<rparr>) (start ids s))"

definition io_schedule :: "('fiber, 'f callback) SchedulerTask \<Rightarrow> ('fiber, 'f) IOManager \<Rightarrow> ('fiber, 'f) IOManager" where
  "io_schedule task io = io\<lparr>io_sched := fst (schedulerLock task (io_sched io))\<rparr>"

text \<open>
  \<open>triggerEvent\<close> on a context: the context afterwards and the task it schedules. The constructor of
  the task swaps the callback or fiber out of the context.
\<close>

definition triggerEvent ::
  "events \<Rightarrow> ('fiber, 'f) FdContext \<Rightarrow> (('fiber, 'f callback) SchedulerTask \<times> ('fiber, 'f) FdContext) res" where
  "triggerEvent event c =
     (if fc_events c AND event = 0 then Inl (Assertion ''events & event'')
      else let c1 = c\<lparr>fc_events := fc_events c AND NOT event\<rparr> in
        rbind (getEventContext event c1) (\<lambda>ctx.
          if \<not> ev_scheduler ctx then Inl Null_Deref
          else let task = (if ev_cb ctx \<noteq> None then fst (SchedulerTask_cb_ptr (ev_cb ctx) (- 1))
                           else fst (SchedulerTask_fiber_ptr (ev_fiber ctx) (- 1)))
               in Inr (task, setEventContext event EventContext_empty c1)))"

definition put_context :: "nat \<Rightarrow> ('fiber, 'f) FdContext \<Rightarrow> ('fiber, 'f) IOManager \<Rightarrow> ('fiber, 'f) IOManager" where
  "put_context fd c io = io\<lparr>m_fdContexts := (m_fdContexts io)[fd := c]\<rparr>"

text \<open>Triggering an event of a descriptor on the manager, with \<open>--m_pendingEvenCount\<close>.\<close>

definition trigger_on :: "nat \<Rightarrow> events \<Rightarrow> ('fiber, 'f) IOManager \<Rightarrow> ('fiber, 'f) IOManager res" where
  "trigger_on fd event io =
     rmap (\<lambda>(task, c). (io_schedule task (put_context fd c io))\<lparr>m_pendingEvenCount := m_pendingEvenCount io - 1\<rparr>)
       (triggerEvent event (m_fdContexts io ! fd))"

text \<open>
  Adding an event: \<open>rt\<close> is the result of \<open>epoll_ctl\<close>, \<open>this_sched\<close> whether the thread has a scheduler,
  \<open>this_fiber\<close> the current fiber with its state.
\<close>

definition addEvent ::
  "int \<Rightarrow> events \<Rightarrow> 'f callback option \<Rightarrow> int \<Rightarrow> bool \<Rightarrow> 'fiber \<times> State \<Rightarrow> ('fiber, 'f) IOManager
     \<Rightarrow> (int \<times> ('fiber, 'f) IOManager) res" where
  "addEvent fd event cb rt this_sched this_fiber io =
     (if fd < 0 then Inl Out_Of_Bounds
      else let n = nat fd;
               io1 = (if length (m_fdContexts io) > n then io else contextResize (n * 3 div 2) io)
           in if length (m_fdContexts io1) \<le> n then Inl Out_Of_Bounds
           else let c = m_fdContexts io1 ! n in
             if fc_events c AND event \<noteq> 0 then Inl (Assertion ''!(fd_ctx->events & event)'')
             else let op = (if fc_events c \<noteq> 0 then EPOLL_CTL_MOD else EPOLL_CTL_ADD) in
               if rt \<noteq> 0 then Inr (- 1, io1)
               else let c1 = c\<lparr>fc_events := fc_events c OR event\<rparr> in
                 rbind (getEventContext event c1) (\<lambda>ctx.
                   if ev_scheduler ctx \<or> ev_fiber ctx \<noteq> None \<or> ev_cb ctx \<noteq> None
                   then Inl (Assertion ''!event_ctx.scheduler && !event_ctx.fiber && !event_ctx.cb'')
                   else if cb = None \<and> snd this_fiber \<noteq> RUNNING
                   then Inl (Assertion ''event_ctx.fiber->getState() == Fiber::RUNNING'')
                   else let ctx' = \<lparr>ev_scheduler = this_sched,
                                    ev_fiber = (if cb = None then Some (fst this_fiber) else None),
                                    ev_cb = cb\<rparr>
                        in Inr (0, (put_context n (setEventContext event ctx' c1) io1)
                                     \<lparr>m_pendingEvenCount := m_pendingEvenCount io1 + 1,
                                      ep_interest := ctl_effect op n (EPOLLET OR fc_events c OR event) (ep_interest io1)\<rparr>)))"

text \<open>
  The lookup that the three removing operations share: they test that the table is not empty, not
  that it holds the descriptor.
\<close>

definition find_context :: "int \<Rightarrow> ('fiber, 'f) IOManager \<Rightarrow> nat option res" where
  "find_context fd io =
     (if length (m_fdContexts io) = 0 then Inr None
      else if fd < 0 \<or> length (m_fdContexts io) \<le> nat fd then Inl Out_Of_Bounds
      else Inr (Some (nat fd)))"

definition removal_op :: "events \<Rightarrow> ctl_op" where
  "removal_op new_events = (if new_events \<noteq> 0 then EPOLL_CTL_MOD else EPOLL_CTL_DEL)"

definition delEvent ::
  "int \<Rightarrow> events \<Rightarrow> int \<Rightarrow> ('fiber, 'f) IOManager \<Rightarrow> (bool \<times> ('fiber, 'f) IOManager) res" where
  "delEvent fd event rt io =
     rbind (find_context fd io) (\<lambda>p.
       case p of
         None \<Rightarrow> Inr (False, io)
       | Some n \<Rightarrow>
           let c = m_fdContexts io ! n in
           if fc_events c AND event = 0 then Inr (False, io)
           else let new_events = fc_events c AND NOT event;
                    io1 = (if rt = 0 then io\<lparr>ep_interest := ctl_effect (removal_op new_events) n (EPOLLET OR new_events) (ep_interest io)\<rparr>
                           else io)
                in rbind (getEventContext event c) (\<lambda>_.
                     Inr (True, (put_context n (setEventContext event EventContext_empty (c\<lparr>fc_events := new_events\<rparr>)) io1)
                                  \<lparr>m_pendingEvenCount := m_pendingEvenCount io - 1\<rparr>)))"

definition cancelEvent ::
  "int \<Rightarrow> events \<Rightarrow> int \<Rightarrow> ('fiber, 'f) IOManager \<Rightarrow> (bool \<times> ('fiber, 'f) IOManager) res" where
  "cancelEvent fd event rt io =
     rbind (find_context fd io) (\<lambda>p.
       case p of
         None \<Rightarrow> Inr (False, io)
       | Some n \<Rightarrow>
           let c = m_fdContexts io ! n in
           if fc_events c AND event = 0 then Inr (False, io)
           else let new_events = fc_events c AND NOT event in
             if rt \<noteq> 0 then Inr (False, io)
             else rmap (\<lambda>io'. (True, io'))
                    (trigger_on n event
                      (io\<lparr>ep_interest := ctl_effect (removal_op new_events) n (new_events OR EPOLLET) (ep_interest io)\<rparr>)))"

definition trigger_if :: "bool \<Rightarrow> nat \<Rightarrow> events \<Rightarrow> ('fiber, 'f) IOManager \<Rightarrow> ('fiber, 'f) IOManager res" where
  "trigger_if b n event io = (if b then trigger_on n event io else Inr io)"

definition cancelAll :: "int \<Rightarrow> int \<Rightarrow> ('fiber, 'f) IOManager \<Rightarrow> (bool \<times> ('fiber, 'f) IOManager) res" where
  "cancelAll fd rt io =
     rbind (find_context fd io) (\<lambda>p.
       case p of
         None \<Rightarrow> Inr (False, io)
       | Some n \<Rightarrow>
           if fc_events (m_fdContexts io ! n) = 0 then Inr (False, io)
           else if rt \<noteq> 0 then Inr (False, io)
           else let io1 = io\<lparr>ep_interest := ctl_effect EPOLL_CTL_DEL n 0 (ep_interest io)\<rparr> in
             rbind (trigger_if (fc_events (m_fdContexts io1 ! n) AND READ \<noteq> 0) n READ io1) (\<lambda>io2.
             rbind (trigger_if (fc_events (m_fdContexts io2 ! n) AND WRITE \<noteq> 0) n WRITE io2) (\<lambda>io3.
               if fc_events (m_fdContexts io3 ! n) = 0 then Inr (True, io3)
               else Inl (Assertion ''fd_ctx->events == 0''))))"

text \<open>
  One entry that \<open>epoll_wait\<close> returned for a descriptor, with the result of \<open>epoll_ctl\<close> on it: an
  error or hang-up stands for every registered event.
\<close>

definition real_events :: "events \<Rightarrow> ('fiber, 'f) FdContext \<Rightarrow> events" where
  "real_events ev c =
     (let ev1 = (if ev AND (EPOLLERR OR EPOLLHUP) \<noteq> 0 then ev OR ((EPOLLIN OR EPOLLOUT) AND fc_events c) else ev)
      in (if ev1 AND EPOLLIN \<noteq> 0 then READ else NONE) OR (if ev1 AND EPOLLOUT \<noteq> 0 then WRITE else NONE))"

definition dispatch :: "nat \<Rightarrow> events \<Rightarrow> int \<Rightarrow> ('fiber, 'f) IOManager \<Rightarrow> ('fiber, 'f) IOManager res" where
  "dispatch n ev rt2 io =
     (let c = m_fdContexts io ! n; re = real_events ev c in
      if fc_events c AND re = NONE then Inr io
      else let left_events = fc_events c AND NOT re in
        if rt2 \<noteq> 0 then Inr io
        else let io1 = io\<lparr>ep_interest := ctl_effect (removal_op left_events) n (EPOLLET OR left_events) (ep_interest io)\<rparr> in
          rbind (trigger_if (re AND READ \<noteq> 0) n READ io1)
            (trigger_if (re AND WRITE \<noteq> 0) n WRITE))"

text \<open>How long the idle fiber waits, and what it does when \<open>epoll_wait\<close> returns.\<close>

definition idle_timeout :: "int \<Rightarrow> ('fiber, 'f) IOManager \<Rightarrow> nat \<times> ('fiber, 'f) IOManager" where
  "idle_timeout now io =
     (case getNextTimer now (io_timers io) of (t, tm) \<Rightarrow> (min t 5000, io\<lparr>io_timers := tm\<rparr>))"

datatype ready = Tickled | Ready_Fd nat events int

fun dispatch_all :: "ready list \<Rightarrow> ('fiber, 'f) IOManager \<Rightarrow> ('fiber, 'f) IOManager res" where
  "dispatch_all [] io = Inr io"
| "dispatch_all (Tickled # rs) io = dispatch_all rs io"
| "dispatch_all (Ready_Fd n ev rt2 # rs) io = rbind (dispatch n ev rt2 io) (dispatch_all rs)"

definition idle_round ::
  "int \<Rightarrow> int \<Rightarrow> ready list \<Rightarrow> ('fiber, 'f) IOManager \<Rightarrow> ('fiber, 'f) IOManager res option" where
  "idle_round now now' rs io =
     map_option (\<lambda>(cbs, tm).
       dispatch_all rs (fold (\<lambda>cb. io_schedule (SchedulerTask_cb cb (- 1))) cbs (io\<lparr>io_timers := tm\<rparr>)))
       (listExpiredCb now now' (io_timers io))"

text \<open>The number of bytes written to the pipe that wakes \<open>epoll_wait\<close>.\<close>

definition io_tickle :: "('fiber, 'f) IOManager \<Rightarrow> nat" where
  "io_tickle io = (if m_idleThreadCount (io_sched io) > 0 then 1 else 0)"

definition onTimerInsertedAtFront :: "('fiber, 'f) IOManager \<Rightarrow> nat" where
  "onTimerInsertedAtFront io = io_tickle io"

definition io_stopping :: "int \<Rightarrow> ('fiber, 'f) IOManager \<Rightarrow> bool \<times> ('fiber, 'f) IOManager" where
  "io_stopping now io =
     (case getNextTimer now (io_timers io) of (t, tm) \<Rightarrow>
        (t = 2 ^ 64 - 1 \<and> m_pendingEvenCount io = 0 \<and> stopping (io_sched io), io\<lparr>io_timers := tm\<rparr>))"

text \<open>
  \<open>stop\<close> of the base class asks this class whether it is stopping already.
\<close>

definition IOManager_stop :: "int \<Rightarrow> bool \<Rightarrow> ('fiber, 'f) IOManager \<Rightarrow> (('fiber, 'f) IOManager \<times> nat \<times> bool) res" where
  "IOManager_stop now is_this io =
     (case io_stopping now io of (st, io1) \<Rightarrow>
        if st then Inr (io1, 0, False)
        else rmap (\<lambda>(s, x). (io1\<lparr>io_sched := s\<rparr>, x)) (request_stop is_this (io_sched io1)))"

text \<open>
  The calls of \<open>epoll_wait\<close> in one round, one for each reading of the clock, all but the last interrupted
  by a signal: the timeouts they are given.
\<close>

fun idle_wait :: "int list \<Rightarrow> ('fiber, 'f) IOManager \<Rightarrow> nat list \<times> ('fiber, 'f) IOManager" where
  "idle_wait [] io = ([], io)"
| "idle_wait (now # nows) io =
     (case idle_timeout now io of (t, io1) \<Rightarrow> case idle_wait nows io1 of (ts, io2) \<Rightarrow> (t # ts, io2))"

text \<open>The idle fiber from one resumption to its next yield or to its end.\<close>

definition io_idle ::
  "int \<Rightarrow> int list \<Rightarrow> int \<Rightarrow> int \<Rightarrow> ready list \<Rightarrow> ('fiber, 'f) IOManager \<Rightarrow> (State \<times> ('fiber, 'f) IOManager) res option" where
  "io_idle now nows now1 now2 rs io =
     (case io_stopping now io of (st, io1) \<Rightarrow>
        if st then Some (Inr (TERM_STATE, io1))
        else map_option (rmap (\<lambda>io2. (READY, io2))) (idle_round now1 now2 rs (snd (idle_wait nows io1))))"

text \<open>
  The destructor after \<open>stop\<close> has returned: \<open>epoll\<close> and the pipe are closed, the contexts deleted, and the
  destructor of the base class runs.
\<close>

definition IOManager_delete ::
  "nat \<Rightarrow> nat option \<Rightarrow> ('fiber, 'f) IOManager \<Rightarrow> (nat option \<times> ('fiber, 'f) IOManager) res" where
  "IOManager_delete this t_scheduler io =
     rmap (\<lambda>t. (t, io\<lparr>ep_interest := Map.empty, m_fdContexts := []\<rparr>)) (Scheduler_delete this t_scheduler (io_sched io))"

section \<open>Invariant\<close>

text \<open>
  A context has a scheduler and either a fiber or a callback for exactly the events it is registered
  for; the pending count is the number of registered events; the kernel watches exactly the
  registered events of exactly the descriptors that have some.
\<close>

definition armed :: "('fiber, 'f) EventContext \<Rightarrow> bool" where
  "armed x \<longleftrightarrow> ev_scheduler x \<and> (ev_cb x = None \<longleftrightarrow> ev_fiber x \<noteq> None)"

definition wants :: "events \<Rightarrow> ('fiber, 'f) FdContext \<Rightarrow> bool" where
  "wants event c \<longleftrightarrow> fc_events c AND event \<noteq> 0"

definition ctx_ok :: "nat \<Rightarrow> ('fiber, 'f) FdContext \<Rightarrow> bool" where
  "ctx_ok i c \<longleftrightarrow> fc_fd c = i \<and> fc_events c \<in> {0, 1, 4, 5} \<and>
     (if wants READ c then armed (fc_read c) else fc_read c = EventContext_empty) \<and>
     (if wants WRITE c then armed (fc_write c) else fc_write c = EventContext_empty)"

definition n_events :: "('fiber, 'f) FdContext \<Rightarrow> nat" where
  "n_events c = (if wants READ c then 1 else 0) + (if wants WRITE c then 1 else 0)"

definition io_core :: "('fiber, 'f) IOManager \<Rightarrow> bool" where
  "io_core io \<longleftrightarrow> 32 \<le> length (m_fdContexts io) \<and>
     (\<forall>i < length (m_fdContexts io). ctx_ok i (m_fdContexts io ! i)) \<and>
     m_pendingEvenCount io = sum_list (map n_events (m_fdContexts io)) \<and>
     (\<forall>t \<in> set (m_tasks (io_sched io)). has_work t)"

definition interest_of :: "('fiber, 'f) IOManager \<Rightarrow> nat \<Rightarrow> events option" where
  "interest_of io i =
     (if i < length (m_fdContexts io) \<and> fc_events (m_fdContexts io ! i) \<noteq> 0
      then Some (EPOLLET OR fc_events (m_fdContexts io ! i)) else None)"

definition io_inv :: "('fiber, 'f) IOManager \<Rightarrow> bool" where
  "io_inv io \<longleftrightarrow> io_core io \<and> ep_interest io = interest_of io"

section \<open>Facts on contexts\<close>

text \<open>The task that waits in a context.\<close>

definition waiting :: "('fiber, 'f) EventContext \<Rightarrow> ('fiber, 'f callback) SchedulerTask" where
  "waiting x = (if ev_cb x \<noteq> None then SchedulerTask_cb (ev_cb x) (- 1) else SchedulerTask_fiber (ev_fiber x) (- 1))"

lemma armed_has_work: "armed x \<Longrightarrow> has_work (waiting x)"
  by (auto simp: armed_def waiting_def has_work_def SchedulerTask_cb_def SchedulerTask_fiber_def)

lemma triggerEvent_READ:
  assumes "ctx_ok i c" "wants READ c"
  shows "\<exists>c'. triggerEvent READ c = Inr (waiting (fc_read c), c') \<and> ctx_ok i c' \<and>
    n_events c = Suc (n_events c') \<and> fc_events c' = fc_events c AND NOT READ \<and> fc_write c' = fc_write c \<and>
    has_work (waiting (fc_read c))"
  using assms armed_has_work [of "fc_read c"]
  by (auto simp: triggerEvent_def ctx_ok_def wants_def n_events_def event_defs getEventContext_def
      setEventContext_def armed_def waiting_def SchedulerTask_cb_ptr_def SchedulerTask_fiber_ptr_def Let_def)

lemma triggerEvent_WRITE:
  assumes "ctx_ok i c" "wants WRITE c"
  shows "\<exists>c'. triggerEvent WRITE c = Inr (waiting (fc_write c), c') \<and> ctx_ok i c' \<and>
    n_events c = Suc (n_events c') \<and> fc_events c' = fc_events c AND NOT WRITE \<and> fc_read c' = fc_read c \<and>
    has_work (waiting (fc_write c))"
  using assms armed_has_work [of "fc_write c"]
  by (auto simp: triggerEvent_def ctx_ok_def wants_def n_events_def event_defs getEventContext_def
      setEventContext_def armed_def waiting_def SchedulerTask_cb_ptr_def SchedulerTask_fiber_ptr_def Let_def)

lemma sum_list_put:
  fixes f :: "'a \<Rightarrow> 'b :: comm_monoid_add"
  shows "i < length xs \<Longrightarrow> sum_list (map f (xs[i := x])) + f (xs ! i) = sum_list (map f xs) + f x"
  by (induction xs arbitrary: i) (auto simp: ac_simps split: nat.split)

lemma io_core_put:
  assumes "io_core io" "n < length (m_fdContexts io)" "ctx_ok n c"
    and "m_pendingEvenCount io' + n_events (m_fdContexts io ! n) = m_pendingEvenCount io + n_events c"
    and "m_fdContexts io' = (m_fdContexts io)[n := c]" "\<forall>t \<in> set (m_tasks (io_sched io')). has_work t"
  shows "io_core io'"
  using assms sum_list_put [of n "m_fdContexts io" n_events c]
  by (auto simp: io_core_def nth_list_update)

lemma schedulerLock_tasks: "has_work t \<Longrightarrow> m_tasks (fst (schedulerLock t s)) = m_tasks s @ [t]"
  by (simp add: schedulerLock_def Let_def)

text \<open>The event context of an event.\<close>

definition context_of :: "events \<Rightarrow> ('fiber, 'f) FdContext \<Rightarrow> ('fiber, 'f) EventContext" where
  "context_of event c = (if event = READ then fc_read c else fc_write c)"

lemma trigger_on_correct:
  assumes core: "io_core io" and n: "n < length (m_fdContexts io)"
    and ev: "event = READ \<or> event = WRITE" "wants event (m_fdContexts io ! n)"
  shows "\<exists>io' c'. trigger_on n event io = Inr io' \<and> io_core io' \<and>
    m_fdContexts io' = (m_fdContexts io)[n := c'] \<and> fc_events c' = fc_events (m_fdContexts io ! n) AND NOT event \<and>
    m_tasks (io_sched io') = m_tasks (io_sched io) @ [waiting (context_of event (m_fdContexts io ! n))] \<and>
    ep_interest io' = ep_interest io \<and> io_timers io' = io_timers io \<and>
    m_pendingEvenCount io = Suc (m_pendingEvenCount io') \<and>
    (event = READ \<longrightarrow> fc_write c' = fc_write (m_fdContexts io ! n)) \<and>
    (event = WRITE \<longrightarrow> fc_read c' = fc_read (m_fdContexts io ! n))"
proof -
  let ?c = "m_fdContexts io ! n"
  let ?w = "waiting (context_of event ?c)"
  have ok: "ctx_ok n ?c" using core n by (simp add: io_core_def)
  obtain c' where c': "triggerEvent event ?c = Inr (?w, c')" "ctx_ok n c'" "n_events ?c = Suc (n_events c')"
    "fc_events c' = fc_events ?c AND NOT event" "has_work ?w"
    "event = READ \<longrightarrow> fc_write c' = fc_write ?c" "event = WRITE \<longrightarrow> fc_read c' = fc_read ?c"
    using ev triggerEvent_READ [OF ok] triggerEvent_WRITE [OF ok]
    by (auto simp: context_of_def event_defs)
  let ?io = "(io_schedule ?w (put_context n c' io))\<lparr>m_pendingEvenCount := m_pendingEvenCount io - 1\<rparr>"
  have tasks: "m_tasks (io_sched ?io) = m_tasks (io_sched io) @ [?w]"
    using schedulerLock_tasks [OF c'(5)] by (simp add: io_schedule_def put_context_def)
  have "n_events ?c \<le> m_pendingEvenCount io"
    using core n by (auto simp: io_core_def intro!: member_le_sum_list)
  then have pend: "m_pendingEvenCount io = Suc (m_pendingEvenCount ?io)" using c'(3) by simp
  have "io_core ?io"
  proof (rule io_core_put [OF core n c'(2)])
    show "m_pendingEvenCount ?io + n_events ?c = m_pendingEvenCount io + n_events c'"
      using pend c'(3) by simp
    show "\<forall>t \<in> set (m_tasks (io_sched ?io)). has_work t"
      using tasks c'(5) core by (simp add: io_core_def)
  qed (simp add: io_schedule_def put_context_def)
  with c' tasks pend show ?thesis
    by (intro exI [of _ ?io] exI [of _ c'])
      (simp add: trigger_on_def io_schedule_def put_context_def)
qed

section \<open>Every operation keeps the invariant\<close>

lemma interest_put:
  assumes inv: "io_inv io" and n: "n < length (m_fdContexts io)"
    and cs: "m_fdContexts io' = (m_fdContexts io)[n := c]"
    and ep: "ep_interest io' = ctl_effect (if fc_events c \<noteq> 0 then op else EPOLL_CTL_DEL) n (EPOLLET OR fc_events c) (ep_interest io)"
    and op: "op \<noteq> EPOLL_CTL_DEL"
  shows "ep_interest io' = interest_of io'"
proof
  fix i
  show "ep_interest io' i = interest_of io' i"
    using inv n op unfolding ep by (simp add: io_inv_def interest_of_def ctl_effect_def cs nth_list_update)
qed

lemma find_context_Some:
  "find_context fd io = Inr (Some n) \<Longrightarrow> n = nat fd \<and> 0 \<le> fd \<and> n < length (m_fdContexts io)"
  by (auto simp: find_context_def split: if_splits)

lemma find_context_in: "0 \<le> fd \<Longrightarrow> nat fd < length (m_fdContexts io) \<Longrightarrow> find_context fd io = Inr (Some (nat fd))"
  by (auto simp: find_context_def)

lemma io_core_interest [simp]: "io_core (io\<lparr>ep_interest := x\<rparr>) = io_core io"
  by (simp add: io_core_def)

lemma removal_op_eq: "removal_op ev = (if ev \<noteq> 0 then EPOLL_CTL_MOD else EPOLL_CTL_DEL)"
  by (simp add: removal_op_def)

lemma cancelEvent_correct:
  assumes inv: "io_inv io" and fd: "0 \<le> fd" "nat fd < length (m_fdContexts io)"
    and ev: "event = READ \<or> event = WRITE" "wants event (m_fdContexts io ! nat fd)"
  shows "\<exists>io' c'. cancelEvent fd event 0 io = Inr (True, io') \<and> io_inv io' \<and>
    m_fdContexts io' = (m_fdContexts io)[nat fd := c'] \<and>
    fc_events c' = fc_events (m_fdContexts io ! nat fd) AND NOT event \<and>
    m_tasks (io_sched io') = m_tasks (io_sched io) @ [waiting (context_of event (m_fdContexts io ! nat fd))] \<and>
    m_pendingEvenCount io = Suc (m_pendingEvenCount io') \<and> io_timers io' = io_timers io"
proof -
  let ?n = "nat fd" and ?c = "m_fdContexts io ! nat fd"
  let ?new = "fc_events ?c AND NOT event"
  let ?io1 = "io\<lparr>ep_interest := ctl_effect (removal_op ?new) ?n (EPOLLET OR ?new) (ep_interest io)\<rparr>"
  have core: "io_core ?io1" using inv by (simp add: io_inv_def)
  obtain io' c' where t: "trigger_on ?n event ?io1 = Inr io'" "io_core io'"
    "m_fdContexts io' = (m_fdContexts io)[?n := c']" "fc_events c' = ?new"
    "m_tasks (io_sched io') = m_tasks (io_sched io) @ [waiting (context_of event ?c)]"
    "ep_interest io' = ep_interest ?io1" "io_timers io' = io_timers io"
    "m_pendingEvenCount io = Suc (m_pendingEvenCount io')"
    using trigger_on_correct [OF core, of ?n event] fd(2) ev by (auto simp del: One_nat_def)
  have "ep_interest io' = interest_of io'"
    using interest_put [OF inv fd(2) t(3), of EPOLL_CTL_MOD] t(4,6) by (simp add: removal_op_eq)
  moreover have "cancelEvent fd event 0 io = Inr (True, io')"
    using ev(2) t(1) fd by (simp add: cancelEvent_def find_context_in wants_def Let_def or.commute)
  ultimately show ?thesis using t by (auto simp: io_inv_def)
qed

lemma event_context_cases: "getEventContext event c = Inr x \<Longrightarrow> (event = READ \<or> event = WRITE) \<and> x = context_of event c"
  by (auto simp: getEventContext_def context_of_def split: if_splits)

lemma cancelEvent_inv:
  assumes "io_inv io" "cancelEvent fd event rt io = Inr (r, io')"
  shows "io_inv io'"
proof (cases "r")
  case True
  with assms(2) obtain n where n: "find_context fd io = Inr (Some n)" "wants event (m_fdContexts io ! n)" "rt = 0"
    by (auto simp: cancelEvent_def wants_def Let_def dag_bind split: option.splits if_splits)
  moreover have "event = READ \<or> event = WRITE"
    using assms(2) n True
    by (auto simp: cancelEvent_def trigger_on_def triggerEvent_def wants_def Let_def dag_bind
        split: if_splits dest!: event_context_cases)
  ultimately show ?thesis
    using cancelEvent_correct [OF assms(1), of fd event] find_context_Some [OF n(1)] assms(2) by auto
next
  case False
  with assms show ?thesis
    by (auto simp: cancelEvent_def Let_def dag_bind split: option.splits if_splits)
qed

text \<open>Registering and forgetting an event on a context.\<close>

lemma ctx_ok_add:
  assumes "ctx_ok n c" "event = READ \<or> event = WRITE" "\<not> wants event c" "armed x"
  shows "ctx_ok n (setEventContext event x (c\<lparr>fc_events := fc_events c OR event\<rparr>)) \<and>
    n_events (setEventContext event x (c\<lparr>fc_events := fc_events c OR event\<rparr>)) = Suc (n_events c)"
  using assms by (auto simp: ctx_ok_def wants_def n_events_def event_defs setEventContext_def)

lemma ctx_ok_del:
  assumes "ctx_ok n c" "event = READ \<or> event = WRITE" "wants event c"
  shows "ctx_ok n (setEventContext event EventContext_empty (c\<lparr>fc_events := fc_events c AND NOT event\<rparr>)) \<and>
    n_events c = Suc (n_events (setEventContext event EventContext_empty (c\<lparr>fc_events := fc_events c AND NOT event\<rparr>)))"
  using assms by (auto simp: ctx_ok_def wants_def n_events_def event_defs setEventContext_def)

lemma fc_events_setEventContext [simp]: "fc_events (setEventContext event x c) = fc_events c"
  by (simp add: setEventContext_def)

lemma io_inv_put:
  assumes inv: "io_inv io" and n: "n < length (m_fdContexts io)" and ok: "ctx_ok n c"
    and pend: "m_pendingEvenCount io' + n_events (m_fdContexts io ! n) = m_pendingEvenCount io + n_events c"
    and cs: "m_fdContexts io' = (m_fdContexts io)[n := c]" and s: "io_sched io' = io_sched io"
    and ep: "ep_interest io' = ctl_effect (if fc_events c \<noteq> 0 then op else EPOLL_CTL_DEL) n (EPOLLET OR fc_events c) (ep_interest io)"
    and op: "op \<noteq> EPOLL_CTL_DEL"
  shows "io_inv io'"
  using io_core_put [OF _ n ok pend cs] interest_put [OF inv n cs ep op] inv s
  by (simp add: io_inv_def io_core_def)

lemma delEvent_correct:
  assumes inv: "io_inv io" and fd: "0 \<le> fd" "nat fd < length (m_fdContexts io)"
    and ev: "event = READ \<or> event = WRITE" "wants event (m_fdContexts io ! nat fd)"
  shows "\<exists>io'. delEvent fd event 0 io = Inr (True, io') \<and> io_inv io' \<and> io_sched io' = io_sched io \<and>
    m_fdContexts io' = (m_fdContexts io)[nat fd := setEventContext event EventContext_empty
      ((m_fdContexts io ! nat fd)\<lparr>fc_events := fc_events (m_fdContexts io ! nat fd) AND NOT event\<rparr>)]"
proof -
  let ?n = "nat fd" and ?c = "m_fdContexts io ! nat fd"
  let ?new = "fc_events ?c AND NOT event"
  let ?c' = "setEventContext event EventContext_empty (?c\<lparr>fc_events := ?new\<rparr>)"
  let ?io = "(put_context ?n ?c' (io\<lparr>ep_interest := ctl_effect (removal_op ?new) ?n (EPOLLET OR ?new) (ep_interest io)\<rparr>))
    \<lparr>m_pendingEvenCount := m_pendingEvenCount io - 1\<rparr>"
  have "getEventContext event ?c \<noteq> Inl e" for e using ev(1) by (auto simp: getEventContext_def event_defs)
  then have del: "delEvent fd event 0 io = Inr (True, ?io)"
    using ev fd by (cases "getEventContext event ?c") (auto simp: delEvent_def find_context_in wants_def Let_def)
  have ok: "ctx_ok ?n ?c" using inv fd(2) by (simp add: io_inv_def io_core_def)
  note c' = ctx_ok_del [OF ok ev]
  have "n_events ?c \<le> m_pendingEvenCount io"
    using inv fd(2) by (auto simp: io_inv_def io_core_def intro!: member_le_sum_list)
  then have "io_inv ?io" using c'
    by (intro io_inv_put [OF inv fd(2), of ?c' _ EPOLL_CTL_MOD]) (auto simp: put_context_def removal_op_eq)
  with del show ?thesis by (auto simp: put_context_def)
qed

lemma delEvent_inv:
  assumes "io_inv io" "delEvent fd event 0 io = Inr (r, io')"
  shows "io_inv io'"
proof (cases "r")
  case True
  with assms(2) obtain n where n: "find_context fd io = Inr (Some n)" "wants event (m_fdContexts io ! n)"
    and "event = READ \<or> event = WRITE"
    by (auto simp: delEvent_def wants_def Let_def dag_bind split: option.splits if_splits dest!: event_context_cases)
  then show ?thesis
    using delEvent_correct [OF assms(1), of fd event] find_context_Some [OF n(1)] assms(2) by auto
next
  case False
  with assms show ?thesis
    by (auto simp: delEvent_def Let_def dag_bind split: option.splits if_splits)
qed

lemma FdContext_new_ok: "ctx_ok i (FdContext_new i)" "n_events (FdContext_new i) = 0" "fc_events (FdContext_new i) = 0"
  by (simp_all add: ctx_ok_def n_events_def wants_def FdContext_new_def event_defs)

lemma contextResize_inv:
  assumes "io_inv io" "length (m_fdContexts io) \<le> n"
  shows "io_inv (contextResize n io)"
proof -
  let ?io = "contextResize n io"
  have cs: "m_fdContexts ?io = m_fdContexts io @ map FdContext_new [length (m_fdContexts io)..<n]"
    using assms(2) by (simp add: contextResize_def)
  have at: "i < n \<Longrightarrow> m_fdContexts ?io ! i =
      (if i < length (m_fdContexts io) then m_fdContexts io ! i else FdContext_new i)" for i
    by (auto simp: cs nth_append)
  have "sum_list (map n_events (m_fdContexts ?io)) = sum_list (map n_events (m_fdContexts io))"
    by (simp add: cs o_def FdContext_new_ok)
  then have "io_core ?io"
    using assms at by (auto simp: io_inv_def io_core_def cs FdContext_new_ok) (simp_all add: contextResize_def FdContext_new_ok)
  moreover have "interest_of ?io i = interest_of io i" for i
    using assms(2) at [of i] by (auto simp: interest_of_def cs FdContext_new_ok split: if_splits)
  ultimately show ?thesis using assms(1) by (auto simp: io_inv_def contextResize_def)
qed

text \<open>The context table as \<open>addEvent\<close> sees it.\<close>

definition with_context :: "nat \<Rightarrow> ('fiber, 'f) IOManager \<Rightarrow> ('fiber, 'f) IOManager" where
  "with_context n io = (if length (m_fdContexts io) > n then io else contextResize (n * 3 div 2) io)"

lemma with_context_grows:
  assumes "io_inv io"
  shows "io_inv (with_context n io) \<and> n < length (m_fdContexts (with_context n io)) \<and>
    length (m_fdContexts io) \<le> length (m_fdContexts (with_context n io)) \<and>
    (\<forall>i < length (m_fdContexts io). m_fdContexts (with_context n io) ! i = m_fdContexts io ! i) \<and>
    io_sched (with_context n io) = io_sched io \<and> io_timers (with_context n io) = io_timers io \<and>
    m_pendingEvenCount (with_context n io) = m_pendingEvenCount io"
proof (cases "length (m_fdContexts io) > n")
  case False
  moreover from False have "32 \<le> n" using assms by (auto simp: io_inv_def io_core_def)
  then have "n < n * 3 div 2" by simp
  ultimately show ?thesis
    using contextResize_inv [OF assms, of "n * 3 div 2"]
    by (auto simp: with_context_def contextResize_def nth_append)
qed (use assms in \<open>simp add: with_context_def\<close>)

lemma addEvent_correct:
  assumes inv: "io_inv io" and fd: "0 \<le> fd" and ev: "event = READ \<or> event = WRITE"
    and free: "\<not> wants event (m_fdContexts (with_context (nat fd) io) ! nat fd)"
    and fiber: "cb \<noteq> None \<or> snd f = RUNNING"
  shows "\<exists>io' c'. addEvent fd event cb 0 True f io = Inr (0, io') \<and> io_inv io' \<and> io_sched io' = io_sched io \<and>
    io_timers io' = io_timers io \<and> m_pendingEvenCount io' = Suc (m_pendingEvenCount io) \<and>
    m_fdContexts io' = (m_fdContexts (with_context (nat fd) io))[nat fd := c'] \<and> wants event c' \<and>
    context_of event c' = \<lparr>ev_scheduler = True, ev_fiber = (if cb = None then Some (fst f) else None), ev_cb = cb\<rparr>"
proof -
  let ?n = "nat fd"
  let ?io1 = "with_context ?n io"
  let ?c = "m_fdContexts ?io1 ! ?n"
  let ?x = "\<lparr>ev_scheduler = True, ev_fiber = (if cb = None then Some (fst f) else None), ev_cb = cb\<rparr>"
  let ?c' = "setEventContext event ?x (?c\<lparr>fc_events := fc_events ?c OR event\<rparr>)"
  let ?op = "if fc_events ?c \<noteq> 0 then EPOLL_CTL_MOD else EPOLL_CTL_ADD"
  let ?io = "(put_context ?n ?c' ?io1)\<lparr>m_pendingEvenCount := m_pendingEvenCount ?io1 + 1,
    ep_interest := ctl_effect ?op ?n (EPOLLET OR fc_events ?c OR event) (ep_interest ?io1)\<rparr>"
  note w = with_context_grows [OF inv, of ?n]
  then have inv1: "io_inv ?io1" and n: "?n < length (m_fdContexts ?io1)" by auto
  have ok: "ctx_ok ?n ?c" using inv1 n by (simp add: io_inv_def io_core_def)
  have empty: "context_of event ?c = EventContext_empty"
    using ok free ev by (auto simp: ctx_ok_def wants_def context_of_def event_defs)
  have get: "getEventContext event (?c\<lparr>fc_events := e\<rparr>) = Inr EventContext_empty" for e
    using ev empty by (auto simp: getEventContext_def context_of_def event_defs)
  have add: "addEvent fd event cb 0 True f io = Inr (0, ?io)"
    using fd n free fiber get [of "fc_events ?c OR event"]
    by (auto simp: addEvent_def with_context_def [symmetric] wants_def Let_def EventContext_empty_def)
  have nz: "fc_events ?c OR event \<noteq> 0" using ev ok by (auto simp: ctx_ok_def event_defs)
  note c' = ctx_ok_add [OF ok ev free, of ?x]
  have "io_inv ?io"
    using c' nz by (intro io_inv_put [OF inv1 n, of ?c' _ ?op])
      (auto simp: put_context_def armed_def or.assoc)
  moreover have "wants event ?c'" using ev ok by (auto simp: wants_def ctx_ok_def event_defs)
  moreover have "context_of event ?c' = ?x" using ev by (auto simp: context_of_def setEventContext_def event_defs)
  ultimately show ?thesis using add w by (intro exI [of _ ?io] exI [of _ ?c']) (simp add: put_context_def)
qed

lemma addEvent_inv:
  assumes "io_inv io" "addEvent fd event cb rt True f io = Inr (r, io')"
  shows "io_inv io'"
proof (cases "rt = 0")
  case True
  with assms(2) have "0 \<le> fd" "event = READ \<or> event = WRITE" "cb \<noteq> None \<or> snd f = RUNNING"
    "\<not> wants event (m_fdContexts (with_context (nat fd) io) ! nat fd)"
    by (auto simp: addEvent_def with_context_def [symmetric] wants_def Let_def dag_bind
        split: if_splits dest!: event_context_cases)
  with addEvent_correct [OF assms(1), of fd event cb f] assms(2) True show ?thesis by auto
next
  case False
  with assms with_context_grows [OF assms(1), of "nat fd"] show ?thesis
    by (auto simp: addEvent_def with_context_def [symmetric] Let_def split: if_splits)
qed

text \<open>Triggering a set of events of one descriptor, the common part of \<open>cancelAll\<close> and \<open>idle\<close>.\<close>

definition woken :: "events \<Rightarrow> ('fiber, 'f) FdContext \<Rightarrow> ('fiber, 'f callback) SchedulerTask list" where
  "woken re c = (if re AND READ \<noteq> 0 then [waiting (fc_read c)] else []) @
                (if re AND WRITE \<noteq> 0 then [waiting (fc_write c)] else [])"

lemma trigger_if_correct:
  assumes core: "io_core io" and n: "n < length (m_fdContexts io)"
    and ev: "event = READ \<or> event = WRITE" "b \<Longrightarrow> wants event (m_fdContexts io ! n)"
  shows "\<exists>io' c'. trigger_if b n event io = Inr io' \<and> io_core io' \<and>
    m_fdContexts io' = (m_fdContexts io)[n := c'] \<and>
    fc_events c' = (if b then fc_events (m_fdContexts io ! n) AND NOT event else fc_events (m_fdContexts io ! n)) \<and>
    m_tasks (io_sched io') = m_tasks (io_sched io) @ (if b then [waiting (context_of event (m_fdContexts io ! n))] else []) \<and>
    ep_interest io' = ep_interest io \<and> io_timers io' = io_timers io \<and>
    (event = READ \<longrightarrow> fc_write c' = fc_write (m_fdContexts io ! n))"
proof (cases b)
  case True
  with trigger_on_correct [OF core n ev(1)] ev(2) show ?thesis
    by (simp add: trigger_if_def) blast
next
  case False
  with core n show ?thesis
    by (intro exI [of _ io] exI [of _ "m_fdContexts io ! n"]) (simp add: trigger_if_def)
qed

lemma trigger_set_correct:
  assumes core: "io_core io" and n: "n < length (m_fdContexts io)"
    and re: "re \<in> {0, 1, 4, 5}" "re AND fc_events (m_fdContexts io ! n) = re"
  shows "\<exists>io' c'. rbind (trigger_if (re AND READ \<noteq> 0) n READ io) (trigger_if (re AND WRITE \<noteq> 0) n WRITE) = Inr io' \<and>
    io_core io' \<and> m_fdContexts io' = (m_fdContexts io)[n := c'] \<and>
    fc_events c' = fc_events (m_fdContexts io ! n) AND NOT re \<and>
    m_tasks (io_sched io') = m_tasks (io_sched io) @ woken re (m_fdContexts io ! n) \<and>
    ep_interest io' = ep_interest io \<and> io_timers io' = io_timers io"
proof -
  let ?c = "m_fdContexts io ! n"
  have ok: "ctx_ok n ?c" using core n by (simp add: io_core_def)
  have sub: "re AND READ \<noteq> 0 \<Longrightarrow> wants READ ?c" "re AND WRITE \<noteq> 0 \<Longrightarrow> wants WRITE ?c"
    using ok re by (auto simp: ctx_ok_def wants_def event_defs)
  obtain io1 c1 where 1: "trigger_if (re AND READ \<noteq> 0) n READ io = Inr io1" "io_core io1"
    "m_fdContexts io1 = (m_fdContexts io)[n := c1]"
    "fc_events c1 = (if re AND READ \<noteq> 0 then fc_events ?c AND NOT READ else fc_events ?c)"
    "m_tasks (io_sched io1) = m_tasks (io_sched io) @ (if re AND READ \<noteq> 0 then [waiting (context_of READ ?c)] else [])"
    "ep_interest io1 = ep_interest io" "io_timers io1 = io_timers io" "fc_write c1 = fc_write ?c"
    using trigger_if_correct [OF core n, of READ "re AND READ \<noteq> 0"] sub(1) by blast
  have n1: "n < length (m_fdContexts io1)" and c1: "m_fdContexts io1 ! n = c1" using n 1(3) by simp_all
  have "wants WRITE c1" if "re AND WRITE \<noteq> 0"
    using sub(2) [OF that] ok 1(4) by (auto simp: ctx_ok_def wants_def event_defs split: if_splits)
  then obtain io2 c2 where 2: "trigger_if (re AND WRITE \<noteq> 0) n WRITE io1 = Inr io2" "io_core io2"
    "m_fdContexts io2 = (m_fdContexts io1)[n := c2]"
    "fc_events c2 = (if re AND WRITE \<noteq> 0 then fc_events c1 AND NOT WRITE else fc_events c1)"
    "m_tasks (io_sched io2) = m_tasks (io_sched io1) @ (if re AND WRITE \<noteq> 0 then [waiting (context_of WRITE c1)] else [])"
    "ep_interest io2 = ep_interest io1" "io_timers io2 = io_timers io1"
    using trigger_if_correct [OF 1(2) n1, of WRITE "re AND WRITE \<noteq> 0"] unfolding c1 by blast
  have "fc_events c2 = fc_events ?c AND NOT re"
    using 1(4) 2(4) ok re by (auto simp: ctx_ok_def event_defs)
  moreover have "m_tasks (io_sched io2) = m_tasks (io_sched io) @ woken re ?c"
    using 1(5,8) 2(5) by (simp add: woken_def context_of_def event_defs)
  ultimately show ?thesis using 1 2 by (intro exI [of _ io2] exI [of _ c2]) simp
qed

lemma trigger_if_other:
  assumes "trigger_if b n READ io = Inr io'" "n < length (m_fdContexts io)"
  shows "wants WRITE (m_fdContexts io' ! n) = wants WRITE (m_fdContexts io ! n)"
  using assms
  by (auto simp: trigger_if_def trigger_on_def triggerEvent_def dag_bind io_schedule_def put_context_def
      setEventContext_def wants_def event_defs Let_def and.assoc split: if_splits)

lemma trigger_if_wants: "trigger_if b n event io = Inr io' \<Longrightarrow> b \<Longrightarrow> wants event (m_fdContexts io ! n)"
  by (auto simp: trigger_if_def trigger_on_def triggerEvent_def wants_def dag_bind split: if_splits)

lemma real_events_range: "real_events ev c \<in> {0, 1, 4, 5}"
  by (auto simp: real_events_def event_defs Let_def)

lemma dispatch_correct:
  assumes inv: "io_inv io" and n: "n < length (m_fdContexts io)"
    and re: "re = real_events ev (m_fdContexts io ! n)" "re AND fc_events (m_fdContexts io ! n) = re"
  shows "\<exists>io'. dispatch n ev 0 io = Inr io' \<and> io_inv io' \<and> io_timers io' = io_timers io \<and>
    m_tasks (io_sched io') = m_tasks (io_sched io) @ woken re (m_fdContexts io ! n) \<and>
    length (m_fdContexts io') = length (m_fdContexts io) \<and>
    fc_events (m_fdContexts io' ! n) = fc_events (m_fdContexts io ! n) AND NOT re \<and>
    (\<forall>i. i \<noteq> n \<longrightarrow> m_fdContexts io' ! i = m_fdContexts io ! i)"
proof (cases "re = 0")
  case True
  moreover have "x AND NOT 0 = x" for x :: events by simp
  ultimately show ?thesis using inv re
    by (intro exI [of _ io]) (simp add: dispatch_def woken_def NONE_def Let_def)
next
  case False
  let ?c = "m_fdContexts io ! n"
  let ?left = "fc_events ?c AND NOT re"
  let ?io1 = "io\<lparr>ep_interest := ctl_effect (removal_op ?left) n (EPOLLET OR ?left) (ep_interest io)\<rparr>"
  have core: "io_core ?io1" using inv by (simp add: io_inv_def)
  obtain io' c' where t: "rbind (trigger_if (re AND READ \<noteq> 0) n READ ?io1) (trigger_if (re AND WRITE \<noteq> 0) n WRITE) = Inr io'"
    "io_core io'" "m_fdContexts io' = (m_fdContexts io)[n := c']" "fc_events c' = ?left"
    "m_tasks (io_sched io') = m_tasks (io_sched io) @ woken re ?c"
    "ep_interest io' = ep_interest ?io1" "io_timers io' = io_timers io"
    using trigger_set_correct [OF core, of n re] n re real_events_range [of ev ?c] by auto
  have "ep_interest io' = interest_of io'"
    using interest_put [OF inv n t(3), of EPOLL_CTL_MOD] t(4,6) by (simp add: removal_op_eq)
  moreover have "dispatch n ev 0 io = Inr io'"
    using False t(1) re by (simp add: dispatch_def NONE_def and.commute Let_def)
  ultimately show ?thesis using t n by (auto simp: io_inv_def)
qed

text \<open>A readiness report that no longer fits the registered events stops at an assertion.\<close>

lemma dispatch_subset:
  assumes "n < length (m_fdContexts io)" "dispatch n ev 0 io = Inr io'" "re = real_events ev (m_fdContexts io ! n)"
    and ok: "ctx_ok n (m_fdContexts io ! n)" and some: "fc_events (m_fdContexts io ! n) AND re \<noteq> 0"
  shows "re AND fc_events (m_fdContexts io ! n) = re"
proof -
  let ?c = "m_fdContexts io ! n"
  let ?io1 = "io\<lparr>ep_interest := ctl_effect (removal_op (fc_events ?c AND NOT re)) n
    (EPOLLET OR (fc_events ?c AND NOT re)) (ep_interest io)\<rparr>"
  obtain io2 where 2: "trigger_if (re AND READ \<noteq> 0) n READ ?io1 = Inr io2"
    "trigger_if (re AND WRITE \<noteq> 0) n WRITE io2 = Inr io'"
    using assms(2,3) some by (auto simp: dispatch_def NONE_def Let_def dag_bind)
  have "re AND READ \<noteq> 0 \<Longrightarrow> wants READ ?c" using trigger_if_wants [OF 2(1)] by simp
  moreover have "re AND WRITE \<noteq> 0 \<Longrightarrow> wants WRITE ?c"
    using trigger_if_wants [OF 2(2)] trigger_if_other [OF 2(1)] assms(1) by simp
  ultimately show ?thesis using ok assms(3) real_events_range [of ev ?c]
    by (auto simp: ctx_ok_def wants_def event_defs)
qed

lemma dispatch_inv:
  assumes inv: "io_inv io" and n: "n < length (m_fdContexts io)" and d: "dispatch n ev rt2 io = Inr io'"
  shows "io_inv io'"
proof (cases "rt2 = 0 \<and> fc_events (m_fdContexts io ! n) AND real_events ev (m_fdContexts io ! n) \<noteq> 0")
  case True
  have "ctx_ok n (m_fdContexts io ! n)" using inv n by (simp add: io_inv_def io_core_def)
  with True dispatch_subset [OF n, of ev io'] dispatch_correct [OF inv n refl, of ev] d show ?thesis by auto
next
  case False
  with inv d show ?thesis by (auto simp: dispatch_def NONE_def Let_def split: if_splits)
qed

lemma cancelAll_correct:
  assumes inv: "io_inv io" and fd: "0 \<le> fd" "nat fd < length (m_fdContexts io)"
    and some: "fc_events (m_fdContexts io ! nat fd) \<noteq> 0"
  shows "\<exists>io'. cancelAll fd 0 io = Inr (True, io') \<and> io_inv io' \<and> io_timers io' = io_timers io \<and>
    m_tasks (io_sched io') = m_tasks (io_sched io) @
      woken (fc_events (m_fdContexts io ! nat fd)) (m_fdContexts io ! nat fd) \<and>
    fc_events (m_fdContexts io' ! nat fd) = 0 \<and> ep_interest io' (nat fd) = None \<and>
    length (m_fdContexts io') = length (m_fdContexts io) \<and>
    (\<forall>i. i \<noteq> nat fd \<longrightarrow> m_fdContexts io' ! i = m_fdContexts io ! i)"
proof -
  let ?n = "nat fd" and ?c = "m_fdContexts io ! nat fd"
  let ?io1 = "io\<lparr>ep_interest := ctl_effect EPOLL_CTL_DEL ?n 0 (ep_interest io)\<rparr>"
  have core: "io_core ?io1" using inv by (simp add: io_inv_def)
  have range: "fc_events ?c \<in> {0, 1, 4, 5}" using inv fd(2) by (simp add: io_inv_def io_core_def ctx_ok_def)
  obtain io' c' where t: "rbind (trigger_if (fc_events ?c AND READ \<noteq> 0) ?n READ ?io1)
      (trigger_if (fc_events ?c AND WRITE \<noteq> 0) ?n WRITE) = Inr io'"
    "io_core io'" "m_fdContexts io' = (m_fdContexts io)[?n := c']" "fc_events c' = 0"
    "m_tasks (io_sched io') = m_tasks (io_sched io) @ woken (fc_events ?c) ?c"
    "ep_interest io' = ep_interest ?io1" "io_timers io' = io_timers io"
    using trigger_set_correct [OF core, of ?n "fc_events ?c"] fd range by auto
  have int: "ep_interest io' = interest_of io'"
    using interest_put [OF inv fd(2) t(3), of EPOLL_CTL_MOD] t(4,6) by (simp add: ctl_effect_def)
  obtain io2 where 2: "trigger_if (fc_events ?c AND READ \<noteq> 0) ?n READ ?io1 = Inr io2"
    "trigger_if (fc_events ?c AND WRITE \<noteq> 0) ?n WRITE io2 = Inr io'"
    using t(1) by (auto simp: dag_bind)
  have "fc_events (m_fdContexts io2 ! ?n) AND WRITE \<noteq> 0 \<longleftrightarrow> fc_events ?c AND WRITE \<noteq> 0"
    using trigger_if_other [OF 2(1)] fd(2) by (simp add: wants_def)
  then have "cancelAll fd 0 io = Inr (True, io')"
    using some 2 t(3,4) fd by (simp add: cancelAll_def find_context_in Let_def)
  with t int fd show ?thesis by (auto simp: io_inv_def ctl_effect_def)
qed

text \<open>Whether or not events are registered for it, no event is left for the descriptor.\<close>

lemma cancelAll_total:
  assumes inv: "io_inv io" and fd: "0 \<le> fd" "nat fd < length (m_fdContexts io)"
  shows "\<exists>r io'. cancelAll fd 0 io = Inr (r, io') \<and>
    m_tasks (io_sched io') = m_tasks (io_sched io) @
      woken (fc_events (m_fdContexts io ! nat fd)) (m_fdContexts io ! nat fd) \<and>
    fc_events (m_fdContexts io' ! nat fd) = 0 \<and> length (m_fdContexts io') = length (m_fdContexts io) \<and>
    (\<forall>i. i \<noteq> nat fd \<longrightarrow> m_fdContexts io' ! i = m_fdContexts io ! i)"
proof (cases "fc_events (m_fdContexts io ! nat fd) = 0")
  case True
  then have "cancelAll fd 0 io = Inr (False, io)" using fd by (simp add: cancelAll_def find_context_in)
  with True show ?thesis by (intro exI [of _ False] exI [of _ io]) (simp add: woken_def)
next
  case False
  from cancelAll_correct [OF assms this] show ?thesis by blast
qed

lemma cancelAll_inv:
  assumes "io_inv io" "cancelAll fd rt io = Inr (r, io')"
  shows "io_inv io'"
proof (cases "r")
  case True
  with assms(2) obtain n where "find_context fd io = Inr (Some n)" "fc_events (m_fdContexts io ! n) \<noteq> 0" "rt = 0"
    by (auto simp: cancelAll_def Let_def dag_bind split: option.splits if_splits)
  with cancelAll_correct [OF assms(1), of fd] find_context_Some [of fd io n] assms(2) show ?thesis by auto
next
  case False
  with assms show ?thesis
    by (auto simp: cancelAll_def Let_def dag_bind split: option.splits if_splits)
qed

section \<open>Reachable managers\<close>

text \<open>
  Every critical section of the manager is a step, in any order and on any thread: the operations on
  events, the report of one ready descriptor, the expiry of timers, the operations of the base
  classes. \<open>delEvent\<close> is taken with an \<open>epoll_ctl\<close> that succeeds; what happens otherwise is stated
  separately.
\<close>

inductive io_step :: "('fiber, 'f) IOManager \<Rightarrow> ('fiber, 'f) IOManager \<Rightarrow> bool" where
  io_add: "addEvent fd event cb rt True f io = Inr (r, io') \<Longrightarrow> io_step io io'"
| io_del: "delEvent fd event 0 io = Inr (b, io') \<Longrightarrow> io_step io io'"
| io_cancel: "cancelEvent fd event rt io = Inr (b, io') \<Longrightarrow> io_step io io'"
| io_cancel_all: "cancelAll fd rt io = Inr (b, io') \<Longrightarrow> io_step io io'"
| io_dispatch: "n < length (m_fdContexts io) \<Longrightarrow> dispatch n ev rt2 io = Inr io' \<Longrightarrow> io_step io io'"
| io_expire: "idle_round now now' [] io = Some (Inr io') \<Longrightarrow> io_step io io'"
| io_timer: "tm_step (io_timers io) tm \<Longrightarrow> io_step io (io\<lparr>io_timers := tm\<rparr>)"
| io_submit: "io_step io (io_schedule task io)"
| io_take: "take_task w (io_sched io) = Inr (t, tk, s) \<Longrightarrow> io_step io (io\<lparr>io_sched := s\<rparr>)"
| io_stop: "IOManager_stop now is_this io = Inr (io', x) \<Longrightarrow> io_step io io'"

inductive_cases io_step_cases: "io_step io io'"

inductive io_reach :: "('fiber, 'f) IOManager \<Rightarrow> bool" where
  io_start: "Scheduler_new False tid threads use_caller name = Inr s \<Longrightarrow> IOManager_new now s ids = Inr io \<Longrightarrow> io_reach io"
| io_next: "io_reach io \<Longrightarrow> io_step io io' \<Longrightarrow> io_reach io'"

definition io_all_inv :: "('fiber, 'f) IOManager \<Rightarrow> bool" where
  "io_all_inv io \<longleftrightarrow> io_inv io \<and> tm_inv (io_timers io)"

lemma interest_of_cong: "m_fdContexts io' = m_fdContexts io \<Longrightarrow> interest_of io' = interest_of io"
  by (rule ext) (simp add: interest_of_def)

lemma io_inv_base:
  assumes "io_inv io" "m_fdContexts io' = m_fdContexts io" "ep_interest io' = ep_interest io"
    "m_pendingEvenCount io' = m_pendingEvenCount io" "\<forall>t \<in> set (m_tasks (io_sched io')). has_work t"
  shows "io_inv io'"
  using assms interest_of_cong [OF assms(2)] by (simp add: io_inv_def io_core_def)

lemma io_inv_work: "io_inv io \<Longrightarrow> \<forall>t \<in> set (m_tasks (io_sched io)). has_work t"
  by (simp add: io_inv_def io_core_def)

lemma io_schedule_frame [simp]:
  "m_fdContexts (io_schedule t io) = m_fdContexts io" "ep_interest (io_schedule t io) = ep_interest io"
  "m_pendingEvenCount (io_schedule t io) = m_pendingEvenCount io" "io_timers (io_schedule t io) = io_timers io"
  "m_tasks (io_sched (io_schedule t io)) = m_tasks (io_sched io) @ (if has_work t then [t] else [])"
  by (simp_all add: io_schedule_def schedulerLock_def Let_def)

lemma io_schedule_inv: "io_inv io \<Longrightarrow> io_inv (io_schedule t io)"
  by (rule io_inv_base) (auto simp: io_inv_work)

lemma io_inv_timers [simp]: "io_inv (io\<lparr>io_timers := tm\<rparr>) = io_inv io"
  by (simp add: io_inv_def io_core_def interest_of_cong [of "io\<lparr>io_timers := tm\<rparr>" io])

lemma io_inv_sched:
  assumes "io_inv io" "set (m_tasks s) \<subseteq> set (m_tasks (io_sched io))"
  shows "io_inv (io\<lparr>io_sched := s\<rparr>)"
proof (rule io_inv_base [OF assms(1)])
  show "\<forall>t \<in> set (m_tasks (io_sched (io\<lparr>io_sched := s\<rparr>))). has_work t"
    using io_inv_work [OF assms(1)] assms(2) by (simp add: subset_eq)
qed simp_all

lemma io_take_subset:
  "io_inv io \<Longrightarrow> take_task w (io_sched io) = Inr (r, tk, s') \<Longrightarrow> set (m_tasks s') \<subseteq> set (m_tasks (io_sched io))"
  using take_task_Some [of "io_sched io" w] take_task_None [of "io_sched io" w] io_inv_work [of io]
  by (cases r) auto

lemma idle_timeout_inv: "io_all_inv io \<Longrightarrow> io_all_inv (snd (idle_timeout now io))"
  using tm_inv_getNextTimer [of "io_timers io" now]
  by (auto simp: io_all_inv_def idle_timeout_def split: prod.splits)

lemma schedule_all_inv:
  "io_inv io \<Longrightarrow> io_inv (fold (\<lambda>cb. io_schedule (SchedulerTask_cb cb (- 1))) cbs io) \<and>
     io_timers (fold (\<lambda>cb. io_schedule (SchedulerTask_cb cb (- 1))) cbs io) = io_timers io"
  by (induction cbs arbitrary: io) (auto simp: io_schedule_inv)

lemma schedule_all_tasks:
  "None \<notin> set cbs \<Longrightarrow>
   m_tasks (io_sched (fold (\<lambda>cb. io_schedule (SchedulerTask_cb cb (- 1))) cbs io)) =
   m_tasks (io_sched io) @ map (\<lambda>cb. SchedulerTask_cb cb (- 1)) cbs"
proof (induction cbs arbitrary: io)
  case (Cons cb cbs)
  moreover from Cons.prems obtain f where "cb = Some f" by (cases cb) auto
  ultimately show ?case by (simp add: has_work_def SchedulerTask_cb_def)
qed simp

lemma io_expire_inv:
  assumes "io_all_inv io" "idle_round now now' [] io = Some (Inr io')"
  shows "io_all_inv io'"
proof -
  obtain cbs tm where l: "listExpiredCb now now' (io_timers io) = Some (cbs, tm)"
    and io': "io' = fold (\<lambda>cb. io_schedule (SchedulerTask_cb cb (- 1))) cbs (io\<lparr>io_timers := tm\<rparr>)"
    using assms(2) by (auto simp: idle_round_def)
  show ?thesis
    using schedule_all_inv [of "io\<lparr>io_timers := tm\<rparr>" cbs] listExpiredCb_inv [OF l] assms(1)
    by (simp add: io' io_all_inv_def)
qed

lemma IOManager_stop_cases:
  assumes "IOManager_stop now is_this io = Inr (io', x)"
  obtains ms tm b where "getNextTimer now (io_timers io) = (ms, tm)"
    "io' = io\<lparr>io_timers := tm, io_sched := (io_sched io)\<lparr>m_stopping := b\<rparr>\<rparr>"
proof -
  obtain ms tm where tm: "getNextTimer now (io_timers io) = (ms, tm)" by fastforce
  have same: "io\<lparr>io_timers := tm\<rparr> = io\<lparr>io_timers := tm, io_sched := (io_sched io)\<lparr>m_stopping := m_stopping (io_sched io)\<rparr>\<rparr>" by simp
  have "io' = io\<lparr>io_timers := tm\<rparr> \<or> io' = io\<lparr>io_timers := tm, io_sched := (io_sched io)\<lparr>m_stopping := True\<rparr>\<rparr>"
    using assms tm by (auto simp: IOManager_stop_def io_stopping_def request_stop_def Let_def dag_bind split: if_splits)
  then have "\<exists>b. io' = io\<lparr>io_timers := tm, io_sched := (io_sched io)\<lparr>m_stopping := b\<rparr>\<rparr>" using same by metis
  with tm that show thesis by blast
qed

text \<open>The operations on events leave the timers alone.\<close>

lemma contextResize_timers [simp]: "io_timers (contextResize n io) = io_timers io"
  by (simp add: contextResize_def)

lemma trigger_if_timers: "trigger_if b n event io = Inr io' \<Longrightarrow> io_timers io' = io_timers io"
  by (auto simp: trigger_if_def trigger_on_def put_context_def dag_bind split: if_splits)

lemma trigger_on_timers: "trigger_on n event io = Inr io' \<Longrightarrow> io_timers io' = io_timers io"
  using trigger_if_timers [of True] by (simp add: trigger_if_def)

lemma event_ops_timers:
  "addEvent fd event cb rt b f io = Inr (r, io') \<Longrightarrow> io_timers io' = io_timers io"
  "delEvent fd event rt io = Inr (x, io') \<Longrightarrow> io_timers io' = io_timers io"
  "cancelEvent fd event rt io = Inr (x, io') \<Longrightarrow> io_timers io' = io_timers io"
  "cancelAll fd rt io = Inr (x, io') \<Longrightarrow> io_timers io' = io_timers io"
  "dispatch n ev rt io = Inr io' \<Longrightarrow> io_timers io' = io_timers io"
  by (auto simp: addEvent_def delEvent_def cancelEvent_def cancelAll_def dispatch_def Let_def dag_bind put_context_def
      split: if_splits option.splits dest!: trigger_if_timers trigger_on_timers)

lemmas event_ops_inv = addEvent_inv delEvent_inv cancelEvent_inv cancelAll_inv dispatch_inv

lemma io_step_inv: "io_step io io' \<Longrightarrow> io_all_inv io \<Longrightarrow> io_all_inv io'"
proof (induction rule: io_step.induct)
  case (io_timer io tm)
  then show ?case using tm_step_inv by (auto simp: io_all_inv_def)
next
  case (io_take w io t tk s)
  then show ?case using io_inv_sched [of io s] io_take_subset [of io] by (auto simp: io_all_inv_def)
next
  case (io_stop now is_this io io' x)
  from io_stop(1) obtain ms tm b where tm: "getNextTimer now (io_timers io) = (ms, tm)"
    and io': "io' = io\<lparr>io_timers := tm, io_sched := (io_sched io)\<lparr>m_stopping := b\<rparr>\<rparr>" by (rule IOManager_stop_cases)
  have "tm_inv tm" using tm_step_inv [OF step_next [OF tm]] io_stop(2) by (simp add: io_all_inv_def)
  moreover have "io_inv io'" using io_inv_base [of io io'] io_inv_work [of io] io_stop(2) by (simp add: io' io_all_inv_def)
  ultimately show ?case by (simp add: io' io_all_inv_def)
next
  case (io_expire now now' io io')
  then show ?case by (blast intro: io_expire_inv)
qed (auto simp: io_all_inv_def io_schedule_inv event_ops_timers intro: event_ops_inv)

lemma n_events_eq_0: "ctx_ok i c \<Longrightarrow> n_events c = 0 \<longleftrightarrow> fc_events c = 0"
  by (auto simp: ctx_ok_def n_events_def wants_def event_defs)

lemma IOManager_new_inv:
  assumes "Scheduler_new False tid threads use_caller name = Inr s" "IOManager_new now s ids = Inr io"
  shows "io_all_inv io"
proof -
  let ?cs = "map FdContext_new [0..<32]"
  have io: "m_fdContexts io = ?cs" "m_pendingEvenCount io = 0" "ep_interest io = Map.empty"
    "io_timers io = TimerManager_new now" "m_tasks (io_sched io) = []"
    using assms by (auto simp: IOManager_new_def contextResize_def start_def Scheduler_new_def Let_def dag_bind split: if_splits)
  have "sum_list (map n_events ?cs) = 0" by (simp add: o_def FdContext_new_ok)
  moreover have "i < 32 \<Longrightarrow> ?cs ! i = FdContext_new i" for i by simp
  ultimately have "io_core io" by (simp add: io_core_def io FdContext_new_ok)
  moreover have "interest_of io i = None" for i by (simp add: interest_of_def io FdContext_new_ok)
  ultimately show ?thesis using tm_inv_new [of now] by (auto simp: io_all_inv_def io_inv_def io)
qed

lemma io_reach_inv: "io_reach io \<Longrightarrow> io_all_inv io"
  by (induction rule: io_reach.induct) (auto intro: IOManager_new_inv io_step_inv)

section \<open>Properties\<close>

text \<open>A manager with two workers and 32 contexts, for the examples.\<close>

definition io_fresh :: "('fiber, 'f) IOManager" where
  "io_fresh =
     \<lparr>io_sched = \<lparr>m_name = ''io'', m_tasks = [], m_threads = 2, m_threadIds = [7, 8], m_threadCount = 2,
                  m_activeThreadCount = 0, m_idleThreadCount = 0, m_useCaller = False,
                  m_schedulerFiber = False, m_rootThread = - 1, m_stopping = False\<rparr>,
      io_timers = TimerManager_new 0, m_pendingEvenCount = 0, m_fdContexts = map FdContext_new [0..<32],
      ep_interest = Map.empty\<rparr>"

abbreviation io_example :: "(nat, nat) IOManager" where
  "io_example \<equiv> io_fresh"

lemma io_fresh_new: "\<exists>s. Scheduler_new False 1 2 False ''io'' = Inr s \<and> IOManager_new 0 s [7, 8] = Inr io_fresh"
  by (simp add: Scheduler_new_def IOManager_new_def contextResize_def start_def io_fresh_def Let_def)

lemma io_fresh_reach: "io_reach io_fresh"
  using io_fresh_new by (blast intro: io_start)

lemma io_example_reach: "io_reach io_example"
  by (rule io_fresh_reach)



text \<open>
  What a waiter relies on: it is woken by whichever trigger comes first, and every later one finds
  nothing to do.
\<close>

locale one_shot =
  fixes inv :: "'s \<Rightarrow> bool"
    and pending :: "'s \<Rightarrow> bool"
    and tasks :: "'s \<Rightarrow> 'q list"
    and waiter :: "'s \<Rightarrow> 'q"
    and fire :: "'a \<Rightarrow> 's \<Rightarrow> 's res"
  assumes fire_pending: "inv s \<Longrightarrow> pending s \<Longrightarrow>
      \<exists>s'. fire a s = Inr s' \<and> inv s' \<and> \<not> pending s' \<and> tasks s' = tasks s @ [waiter s]"
    and fire_idle: "inv s \<Longrightarrow> \<not> pending s \<Longrightarrow> fire a s = Inr s"
begin

lemma idle_forever: "inv s \<Longrightarrow> \<not> pending s \<Longrightarrow> rfold fire as s = Inr s"
  by (induction as) (simp_all add: fire_idle)

lemma fires_once:
  assumes "inv s" "pending s"
  shows "\<exists>s'. rfold fire (a # as) s = Inr s' \<and> inv s' \<and> \<not> pending s' \<and> tasks s' = tasks s @ [waiter s]"
  using fire_pending [OF assms, of a] idle_forever by fastforce

end

text \<open>The two ways in which an event of a descriptor is triggered.\<close>

datatype trigger = Report | Cancel

fun event_trigger :: "int \<Rightarrow> events \<Rightarrow> trigger \<Rightarrow> ('fiber, 'f) IOManager \<Rightarrow> ('fiber, 'f) IOManager res" where
  "event_trigger fd event Report io = dispatch (nat fd) event 0 io"
| "event_trigger fd event Cancel io = rmap snd (cancelEvent fd event 0 io)"

definition known_event :: "int \<Rightarrow> events \<Rightarrow> ('fiber, 'f) IOManager \<Rightarrow> bool" where
  "known_event fd event io \<longleftrightarrow> io_inv io \<and> 0 \<le> fd \<and> nat fd < length (m_fdContexts io) \<and> (event = READ \<or> event = WRITE)"

lemma real_events_same: "event = READ \<or> event = WRITE \<Longrightarrow> real_events event c = event"
  by (auto simp: real_events_def event_defs)

lemma event_trigger_pending:
  assumes known: "known_event fd event io" and w: "wants event (m_fdContexts io ! nat fd)"
  shows "\<exists>io'. event_trigger fd event a io = Inr io' \<and> known_event fd event io' \<and>
    \<not> wants event (m_fdContexts io' ! nat fd) \<and>
    m_tasks (io_sched io') = m_tasks (io_sched io) @ [waiting (context_of event (m_fdContexts io ! nat fd))]"
proof -
  let ?c = "m_fdContexts io ! nat fd"
  have k: "io_inv io" "0 \<le> fd" "nat fd < length (m_fdContexts io)" "event = READ \<or> event = WRITE"
    using known by (auto simp: known_event_def)
  have gone: "(x AND NOT event) AND event = 0" for x by (simp add: and.assoc)
  show ?thesis
  proof (cases a)
    case Cancel
    with cancelEvent_correct [OF k w] k gone show ?thesis
      by (auto simp: known_event_def wants_def)
  next
    case Report
    have "event AND fc_events ?c = event"
      using k w by (auto simp: io_inv_def io_core_def ctx_ok_def wants_def event_defs)
    moreover have "woken event ?c = [waiting (context_of event ?c)]"
      using k(4) by (auto simp: woken_def context_of_def event_defs)
    ultimately show ?thesis
      using dispatch_correct [OF k(1,3) refl, of event] Report k gone
      by (auto simp: known_event_def wants_def real_events_same)
  qed
qed

interpretation waiter: one_shot "known_event fd event" "\<lambda>io. wants event (m_fdContexts io ! nat fd)"
  "\<lambda>io. m_tasks (io_sched io)" "\<lambda>io. waiting (context_of event (m_fdContexts io ! nat fd))" "event_trigger fd event"
  for fd event
proof (unfold_locales, goal_cases)
  case (1 s a)
  then show ?case by (rule event_trigger_pending)
next
  case (2 s a)
  then show ?case
    by (cases a) (auto simp: known_event_def cancelEvent_def find_context_in dispatch_def wants_def NONE_def Let_def real_events_same)
qed

text \<open>
  C15: a fiber that registers itself for an event is scheduled exactly once, whatever sequence of
  readiness reports and cancellations of this event follows.
\<close>

theorem waiter_woken_once:
  assumes "io_reach io" "0 \<le> fd" "event = READ \<or> event = WRITE"
    and "addEvent fd event None 0 True (f, RUNNING) io = Inr (r, io1)"
  shows "r = 0 \<and> m_tasks (io_sched io1) = m_tasks (io_sched io) \<and>
    (\<exists>io2. rfold (event_trigger fd event) (a # as) io1 = Inr io2 \<and>
       m_tasks (io_sched io2) = m_tasks (io_sched io) @ [SchedulerTask_fiber (Some f) (- 1)] \<and>
       \<not> wants event (m_fdContexts io2 ! nat fd))"
proof -
  let ?n = "nat fd"
  have inv: "io_inv io" using io_reach_inv [OF assms(1)] by (simp add: io_all_inv_def)
  have free: "\<not> wants event (m_fdContexts (with_context ?n io) ! ?n)"
    using assms(2,4) by (auto simp: addEvent_def with_context_def [symmetric] wants_def Let_def split: if_splits)
  obtain c1 where 1: "r = 0" "io_inv io1" "io_sched io1 = io_sched io"
    "m_fdContexts io1 = (m_fdContexts (with_context ?n io))[?n := c1]" "wants event c1"
    "context_of event c1 = \<lparr>ev_scheduler = True, ev_fiber = Some f, ev_cb = None\<rparr>"
    using addEvent_correct [OF inv assms(2,3) free, of None "(f, RUNNING)"] assms(4) by auto
  have n: "?n < length (m_fdContexts io1)" and c1: "m_fdContexts io1 ! ?n = c1"
    using with_context_grows [OF inv, of ?n] 1(4) by auto
  have "known_event fd event io1" using 1(2) n assms(2,3) by (simp add: known_event_def)
  from waiter.fires_once [OF this, of a as] 1(1,3,5,6) show ?thesis unfolding c1 by (auto simp: waiting_def)
qed

theorem waiter_woken_once_witness:
  "\<exists>io1 io2. addEvent 5 READ None 0 True (3, RUNNING) io_example = Inr (0, io1) \<and>
     rfold (event_trigger 5 READ) [Report, Cancel, Report] io1 = Inr io2 \<and>
     m_tasks (io_sched io2) = [SchedulerTask_fiber (Some 3) (- 1)]"
proof -
  have inv: "io_inv io_example" using io_reach_inv [OF io_example_reach] by (simp add: io_all_inv_def)
  have free: "\<not> wants READ (m_fdContexts (with_context (nat 5) io_example) ! nat 5)"
    by (simp add: with_context_def io_fresh_def wants_def FdContext_new_ok)
  obtain io1 where 1: "addEvent 5 READ None 0 True (3, RUNNING) io_example = Inr (0, io1)"
    using addEvent_correct [OF inv _ _ free, of None "(3, RUNNING)"] by auto
  have "m_tasks (io_sched io_example) = []" by (simp add: io_fresh_def)
  with waiter_woken_once [OF io_example_reach _ _ 1, of Report "[Cancel, Report]"] 1 show ?thesis by auto
qed

text \<open>
  Adding an event grows the table to hold the descriptor; the operations that take an event away
  test only that the table is not empty and access it out of bounds.
\<close>

lemma unknown_descriptor:
  assumes "io_reach io" "int (length (m_fdContexts io)) \<le> fd" "event = READ \<or> event = WRITE"
  shows "(\<exists>io'. addEvent fd event (Some cb) 0 True f io = Inr (0, io') \<and> nat fd < length (m_fdContexts io') \<and>
      wants event (m_fdContexts io' ! nat fd)) \<and>
    delEvent fd event rt io = Inl Out_Of_Bounds \<and> cancelEvent fd event rt io = Inl Out_Of_Bounds \<and>
    cancelAll fd rt io = Inl Out_Of_Bounds"
proof -
  have inv: "io_inv io" using io_reach_inv [OF assms(1)] by (simp add: io_all_inv_def)
  then have len: "32 \<le> length (m_fdContexts io)" by (simp add: io_inv_def io_core_def)
  have fd: "0 \<le> fd" "length (m_fdContexts io) \<le> nat fd" using assms(2) by auto
  have "nat fd < nat fd * 3 div 2" using len fd(2) by simp
  then have "m_fdContexts (with_context (nat fd) io) ! nat fd = FdContext_new (nat fd)"
    using fd(2) by (simp add: with_context_def contextResize_def nth_append)
  then have "\<not> wants event (m_fdContexts (with_context (nat fd) io) ! nat fd)"
    by (simp add: wants_def FdContext_new_ok)
  from addEvent_correct [OF inv fd(1) assms(3) this, of "Some cb" f] with_context_grows [OF inv, of "nat fd"]
  have "\<exists>io'. addEvent fd event (Some cb) 0 True f io = Inr (0, io') \<and> nat fd < length (m_fdContexts io') \<and>
      wants event (m_fdContexts io' ! nat fd)" by auto
  moreover have "find_context fd io = Inl Out_Of_Bounds" using len fd(2) by (auto simp: find_context_def)
  ultimately show ?thesis by (simp add: delEvent_def cancelEvent_def cancelAll_def)
qed

lemma unknown_descriptor_witness: "cancelAll 40 0 io_example = Inl Out_Of_Bounds"
  using unknown_descriptor [OF io_example_reach, of 40 READ] by (simp add: io_fresh_def)

text \<open>
  A readiness report is collected before the context is locked. If one of the reported events has
  been removed in between while another is still registered, the event loop stops at the assertion
  of \<open>triggerEvent\<close>; if all of them have been removed, nothing happens.
\<close>

lemma stale_report_asserts:
  assumes "n < length (m_fdContexts io)" "fc_events (m_fdContexts io ! n) = WRITE"
  shows "dispatch n (EPOLLIN OR EPOLLOUT) 0 io = Inl (Assertion ''events & event'') \<and>
    dispatch n EPOLLIN 0 io = Inr io"
  using assms
  by (simp add: dispatch_def real_events_def trigger_if_def trigger_on_def triggerEvent_def event_defs Let_def)

lemma stale_report_asserts_witness:
  "\<exists>io :: (nat, nat) IOManager. io_reach io \<and> dispatch 5 (EPOLLIN OR EPOLLOUT) 0 io = Inl (Assertion ''events & event'')"
proof -
  have inv: "io_inv io_example" using io_reach_inv [OF io_example_reach] by (simp add: io_all_inv_def)
  have c: "m_fdContexts (with_context (nat 5) io_example) ! nat 5 = FdContext_new 5"
    by (simp add: with_context_def io_fresh_def)
  have add: "addEvent 5 WRITE None 0 True (3, RUNNING) io_example =
      Inr (0, (put_context 5 (setEventContext WRITE \<lparr>ev_scheduler = True, ev_fiber = Some 3, ev_cb = None\<rparr>
        ((FdContext_new 5)\<lparr>fc_events := WRITE\<rparr>)) io_example)
        \<lparr>m_pendingEvenCount := 1, ep_interest := [5 \<mapsto> EPOLLET OR WRITE]\<rparr>)" (is "_ = Inr (0, ?io)")
    by (simp add: addEvent_def io_fresh_def FdContext_new_def getEventContext_def EventContext_empty_def event_defs
        ctl_effect_def Let_def)
  have "io_reach ?io" by (rule io_next [OF io_example_reach io_add [OF add]])
  moreover have "5 < length (m_fdContexts ?io)" "fc_events (m_fdContexts ?io ! 5) = WRITE"
    by (simp_all add: put_context_def io_fresh_def)
  ultimately show ?thesis using stale_report_asserts [of 5 ?io] by blast
qed

text \<open>
  The event loop reports that it is stopping exactly when no timer is left, no event is
  registered, so that the kernel watches none, and the scheduler has stopped with an empty queue and
  no active worker. (A timer of \<open>2 ^ 64 - 1\<close> milliseconds would be taken for none.)
\<close>

lemma io_stopping_iff:
  assumes "io_reach io" "\<forall>t \<in> set (m_timers (io_timers io)). deadline (io_timers io) t < now + milliseconds no_timer"
  shows "fst (io_stopping now io) \<longleftrightarrow> m_timers (io_timers io) = [] \<and> ep_interest io = Map.empty \<and>
    m_stopping (io_sched io) \<and> m_tasks (io_sched io) = [] \<and> m_activeThreadCount (io_sched io) = 0"
proof -
  have inv: "io_inv io" using io_reach_inv [OF assms(1)] by (simp add: io_all_inv_def)
  have "m_pendingEvenCount io = 0 \<longleftrightarrow> (\<forall>c \<in> set (m_fdContexts io). n_events c = 0)"
    using inv by (simp add: io_inv_def io_core_def)
  also have "\<dots> \<longleftrightarrow> (\<forall>i < length (m_fdContexts io). fc_events (m_fdContexts io ! i) = 0)"
    using inv n_events_eq_0 unfolding all_set_conv_all_nth io_inv_def io_core_def by blast
  also have "\<dots> \<longleftrightarrow> ep_interest io = Map.empty"
    using inv by (auto simp: io_inv_def interest_of_def fun_eq_iff split: if_splits)
  finally have pend: "m_pendingEvenCount io = 0 \<longleftrightarrow> ep_interest io = Map.empty" .
  have "fst (getNextTimer now (io_timers io)) = 2 ^ 64 - 1 \<longleftrightarrow> m_timers (io_timers io) = []"
    by (rule getNextTimer_none [OF assms(2)])
  with pend show ?thesis by (auto simp: io_stopping_def stopping_def split: prod.splits)
qed

lemma io_stopping_iff_witness: "\<not> fst (io_stopping 0 io_example)"
  using io_stopping_iff [OF io_example_reach, of 0] by (simp add: io_fresh_def TimerManager_new_def)

section \<open>Further facts\<close>

text \<open>
  When \<open>epoll_ctl\<close> fails, \<open>delEvent\<close> forgets the event although the kernel goes on watching it.
\<close>

lemma delEvent_failed_ctl:
  assumes inv: "io_inv io" and fd: "0 \<le> fd" "nat fd < length (m_fdContexts io)"
    and ev: "event = READ \<or> event = WRITE" "fc_events (m_fdContexts io ! nat fd) = event" and rt: "rt \<noteq> 0"
  shows "\<exists>io'. delEvent fd event rt io = Inr (True, io') \<and> interest_of io' (nat fd) = None \<and>
    ep_interest io' (nat fd) = Some (EPOLLET OR event)"
proof -
  have "event \<noteq> 0" using ev(1) by (auto simp: event_defs)
  then have "ep_interest io (nat fd) = Some (EPOLLET OR event)"
    using inv fd ev(2) by (simp add: io_inv_def interest_of_def)
  moreover have "getEventContext event c \<noteq> Inl e" for c :: "('a, 'b) FdContext" and e
    using ev(1) by (auto simp: getEventContext_def event_defs)
  ultimately show ?thesis using ev fd rt \<open>event \<noteq> 0\<close>
    by (cases "getEventContext event (m_fdContexts io ! nat fd)")
      (auto simp: delEvent_def find_context_in put_context_def interest_of_def Let_def)
qed

text \<open>The idle fiber sleeps at most five seconds and never past the first deadline by its own choice.\<close>

lemma idle_timeout_bound: "fst (idle_timeout now io) \<le> 5000 \<and> fst (idle_timeout now io) \<le> fst (getNextTimer now (io_timers io))"
  by (simp add: idle_timeout_def split: prod.splits)

text \<open>A round of the idle fiber without ready descriptors schedules the callbacks of the expired timers.\<close>

lemma idle_round_schedules:
  assumes "io_all_inv io" "idle_round now now' [] io = Some (Inr io')" "listExpiredCb now now' (io_timers io) = Some (cbs, tm)"
  shows "m_tasks (io_sched io') = m_tasks (io_sched io) @ map (\<lambda>cb. SchedulerTask_cb cb (- 1)) cbs"
  using assms listExpiredCb_inv [OF assms(3)] schedule_all_tasks [of cbs "io\<lparr>io_timers := tm\<rparr>"]
  by (auto simp: idle_round_def io_all_inv_def)

text \<open>
  A whole round of the idle fiber, with interrupted waits, expired timers and any number of reports,
  leads from one reachable state to another; the fiber ends exactly when the loop is stopping. The
  destructor can be relied on then: its assertion holds.
\<close>

definition reports_known :: "ready list \<Rightarrow> ('fiber, 'f) IOManager \<Rightarrow> bool" where
  "reports_known rs io \<longleftrightarrow> (\<forall>r \<in> set rs. case r of Tickled \<Rightarrow> True | Ready_Fd n _ _ \<Rightarrow> n < length (m_fdContexts io))"

lemma reports_known_cong:
  "length (m_fdContexts io') = length (m_fdContexts io) \<Longrightarrow> reports_known rs io' = reports_known rs io"
  by (simp add: reports_known_def cong: ready.case_cong)

lemma trigger_if_length: "trigger_if b n event io = Inr io' \<Longrightarrow> length (m_fdContexts io') = length (m_fdContexts io)"
  by (auto simp: trigger_if_def trigger_on_def put_context_def dag_bind split: if_splits)

lemma dispatch_length: "dispatch n ev rt2 io = Inr io' \<Longrightarrow> length (m_fdContexts io') = length (m_fdContexts io)"
  by (auto simp: dispatch_def Let_def dag_bind split: if_splits dest!: trigger_if_length)

lemma idle_wait_step: "snd (idle_wait (now # nows) io) = snd (idle_wait nows (snd (idle_timeout now io)))"
  by (simp split: prod.splits)

lemma snd_idle_timeout: "snd (idle_timeout now io) = io\<lparr>io_timers := snd (getNextTimer now (io_timers io))\<rparr>"
  by (simp add: idle_timeout_def split: prod.splits)

lemma io_next_timer_reach: "io_reach io \<Longrightarrow> io_reach (io\<lparr>io_timers := snd (getNextTimer now (io_timers io))\<rparr>)"
  by (rule io_next, assumption, rule io_timer, rule step_next [of now], rule prod.collapse [symmetric])

lemma idle_wait_reach: "io_reach io \<Longrightarrow> io_reach (snd (idle_wait nows io))"
  by (induction nows arbitrary: io) (simp, simp only: idle_wait_step snd_idle_timeout io_next_timer_reach)

lemma idle_wait_contexts: "m_fdContexts (snd (idle_wait nows io)) = m_fdContexts io"
  by (induction nows arbitrary: io) (simp, simp add: idle_wait_step snd_idle_timeout del: idle_wait.simps)

lemma dispatch_all_reach:
  "io_reach io \<Longrightarrow> reports_known rs io \<Longrightarrow> dispatch_all rs io = Inr io' \<Longrightarrow> io_reach io'"
proof (induction rs io rule: dispatch_all.induct)
  case (3 n ev rt2 rs io)
  then obtain io1 where 1: "dispatch n ev rt2 io = Inr io1" "dispatch_all rs io1 = Inr io'" by (auto simp: dag_bind)
  moreover have "io_reach io1" using io_next [OF 3(2) io_dispatch [OF _ 1(1)]] 3(3) by (simp add: reports_known_def)
  moreover have "reports_known rs io1" using 3(3) reports_known_cong [OF dispatch_length [OF 1(1)], of rs] by (simp add: reports_known_def)
  ultimately show ?case using 3(1) by blast
qed (auto simp: reports_known_def)

lemma schedule_all_contexts:
  "m_fdContexts (fold (\<lambda>cb. io_schedule (SchedulerTask_cb cb (- 1))) cbs io) = m_fdContexts io"
  by (induction cbs arbitrary: io) (simp_all add: io_schedule_def)

lemma io_idle_reach:
  assumes "io_reach io" "reports_known rs io" "io_idle now nows now1 now2 rs io = Some (Inr (st, io'))"
  shows "io_reach io' \<and> (st = TERM_STATE \<longleftrightarrow> fst (io_stopping now io))"
proof -
  let ?tm = "snd (getNextTimer now (io_timers io))"
  have 1: "io_reach (io\<lparr>io_timers := ?tm\<rparr>)" using assms(1) by (rule io_next_timer_reach)
  obtain b where b: "io_stopping now io = (b, io\<lparr>io_timers := ?tm\<rparr>)" by (simp add: io_stopping_def split_beta)
  let ?io2 = "snd (idle_wait nows (io\<lparr>io_timers := ?tm\<rparr>))"
  show ?thesis
  proof (cases b)
    case False
    with assms(3) b obtain cbs tm2 where l: "listExpiredCb now1 now2 (io_timers ?io2) = Some (cbs, tm2)"
      and d: "dispatch_all rs (fold (\<lambda>cb. io_schedule (SchedulerTask_cb cb (- 1))) cbs (?io2\<lparr>io_timers := tm2\<rparr>)) = Inr io'"
      and st: "st = READY" by (auto simp: io_idle_def idle_round_def dag_bind)
    let ?io3 = "fold (\<lambda>cb. io_schedule (SchedulerTask_cb cb (- 1))) cbs (?io2\<lparr>io_timers := tm2\<rparr>)"
    have "idle_round now1 now2 [] ?io2 = Some (Inr ?io3)" using l by (simp add: idle_round_def)
    from io_next [OF idle_wait_reach [OF 1, of nows] io_expire [OF this]] have 3: "io_reach ?io3" .
    have "reports_known rs ?io3"
      using assms(2) reports_known_cong [of ?io3 io rs] by (simp add: schedule_all_contexts idle_wait_contexts)
    from dispatch_all_reach [OF 3 this d] st False b show ?thesis by simp
  qed (use assms(3) b 1 in \<open>auto simp: io_idle_def\<close>)
qed

lemma IOManager_delete_stopped:
  "fst (io_stopping now io) \<Longrightarrow> \<exists>io'. IOManager_delete this (Some this) io = Inr (None, io')"
  by (auto simp: IOManager_delete_def Scheduler_delete_def io_stopping_def split: prod.splits)

end
