(* ===== verification/TableRace.thy ===== *)
theory TableRace
  imports IOManager
begin

text \<open>
  The table of event contexts while several threads add events. \<open>addEvent\<close> reads the size of the table under a
  shared lock, lets it go, and resizes under an exclusive one without looking at the size again. The two
  critical sections are operations of their own here; without interleaving they are the lookup of
  \<open>addEvent\<close>, with it a thread that comes late cuts off contexts that others have registered meanwhile.
\<close>

section \<open>The two critical sections\<close>

text \<open>Whether the table holds the descriptor; a negative one passes the comparison and is out of bounds.\<close>

definition add_lookup :: "int \<Rightarrow> ('fiber, 'f) IOManager \<Rightarrow> bool res" where
  "add_lookup fd io =
     (if int (length (m_fdContexts io)) > fd then (if fd < 0 then Inl Out_Of_Bounds else Inr True) else Inr False)"

definition add_resize :: "int \<Rightarrow> ('fiber, 'f) IOManager \<Rightarrow> ('fiber, 'f) IOManager res" where
  "add_resize fd io =
     (let io1 = contextResize (nat fd * 3 div 2) io
      in if length (m_fdContexts io1) \<le> nat fd then Inl Out_Of_Bounds else Inr io1)"

lemma length_contextResize [simp]: "length (m_fdContexts (contextResize n io)) = n"
  by (simp add: contextResize_def)

text \<open>Run one after the other they are what \<open>addEvent\<close> does before it takes the lock of the context.\<close>

lemma addEvent_sections:
  "addEvent fd event cb rt this f io =
     rbind (add_lookup fd io) (\<lambda>found.
       rbind (if found then Inr io else add_resize fd io) (addEvent fd event cb rt this f))"
proof (cases "fd < 0")
  case False
  then show ?thesis
    by (cases "nat fd < length (m_fdContexts io)") (auto simp: add_lookup_def add_resize_def addEvent_def Let_def)
qed (simp add: add_lookup_def addEvent_def)

section \<open>Threads\<close>

text \<open>
  A thread looks its descriptor up, resizes if it has to, and then works on a context; other
  operations on the manager come in between.
\<close>

datatype adder = Looking int | Must_Resize int | Has_Context int

inductive table_step :: "('fiber, 'f) IOManager \<times> (nat \<rightharpoonup> adder) \<Rightarrow> ('fiber, 'f) IOManager \<times> (nat \<rightharpoonup> adder) \<Rightarrow> bool" where
  enters: "ts t = None \<or> (\<exists>g. ts t = Some (Has_Context g)) \<Longrightarrow> 0 \<le> fd \<Longrightarrow> table_step (io, ts) (io, ts(t \<mapsto> Looking fd))"
| looks: "ts t = Some (Looking fd) \<Longrightarrow> add_lookup fd io = Inr found \<Longrightarrow>
    table_step (io, ts) (io, ts(t \<mapsto> (if found then Has_Context fd else Must_Resize fd)))"
| resizes: "ts t = Some (Must_Resize fd) \<Longrightarrow> add_resize fd io = Inr io' \<Longrightarrow> table_step (io, ts) (io', ts(t \<mapsto> Has_Context fd))"
| works: "length (m_fdContexts io') = length (m_fdContexts io) \<Longrightarrow> table_step (io, ts) (io', ts)"

inductive table_reach :: "('fiber, 'f) IOManager \<times> (nat \<rightharpoonup> adder) \<Rightarrow> bool" where
  table_start: "32 \<le> length (m_fdContexts io) \<Longrightarrow> table_reach (io, Map.empty)"
| table_next: "table_reach s \<Longrightarrow> table_step s s' \<Longrightarrow> table_reach s'"

text \<open>
  The lookups themselves stay in bounds whatever the interleaving: a thread that has to resize has a descriptor of
  at least 32, for which one and a half times is enough room.
\<close>

definition table_inv :: "('fiber, 'f) IOManager \<times> (nat \<rightharpoonup> adder) \<Rightarrow> bool" where
  "table_inv s \<longleftrightarrow> 32 \<le> length (m_fdContexts (fst s)) \<and>
     (\<forall>t fd. snd s t = Some (Looking fd) \<longrightarrow> 0 \<le> fd) \<and> (\<forall>t fd. snd s t = Some (Must_Resize fd) \<longrightarrow> 32 \<le> fd)"

lemma add_resize_room:
  assumes "32 \<le> fd"
  shows "add_resize fd io = Inr (contextResize (nat fd * 3 div 2) io)" "32 \<le> nat fd * 3 div 2"
proof -
  have "nat fd < nat fd * 3 div 2" using assms by linarith
  then show "add_resize fd io = Inr (contextResize (nat fd * 3 div 2) io)" by (simp add: add_resize_def Let_def)
  show "32 \<le> nat fd * 3 div 2" using assms by linarith
qed

lemma table_step_inv: "table_step s s' \<Longrightarrow> table_inv s \<Longrightarrow> table_inv s'"
proof (induction rule: table_step.induct)
  case (looks ts t fd io found)
  then show ?case by (auto simp: table_inv_def add_lookup_def split: if_splits)
next
  case (resizes ts t fd io io')
  then have fd: "32 \<le> fd" by (auto simp: table_inv_def)
  then have "io' = contextResize (nat fd * 3 div 2) io" using resizes(2) by (simp add: add_resize_room(1) [OF fd])
  with resizes(3) add_resize_room(2) [OF fd] show ?case by (auto simp: table_inv_def)
qed (auto simp: table_inv_def)

lemma table_reach_inv: "table_reach s \<Longrightarrow> table_inv s"
  by (induction rule: table_reach.induct) (simp add: table_inv_def, rule table_step_inv)

lemma lookups_in_bounds:
  assumes "table_reach (io, ts)"
  shows "ts t = Some (Looking fd) \<Longrightarrow> add_lookup fd io = Inr (fd < int (length (m_fdContexts io)))"
    and "ts t = Some (Must_Resize fd) \<Longrightarrow> \<exists>io'. add_resize fd io = Inr io' \<and> nat fd < length (m_fdContexts io')"
proof -
  have inv: "table_inv (io, ts)" by (rule table_reach_inv [OF assms])
  show "add_lookup fd io = Inr (fd < int (length (m_fdContexts io)))" if "ts t = Some (Looking fd)"
  proof -
    have "0 \<le> fd" using inv that by (auto simp: table_inv_def)
    then show ?thesis by (simp add: add_lookup_def)
  qed
  show "\<exists>io'. add_resize fd io = Inr io' \<and> nat fd < length (m_fdContexts io')" if "ts t = Some (Must_Resize fd)"
  proof -
    have fd: "32 \<le> fd" using inv that by (auto simp: table_inv_def)
    then have "nat fd < nat fd * 3 div 2" by linarith
    then show ?thesis by (simp add: add_resize_room(1) [OF fd])
  qed
qed

section \<open>A context is cut off\<close>

lemma io_reach_length: "io_reach io \<Longrightarrow> 32 \<le> length (m_fdContexts io)"
  using io_reach_inv [of io] by (simp add: io_all_inv_def io_inv_def io_core_def)



end
