(* ===== verification/FdManager.thy ===== *)
theory FdManager
  imports Dag_Prelude
begin

text \<open>
  Contexts of file descriptors, \<open>dag/fd_manager.cpp\<close>: \<open>FdCtx\<close> with its flags and timeouts, and the
  table \<open>FdManager\<close> that grows on demand. What the system reports about a descriptor (whether \<open>fstat\<close>
  succeeds, whether it is a socket, its status flags) is an argument. A descriptor is an \<open>int\<close>;
  comparing it with a \<open>size_t\<close> makes a negative one huge, so that only -1, which is tested for, and no
  other negative number is a defined argument of \<open>get\<close>.
\<close>

section \<open>Contexts\<close>

record FdCtx =
  m_isInit :: bool
  m_isSocket :: bool
  m_sysNonblock :: bool
  m_userNonblock :: bool
  m_isClosed :: bool
  m_fd :: nat
  m_recvTimeout :: nat
  m_sendTimeout :: nat

definition no_timeout :: nat where
  "no_timeout = 2 ^ 64 - 1"

definition FdCtx_fields :: "nat \<Rightarrow> FdCtx" where
  "FdCtx_fields fd =
     \<lparr>m_isInit = False, m_isSocket = False, m_sysNonblock = False, m_userNonblock = False,
      m_isClosed = False, m_fd = fd, m_recvTimeout = no_timeout, m_sendTimeout = no_timeout\<rparr>"

text \<open>The system's view of open descriptors: whether it is a socket, and its status flags.\<close>

definition O_NONBLOCK :: u32 where "O_NONBLOCK = 0x800"

record fd_info =
  S_ISSOCK :: bool
  fl_flags :: u32

type_synonym fd_table = "nat \<rightharpoonup> fd_info"

definition FdCtx_init :: "fd_table \<Rightarrow> FdCtx \<Rightarrow> bool \<times> FdCtx \<times> fd_table" where
  "FdCtx_init sys c =
     (if m_isInit c then (True, c, sys)
      else let c1 = (case sys (m_fd c) of
                       None \<Rightarrow> c\<lparr>m_isInit := False, m_isSocket := False\<rparr>
                     | Some i \<Rightarrow> c\<lparr>m_isInit := True, m_isSocket := S_ISSOCK i\<rparr>)
           in if m_isSocket c1
              then let sys' = (case sys (m_fd c) of
                                 Some i \<Rightarrow> if fl_flags i AND O_NONBLOCK = 0
                                           then sys(m_fd c \<mapsto> i\<lparr>fl_flags := fl_flags i OR O_NONBLOCK\<rparr>) else sys
                               | None \<Rightarrow> sys)
                   in (m_isInit c1, c1\<lparr>m_sysNonblock := True\<rparr>, sys')
              else (m_isInit c1, c1\<lparr>m_sysNonblock := False\<rparr>, sys))"

definition FdCtx_new :: "fd_table \<Rightarrow> nat \<Rightarrow> FdCtx \<times> fd_table" where
  "FdCtx_new sys fd = snd (FdCtx_init sys (FdCtx_fields fd))"

datatype timeout_type = SO_RCVTIMEO | SO_SNDTIMEO

definition setTimeout :: "timeout_type \<Rightarrow> nat \<Rightarrow> FdCtx \<Rightarrow> FdCtx" where
  "setTimeout type v c =
     (if type = SO_RCVTIMEO then c\<lparr>m_recvTimeout := v\<rparr> else c\<lparr>m_sendTimeout := v\<rparr>)"

definition getTimeout :: "timeout_type \<Rightarrow> FdCtx \<Rightarrow> nat" where
  "getTimeout type c = (if type = SO_RCVTIMEO then m_recvTimeout c else m_sendTimeout c)"

section \<open>The table\<close>

type_synonym FdManager = "FdCtx option list"

definition FdManager_new :: FdManager where
  "FdManager_new = replicate 64 None"

text \<open>\<open>vector::resize\<close>.\<close>

definition resize :: "nat \<Rightarrow> 'a \<Rightarrow> 'a list \<Rightarrow> 'a list" where
  "resize n d xs = take n xs @ replicate (n - length xs) d"

text \<open>
  \<open>m_datas.resize(fd * 1.5)\<close> truncates the product. Between the shared and the exclusive lock the
  table may have changed; the second test is made again under the exclusive lock, and what is found
  there then is replaced.
\<close>

definition FdManager_get ::
  "fd_table \<Rightarrow> int \<Rightarrow> bool \<Rightarrow> FdManager \<Rightarrow> (FdCtx option \<times> FdManager \<times> fd_table) res" where
  "FdManager_get sys fd auto_create ds =
     (if fd = - 1 then Inr (None, ds, sys)
      else if fd < 0 then (if auto_create then Inl Out_Of_Bounds else Inr (None, ds, sys))
      else let n = nat fd in
        if length ds \<le> n \<and> \<not> auto_create then Inr (None, ds, sys)
        else if \<not> length ds \<le> n \<and> (ds ! n \<noteq> None \<or> \<not> auto_create) then Inr (ds ! n, ds, sys)
        else let ds1 = (if length ds \<le> n then resize (n * 3 div 2) None ds else ds) in
          if length ds1 \<le> n then Inl Out_Of_Bounds
          else case FdCtx_new sys n of (c, sys') \<Rightarrow> Inr (Some c, ds1[n := Some c], sys'))"

definition FdManager_del :: "int \<Rightarrow> FdManager \<Rightarrow> FdManager" where
  "FdManager_del fd ds = (if fd < 0 \<or> length ds \<le> nat fd then ds else ds[nat fd := None])"

section \<open>Facts\<close>

lemma length_resize [simp]: "length (resize n d xs) = n"
  by (simp add: resize_def)

lemma nth_resize: "i < n \<Longrightarrow> resize n d xs ! i = (if i < length xs then xs ! i else d)"
  by (auto simp: resize_def nth_append)

lemma FdCtx_new_m_fd: "m_fd (fst (FdCtx_new sys fd)) = fd"
  by (simp add: FdCtx_new_def FdCtx_init_def FdCtx_fields_def Let_def split: option.split)

text \<open>Every context of the table is that of its index.\<close>

definition fdm_inv :: "FdManager \<Rightarrow> bool" where
  "fdm_inv ds \<longleftrightarrow> 64 \<le> length ds \<and> (\<forall>i < length ds. \<forall>c. ds ! i = Some c \<longrightarrow> m_fd c = i)"

lemma fdm_inv_new: "fdm_inv FdManager_new"
  by (simp add: fdm_inv_def FdManager_new_def)

lemma fdm_inv_del: "fdm_inv ds \<Longrightarrow> fdm_inv (FdManager_del fd ds)"
  by (auto simp: fdm_inv_def FdManager_del_def nth_list_update)

lemma grown_enough: "64 \<le> n \<Longrightarrow> n < n * 3 div (2::nat)"
  by simp

lemma FdManager_get_found:
  "0 \<le> fd \<Longrightarrow> nat fd < length ds \<Longrightarrow> ds ! nat fd = Some c \<Longrightarrow> FdManager_get sys fd create ds = Inr (Some c, ds, sys)"
  by (simp add: FdManager_get_def Let_def)

lemma FdManager_get_deleted:
  "0 \<le> fd \<Longrightarrow> FdManager_get sys fd False (FdManager_del fd ds) = Inr (None, FdManager_del fd ds, sys)"
  by (auto simp: FdManager_get_def FdManager_del_def Let_def)

lemma FdManager_get_fresh:
  assumes inv: "fdm_inv ds" and fd: "0 \<le> fd" and none: "\<not> (nat fd < length ds \<and> ds ! nat fd \<noteq> None)"
    and c: "FdCtx_new sys (nat fd) = (c, sys')"
  shows "\<exists>ds'. FdManager_get sys fd True ds = Inr (Some c, ds', sys') \<and> fdm_inv ds' \<and>
    nat fd < length ds' \<and> ds' ! nat fd = Some c \<and> (\<forall>i < length ds. i \<noteq> nat fd \<longrightarrow> ds' ! i = ds ! i)"
proof -
  have m: "m_fd c = nat fd" using FdCtx_new_m_fd [of sys "nat fd"] c by simp
  show ?thesis
  proof (cases "length ds \<le> nat fd")
    case True
    let ?n = "nat fd * 3 div 2"
    have n: "nat fd < ?n" using True inv by (intro grown_enough) (simp add: fdm_inv_def)
    have "FdManager_get sys fd True ds = Inr (Some c, (resize ?n None ds)[nat fd := Some c], sys')"
      using fd True n c by (simp add: FdManager_get_def Let_def)
    moreover have "fdm_inv ((resize ?n None ds)[nat fd := Some c])"
      using inv n m True by (auto simp: fdm_inv_def nth_list_update nth_resize split: if_splits)
    ultimately show ?thesis using n True by (auto simp: nth_resize)
  next
    case False
    then have "FdManager_get sys fd True ds = Inr (Some c, ds[nat fd := Some c], sys')"
      using fd none c by (simp add: FdManager_get_def Let_def)
    moreover have "fdm_inv (ds[nat fd := Some c])"
      using inv m False by (auto simp: fdm_inv_def nth_list_update split: if_splits)
    ultimately show ?thesis using False by simp
  qed
qed

text \<open>
  Looking a descriptor up with creation never fails, returns the context of that descriptor and
  leaves one in the table which further lookups return until it is deleted; other descriptors keep
  theirs, and an existing context is not replaced.
\<close>

lemma fd_lookup_creates:
  assumes "fdm_inv ds" "0 \<le> fd"
  shows "\<exists>c ds' sys'. FdManager_get sys fd True ds = Inr (Some c, ds', sys') \<and> fdm_inv ds' \<and> m_fd c = nat fd \<and>
    FdManager_get sys' fd create ds' = Inr (Some c, ds', sys') \<and>
    FdManager_get sys' fd False (FdManager_del fd ds') = Inr (None, FdManager_del fd ds', sys') \<and>
    (\<forall>i < length ds. i \<noteq> nat fd \<or> ds ! i \<noteq> None \<longrightarrow> ds' ! i = ds ! i)"
proof (cases "nat fd < length ds \<and> ds ! nat fd \<noteq> None")
  case True
  then obtain c where c: "ds ! nat fd = Some c" "nat fd < length ds" by auto
  then show ?thesis using assms
    by (intro exI [of _ c] exI [of _ ds] exI [of _ sys])
      (auto simp: FdManager_get_found FdManager_get_deleted fdm_inv_def)
next
  case False
  obtain c sys' where c: "FdCtx_new sys (nat fd) = (c, sys')" by fastforce
  then have "m_fd c = nat fd" using FdCtx_new_m_fd [of sys "nat fd"] by simp
  moreover from FdManager_get_fresh [OF assms False c] obtain ds' where
    "FdManager_get sys fd True ds = Inr (Some c, ds', sys')" "fdm_inv ds'" "nat fd < length ds'"
    "ds' ! nat fd = Some c" "\<forall>i < length ds. i \<noteq> nat fd \<longrightarrow> ds' ! i = ds ! i" by blast
  ultimately show ?thesis using assms(2) False
    by (intro exI [of _ c] exI [of _ ds'] exI [of _ sys'])
      (auto simp: FdManager_get_found FdManager_get_deleted)
qed

lemma fd_lookup_creates_witness:
  "\<exists>c ds' sys'. FdManager_get Map.empty 100 True FdManager_new = Inr (Some c, ds', sys') \<and> m_fd c = 100"
  using fd_lookup_creates [OF fdm_inv_new, of 100 Map.empty True] by auto

text \<open>A socket is switched to non-blocking mode when its context is made.\<close>

lemma FdCtx_new_socket:
  assumes "sys fd = Some i" "S_ISSOCK i" "FdCtx_new sys fd = (c, sys')"
  shows "m_isInit c \<and> m_isSocket c \<and> m_sysNonblock c \<and> \<not> m_userNonblock c \<and> \<not> m_isClosed c \<and>
    m_recvTimeout c = no_timeout \<and> m_sendTimeout c = no_timeout \<and>
    (\<exists>i'. sys' fd = Some i' \<and> S_ISSOCK i' \<and> fl_flags i' AND O_NONBLOCK \<noteq> 0)"
proof -
  have "(x OR O_NONBLOCK) AND O_NONBLOCK = O_NONBLOCK" for x
    by (rule bit_eqI) (auto simp: bit_simps)
  then have "(x OR O_NONBLOCK) AND O_NONBLOCK \<noteq> 0" for x by (simp add: O_NONBLOCK_def)
  with assms show ?thesis
    by (auto simp: FdCtx_new_def FdCtx_init_def FdCtx_fields_def Let_def split: if_splits)
qed

lemma timeout_roundtrip:
  "getTimeout type (setTimeout type v c) = v"
  "type \<noteq> type' \<Longrightarrow> getTimeout type' (setTimeout type v c) = getTimeout type' c"
  by (cases type; cases type'; simp add: getTimeout_def setTimeout_def)+

end
