(* ===== verification/Hook.thy ===== *)
theory Hook
  imports IOManager FdManager
begin

text \<open>
  The hooked system calls, \<open>dag/hook.cpp\<close>. A call that would block is cut at the point where its
  fiber yields: one definition for the part before, one for the part after. The results of the
  original functions (\<open>read_f\<close>, \<open>connect_f\<close>, ...) and of \<open>epoll_ctl\<close> are arguments, each a return value with the
  value of \<open>errno\<close> that goes with it; which objects \<open>timer_info\<close> are alive is part of the state, so
  that the weak pointers of the timer callbacks are numbers. \<open>isClosed\<close> never holds, since no code
  sets \<open>m_isClosed\<close>; the tests of it are kept.
\<close>

section \<open>State\<close>

text \<open>
  The functions that the hooks hand to timers: cancelling the event of a descriptor on behalf of a
  \<open>timer_info\<close>, and scheduling a sleeping fiber again.
\<close>

datatype hook_cb = Timeout_Cb nat int events | Wake_Fiber nat

type_synonym hook_io = "(nat, hook_cb) IOManager"

record hook_world =
  t_hook_enable :: bool
  has_iom :: bool
  w_io :: hook_io
  w_fdm :: FdManager
  w_sys :: fd_table
  w_errno :: int
  tinfos :: "nat \<rightharpoonup> int"

definition set_hook_enable :: "bool \<Rightarrow> hook_world \<Rightarrow> hook_world" where
  "set_hook_enable flag w = w\<lparr>t_hook_enable := flag\<rparr>"

definition EINTR :: int where "EINTR = 4"
definition EBADF :: int where "EBADF = 9"
definition EAGAIN :: int where "EAGAIN = 11"
definition EWOULDBLOCK :: int where "EWOULDBLOCK = 11"
definition ETIMEDOUT :: int where "ETIMEDOUT = 110"
definition EINPROGRESS :: int where "EINPROGRESS = 115"

lemmas errno_defs = EINTR_def EBADF_def EAGAIN_def EWOULDBLOCK_def ETIMEDOUT_def EINPROGRESS_def

definition get_ctx :: "int \<Rightarrow> hook_world \<Rightarrow> FdCtx option res" where
  "get_ctx fd w = rmap fst (FdManager_get (w_sys w) fd False (w_fdm w))"

definition create_ctx :: "int \<Rightarrow> hook_world \<Rightarrow> hook_world res" where
  "create_ctx fd w =
     rmap (\<lambda>(_, ds, sys). w\<lparr>w_fdm := ds, w_sys := sys\<rparr>) (FdManager_get (w_sys w) fd True (w_fdm w))"

definition put_ctx :: "int \<Rightarrow> FdCtx \<Rightarrow> hook_world \<Rightarrow> hook_world" where
  "put_ctx fd c w = w\<lparr>w_fdm := (w_fdm w)[nat fd := Some c]\<rparr>"

definition set_timers :: "hook_cb TimerManager \<Rightarrow> hook_world \<Rightarrow> hook_world" where
  "set_timers tm w = w\<lparr>w_io := (w_io w)\<lparr>io_timers := tm\<rparr>\<rparr>"

section \<open>Input and output\<close>

text \<open>What \<open>do_io\<close> does first: pass the call on, refuse it, or go on with the timeout of the descriptor.\<close>

datatype io_entry = Call_Origin | Refuse | Hooked nat

definition do_io_enter :: "int \<Rightarrow> timeout_type \<Rightarrow> hook_world \<Rightarrow> (io_entry \<times> hook_world) res" where
  "do_io_enter fd timeout_so w =
     (if \<not> t_hook_enable w then Inr (Call_Origin, w)
      else rbind (get_ctx fd w) (\<lambda>p.
        case p of
          None \<Rightarrow> Inr (Call_Origin, w)
        | Some ctx \<Rightarrow>
            if m_isClosed ctx then Inr (Refuse, w\<lparr>w_errno := EBADF\<rparr>)
            else if \<not> m_isSocket ctx \<or> m_userNonblock ctx then Inr (Call_Origin, w)
            else Inr (Hooked (getTimeout timeout_so ctx), w)))"

text \<open>
  The calls of the original function after \<open>retry:\<close>, until one is not interrupted: its result and the
  results still to come. There is none while the last call has not returned.
\<close>

fun call_origin :: "(int \<times> int) list \<Rightarrow> ((int \<times> int) \<times> (int \<times> int) list) option" where
  "call_origin [] = None"
| "call_origin ((n, err) # rs) = (if n = - 1 \<and> err = EINTR then call_origin rs else Some ((n, err), rs))"

datatype io_state = Finished int | Waiting "nat option"

text \<open>The conditional timer that cancels the wait.\<close>

definition condition_timer :: "nat \<Rightarrow> int \<Rightarrow> events \<Rightarrow> nat \<Rightarrow> int \<Rightarrow> hook_world \<Rightarrow> nat option \<times> hook_world" where
  "condition_timer timeout fd event tinfo now w =
     (if timeout \<noteq> no_timeout
      then case addConditionTimer timeout (Timeout_Cb tinfo fd event) tinfo False now (io_timers (w_io w)) of
             (t, tm, front) \<Rightarrow> (Some t, set_timers tm w)
      else (None, w))"

definition cancel_timer :: "nat option \<Rightarrow> hook_world \<Rightarrow> hook_world" where
  "cancel_timer timer w =
     (case timer of None \<Rightarrow> w | Some t \<Rightarrow> set_timers (snd (cancel t (io_timers (w_io w)))) w)"

definition do_io_block ::
  "int \<Rightarrow> events \<Rightarrow> nat \<Rightarrow> nat \<Rightarrow> int \<Rightarrow> int \<Rightarrow> nat \<times> State \<Rightarrow> hook_world \<Rightarrow> (io_state \<times> hook_world) res" where
  "do_io_block fd event timeout tinfo rt now fiber w =
     (if \<not> has_iom w then Inl Null_Deref
      else case condition_timer timeout fd event tinfo now w of (timer, w1) \<Rightarrow>
        rbind (addEvent fd event None rt True fiber (w_io w1)) (\<lambda>(r, io).
          let w2 = w1\<lparr>w_io := io\<rparr> in
          if r \<noteq> 0 then Inr (Finished (- 1), cancel_timer timer w2)
          else Inr (Waiting timer, w2)))"

definition do_io_retry ::
  "int \<Rightarrow> events \<Rightarrow> nat \<Rightarrow> nat \<Rightarrow> (int \<times> int) list \<Rightarrow> int \<Rightarrow> int \<Rightarrow> nat \<times> State \<Rightarrow> hook_world
     \<Rightarrow> (io_state \<times> hook_world) res option" where
  "do_io_retry fd event timeout tinfo rs rt now fiber w =
     map_option (\<lambda>((n, err), _).
       let w1 = (if n = - 1 then w\<lparr>w_errno := err\<rparr> else w) in
       if n = - 1 \<and> (err = EAGAIN \<or> err = EWOULDBLOCK) then do_io_block fd event timeout tinfo rt now fiber w1
       else Inr (Finished n, w1))
     (call_origin rs)"

text \<open>After the fiber is resumed: \<open>None\<close> stands for \<open>goto retry\<close>.\<close>

definition do_io_resume :: "nat option \<Rightarrow> nat \<Rightarrow> hook_world \<Rightarrow> int option \<times> hook_world" where
  "do_io_resume timer tinfo w =
     (let w1 = cancel_timer timer w in
      if tinfos w1 tinfo = Some ETIMEDOUT then (Some (- 1), w1\<lparr>w_errno := ETIMEDOUT\<rparr>) else (None, w1))"

text \<open>Allocating the \<open>timer_info\<close> of a call and releasing it when the call returns.\<close>

definition new_tinfo :: "nat \<Rightarrow> hook_world \<Rightarrow> hook_world" where
  "new_tinfo tinfo w = w\<lparr>tinfos := (tinfos w)(tinfo \<mapsto> 0)\<rparr>"

definition drop_tinfo :: "nat \<Rightarrow> hook_world \<Rightarrow> hook_world" where
  "drop_tinfo tinfo w = w\<lparr>tinfos := (tinfos w)(tinfo := None)\<rparr>"

text \<open>The calls that are wrapped, with the event and the timeout each of them waits for.\<close>

datatype io_call = Accept | Read | Readv | Recv | Recvfrom | Recvmsg | Write | Writev | Send | Sendto | Sendmsg

fun io_call_event :: "io_call \<Rightarrow> events" where
  "io_call_event Accept = READ"
| "io_call_event Read = READ"
| "io_call_event Readv = READ"
| "io_call_event Recv = READ"
| "io_call_event Recvfrom = READ"
| "io_call_event Recvmsg = READ"
| "io_call_event Write = WRITE"
| "io_call_event Writev = WRITE"
| "io_call_event Send = WRITE"
| "io_call_event Sendto = WRITE"
| "io_call_event Sendmsg = WRITE"

fun io_call_timeout :: "io_call \<Rightarrow> timeout_type" where
  "io_call_timeout Accept = SO_RCVTIMEO"
| "io_call_timeout Read = SO_RCVTIMEO"
| "io_call_timeout Readv = SO_RCVTIMEO"
| "io_call_timeout Recv = SO_RCVTIMEO"
| "io_call_timeout Recvfrom = SO_RCVTIMEO"
| "io_call_timeout Recvmsg = SO_RCVTIMEO"
| "io_call_timeout Write = SO_SNDTIMEO"
| "io_call_timeout Writev = SO_SNDTIMEO"
| "io_call_timeout Send = SO_SNDTIMEO"
| "io_call_timeout Sendto = SO_SNDTIMEO"
| "io_call_timeout Sendmsg = SO_SNDTIMEO"

definition accept_done :: "int \<Rightarrow> hook_world \<Rightarrow> (int \<times> hook_world) res" where
  "accept_done fd w = (if fd \<ge> 0 then rmap (\<lambda>w'. (fd, w')) (create_ctx fd w) else Inr (fd, w))"

section \<open>Callbacks of timers\<close>

fun run_hook_cb :: "int \<Rightarrow> hook_cb \<Rightarrow> hook_world \<Rightarrow> hook_world res" where
  "run_hook_cb rt (Timeout_Cb winfo fd event) w =
     (case tinfos w winfo of
        None \<Rightarrow> Inr w
      | Some cancelled \<Rightarrow>
          if cancelled \<noteq> 0 then Inr w
          else rmap (\<lambda>(_, io). w\<lparr>tinfos := (tinfos w)(winfo \<mapsto> ETIMEDOUT), w_io := io\<rparr>)
                 (cancelEvent fd event rt (w_io w)))"
| "run_hook_cb rt (Wake_Fiber f) w = Inr (w\<lparr>w_io := io_schedule (SchedulerTask_fiber (Some f) (- 1)) (w_io w)\<rparr>)"

definition run_callback :: "int \<Rightarrow> hook_cb callback \<Rightarrow> hook_world \<Rightarrow> hook_world res" where
  "run_callback rt cb w = rfold (run_hook_cb rt) (OnTimer (\<lambda>i. tinfos w i \<noteq> None) cb) w"

section \<open>Sleeping\<close>

text \<open>
  The number of milliseconds each function asks for: \<open>seconds * 1000\<close> is computed in \<open>unsigned int\<close>; the
  sum in \<open>nanosleep\<close> goes through an \<open>int\<close> and then into the \<open>uint64_t\<close> parameter.
\<close>

definition sleep_ms :: "u32 \<Rightarrow> nat" where
  "sleep_ms seconds = unat (seconds * 1000)"

definition usleep_ms :: "u32 \<Rightarrow> nat" where
  "usleep_ms usec = unat (usec div 1000)"

definition nanosleep_ms :: "int \<Rightarrow> nat \<Rightarrow> nat" where
  "nanosleep_ms tv_sec tv_nsec =
     (let timeout_ms = word_of_int (tv_sec * 1000 + int (tv_nsec div 1000 div 1000)) :: 32 word
      in nat (sint timeout_ms mod 2 ^ 64))"

text \<open>All three then arm a timer for the current fiber and yield.\<close>

definition sleep_for :: "nat \<Rightarrow> int \<Rightarrow> nat \<Rightarrow> hook_world \<Rightarrow> (nat \<times> hook_world) res" where
  "sleep_for ms now fiber w =
     (if \<not> has_iom w then Inl Null_Deref
      else case addTimer ms (Plain (Wake_Fiber fiber)) False now (io_timers (w_io w)) of
             (t, tm, front) \<Rightarrow> Inr (t, set_timers tm w))"

section \<open>Sockets\<close>

definition hook_socket :: "int \<Rightarrow> hook_world \<Rightarrow> (int \<times> hook_world) res" where
  "hook_socket fd w =
     (if \<not> t_hook_enable w then Inr (fd, w)
      else if fd = - 1 then Inr (fd, w)
      else rmap (\<lambda>w'. (fd, w')) (create_ctx fd w))"

text \<open>\<open>n\<close> and \<open>err\<close> are the result of \<open>connect_f\<close>, \<open>so\<close> that of \<open>getsockopt\<close> with the error it reads.\<close>

datatype connect_state = Connected int | Connecting "nat option" | Check_Error

definition connect_enter :: "int \<Rightarrow> hook_world \<Rightarrow> (io_entry \<times> hook_world) res" where
  "connect_enter fd w =
     (if \<not> t_hook_enable w then Inr (Call_Origin, w)
      else rbind (get_ctx fd w) (\<lambda>p.
        case p of
          None \<Rightarrow> Inr (Refuse, w\<lparr>w_errno := EBADF\<rparr>)
        | Some ctx \<Rightarrow>
            if m_isClosed ctx then Inr (Refuse, w\<lparr>w_errno := EBADF\<rparr>)
            else if \<not> m_isSocket ctx then Inr (Call_Origin, w)
            else if m_userNonblock ctx then Inr (Call_Origin, w)
            else Inr (Hooked 0, w)))"

definition connect_begin ::
  "int \<Rightarrow> nat \<Rightarrow> nat \<Rightarrow> int \<times> int \<Rightarrow> int \<Rightarrow> int \<Rightarrow> nat \<times> State \<Rightarrow> hook_world \<Rightarrow> (connect_state \<times> hook_world) res" where
  "connect_begin fd timeout_ms tinfo r rt now fiber w =
     (let n = fst r; w0 = (if n = - 1 then w\<lparr>w_errno := snd r\<rparr> else w) in
      if n = 0 then Inr (Connected 0, w0)
      else if n \<noteq> - 1 \<or> w_errno w0 \<noteq> EINPROGRESS then Inr (Connected n, w0)
      else if \<not> has_iom w0 then Inl Null_Deref
      else case condition_timer timeout_ms fd WRITE tinfo now (new_tinfo tinfo w0) of (timer, w1) \<Rightarrow>
        rbind (addEvent fd WRITE None rt True fiber (w_io w1)) (\<lambda>(q, io).
          let w2 = w1\<lparr>w_io := io\<rparr> in
          if q = 0 then Inr (Connecting timer, w2)
          else Inr (Check_Error, cancel_timer timer w2)))"

definition connect_resume :: "nat option \<Rightarrow> nat \<Rightarrow> hook_world \<Rightarrow> connect_state \<times> hook_world" where
  "connect_resume timer tinfo w =
     (let w1 = cancel_timer timer w in
      case tinfos w1 tinfo of
        Some cancelled \<Rightarrow>
          if cancelled \<noteq> 0 then (Connected (- 1), w1\<lparr>w_errno := cancelled\<rparr>) else (Check_Error, w1)
      | None \<Rightarrow> (Check_Error, w1))"

definition connect_check :: "int \<times> int \<Rightarrow> hook_world \<Rightarrow> int \<times> hook_world" where
  "connect_check so w =
     (if fst so = - 1 then (- 1, w)
      else if snd so = 0 then (0, w)
      else (- 1, w\<lparr>w_errno := snd so\<rparr>))"

text \<open>\<open>rt\<close> is the result of \<open>epoll_ctl\<close> in \<open>cancelAll\<close>; the call ends with \<open>close_f\<close>.\<close>

definition hook_close :: "int \<Rightarrow> int \<Rightarrow> hook_world \<Rightarrow> hook_world res" where
  "hook_close fd rt w =
     (if \<not> t_hook_enable w then Inr w
      else rbind (get_ctx fd w) (\<lambda>p.
        case p of
          None \<Rightarrow> Inr w
        | Some ctx \<Rightarrow>
            rbind (if has_iom w then rmap (\<lambda>(_, io). w\<lparr>w_io := io\<rparr>) (cancelAll fd rt (w_io w)) else Inr w) (\<lambda>w1.
              Inr (w1\<lparr>w_fdm := FdManager_del fd (w_fdm w1)\<rparr>))))"

definition close_f :: "int \<Rightarrow> hook_world \<Rightarrow> hook_world" where
  "close_f fd w = w\<lparr>w_sys := (w_sys w)(nat fd := None)\<rparr>"

section \<open>Flags and options\<close>

text \<open>
  \<open>fcntl_f\<close> with \<open>F_SETFL\<close> and \<open>F_GETFL\<close> sets and reads the status flags of an open descriptor and
  fails with \<open>EBADF\<close> on any other.
\<close>

definition fcntl_setfl :: "int \<Rightarrow> u32 \<Rightarrow> hook_world \<Rightarrow> int \<times> hook_world" where
  "fcntl_setfl fd arg w =
     (case w_sys w (nat fd) of
        Some i \<Rightarrow> (0, w\<lparr>w_sys := (w_sys w)(nat fd \<mapsto> i\<lparr>fl_flags := arg\<rparr>)\<rparr>)
      | None \<Rightarrow> (- 1, w\<lparr>w_errno := EBADF\<rparr>))"

definition fcntl_getfl :: "int \<Rightarrow> hook_world \<Rightarrow> u32 \<times> hook_world" where
  "fcntl_getfl fd w =
     (case w_sys w (nat fd) of Some i \<Rightarrow> (fl_flags i, w) | None \<Rightarrow> (- 1, w\<lparr>w_errno := EBADF\<rparr>))"

definition hook_setfl :: "int \<Rightarrow> u32 \<Rightarrow> hook_world \<Rightarrow> (int \<times> hook_world) res" where
  "hook_setfl fd arg w =
     rbind (get_ctx fd w) (\<lambda>p.
       case p of
         None \<Rightarrow> Inr (fcntl_setfl fd arg w)
       | Some ctx \<Rightarrow>
           if m_isClosed ctx \<or> \<not> m_isSocket ctx then Inr (fcntl_setfl fd arg w)
           else let w1 = put_ctx fd (ctx\<lparr>m_userNonblock := (arg AND O_NONBLOCK \<noteq> 0)\<rparr>) w;
                    arg1 = (if m_sysNonblock ctx then arg OR O_NONBLOCK else arg AND NOT O_NONBLOCK)
                in Inr (fcntl_setfl fd arg1 w1))"

definition hook_getfl :: "int \<Rightarrow> hook_world \<Rightarrow> (u32 \<times> hook_world) res" where
  "hook_getfl fd w =
     (case fcntl_getfl fd w of (arg, w1) \<Rightarrow>
        rbind (get_ctx fd w1) (\<lambda>p.
          case p of
            None \<Rightarrow> Inr (arg, w1)
          | Some ctx \<Rightarrow>
              if m_isClosed ctx \<or> \<not> m_isSocket ctx then Inr (arg, w1)
              else if m_userNonblock ctx then Inr (arg OR O_NONBLOCK, w1)
              else Inr (arg AND NOT O_NONBLOCK, w1)))"

text \<open>The timeout options; other options are passed on unchanged.\<close>

definition hook_settimeout :: "int \<Rightarrow> timeout_type \<Rightarrow> int \<Rightarrow> int \<Rightarrow> hook_world \<Rightarrow> hook_world res" where
  "hook_settimeout fd optname tv_sec tv_usec w =
     (if \<not> t_hook_enable w then Inr w
      else rmap (\<lambda>p.
        case p of
          None \<Rightarrow> w
        | Some ctx \<Rightarrow> put_ctx fd (setTimeout optname (nat ((tv_sec * 1000 + tquot tv_usec 1000) mod 2 ^ 64)) ctx) w)
        (get_ctx fd w))"

text \<open>
  \<open>setsockopt\<close> on any option: a value is an \<open>int\<close> or a \<open>timeval\<close>. The two timeouts of the level
  \<open>SOL_SOCKET\<close> are recorded, for which the value is read as a \<open>timeval\<close>; an \<open>int\<close> is shorter than that. The call
  then goes to \<open>setsockopt_f\<close>, whose result is the caller's.
\<close>

datatype optval = Opt_Int int | Opt_Timeval int int

definition SOL_SOCKET :: int where "SOL_SOCKET = 1"
definition SO_REUSEADDR :: int where "SO_REUSEADDR = 2"
definition SO_ERROR :: int where "SO_ERROR = 4"
definition IPPROTO_TCP :: int where "IPPROTO_TCP = 6"
definition TCP_NODELAY :: int where "TCP_NODELAY = 1"

fun timeout_optname :: "timeout_type \<Rightarrow> int" where
  "timeout_optname SO_RCVTIMEO = 20"
| "timeout_optname SO_SNDTIMEO = 21"

definition hook_setsockopt :: "int \<Rightarrow> int \<Rightarrow> int \<Rightarrow> optval \<Rightarrow> hook_world \<Rightarrow> hook_world res" where
  "hook_setsockopt sockfd level optname optval w =
     (if \<not> t_hook_enable w then Inr w
      else if level = SOL_SOCKET \<and> (optname = timeout_optname SO_RCVTIMEO \<or> optname = timeout_optname SO_SNDTIMEO)
      then let ty = (if optname = timeout_optname SO_RCVTIMEO then SO_RCVTIMEO else SO_SNDTIMEO) in
        case optval of
          Opt_Timeval tv_sec tv_usec \<Rightarrow> hook_settimeout sockfd ty tv_sec tv_usec w
        | Opt_Int _ \<Rightarrow> rbind (get_ctx sockfd w) (\<lambda>p. case p of None \<Rightarrow> Inr w | Some _ \<Rightarrow> Inl Out_Of_Bounds)
      else Inr w)"

text \<open>\<open>getsockopt\<close> is the original function: its return value and the value it reads.\<close>

definition hook_getsockopt :: "(int \<Rightarrow> int \<Rightarrow> int \<Rightarrow> int \<times> int) \<Rightarrow> int \<Rightarrow> int \<Rightarrow> int \<Rightarrow> int \<times> int" where
  "hook_getsockopt getsockopt_f sockfd level optname = getsockopt_f sockfd level optname"

text \<open>
  The commands that \<open>fcntl\<close> tells apart, all others under the last constructor, and its variable
  argument, which is read as an \<open>int\<close> or as a pointer; what is not there cannot be read.
\<close>

datatype fcntl_cmd =
    F_SETFL | F_GETFL
  | F_DUPFD | F_DUPFD_CLOEXEC | F_SETFD | F_SETOWN | F_SETSIG | F_SETLEASE | F_NOTIFY | F_SETPIPE_SZ
  | F_GETFD | F_GETOWN | F_GETSIG | F_GETLEASE | F_GETPIPE_SZ
  | F_SETLK | F_SETLKW | F_GETLK
  | F_GETOWN_EX | F_SETOWN_EX
  | Other_Cmd int

datatype fcntl_arg = No_Arg | Int_Arg u32 | Ptr_Arg nat

fun va_int :: "fcntl_arg \<Rightarrow> u32 res" where
  "va_int (Int_Arg n) = Inr n"
| "va_int _ = Inl Out_Of_Bounds"

fun va_ptr :: "fcntl_arg \<Rightarrow> nat res" where
  "va_ptr (Ptr_Arg p) = Inr p"
| "va_ptr _ = Inl Out_Of_Bounds"

definition fcntl_int_cmds :: "fcntl_cmd list" where
  "fcntl_int_cmds = [F_DUPFD, F_DUPFD_CLOEXEC, F_SETFD, F_SETOWN, F_SETSIG, F_SETLEASE, F_NOTIFY, F_SETPIPE_SZ]"

definition fcntl_plain_cmds :: "fcntl_cmd list" where
  "fcntl_plain_cmds = [F_GETFD, F_GETOWN, F_GETSIG, F_GETLEASE, F_GETPIPE_SZ]"

definition fcntl_ptr_cmds :: "fcntl_cmd list" where
  "fcntl_ptr_cmds = [F_SETLK, F_SETLKW, F_GETLK, F_GETOWN_EX, F_SETOWN_EX]"

text \<open>\<open>fcntl_f\<close> is the original function for the commands that are passed on.\<close>

definition hook_fcntl ::
  "(int \<Rightarrow> fcntl_cmd \<Rightarrow> fcntl_arg \<Rightarrow> hook_world \<Rightarrow> int \<times> hook_world) \<Rightarrow> int \<Rightarrow> fcntl_cmd \<Rightarrow> fcntl_arg \<Rightarrow> hook_world
     \<Rightarrow> (int \<times> hook_world) res" where
  "hook_fcntl fcntl_f fd cmd va w =
     (if cmd = F_SETFL then rbind (va_int va) (\<lambda>arg. hook_setfl fd arg w)
      else if cmd = F_GETFL then rmap (\<lambda>(arg, w1). (sint arg, w1)) (hook_getfl fd w)
      else if cmd \<in> set fcntl_int_cmds then rmap (\<lambda>arg. fcntl_f fd cmd (Int_Arg arg) w) (va_int va)
      else if cmd \<in> set fcntl_plain_cmds then Inr (fcntl_f fd cmd No_Arg w)
      else if cmd \<in> set fcntl_ptr_cmds then rmap (\<lambda>arg. fcntl_f fd cmd (Ptr_Arg arg) w) (va_ptr va)
      else Inr (fcntl_f fd cmd No_Arg w))"

section \<open>Initialisation\<close>

text \<open>
  The functions that are hooked and the table of their originals, which \<open>hook_init\<close> fills with what
  \<open>dlsym\<close> finds before \<open>main\<close> runs. The flag is set in a build with \<open>DEBUG\<close> only.
\<close>

datatype hook_fun =
    Fun_sleep | Fun_usleep | Fun_nanosleep | Fun_socket | Fun_connect | Fun_io io_call
  | Fun_close | Fun_fcntl | Fun_getsockopt | Fun_setsockopt

record 'f hook_table =
  is_inited :: bool
  origin_f :: "hook_fun \<Rightarrow> 'f option"

definition hook_table_start :: "'f hook_table" where
  "hook_table_start = \<lparr>is_inited = False, origin_f = (\<lambda>_. None)\<rparr>"

definition hook_init :: "bool \<Rightarrow> (hook_fun \<Rightarrow> 'f option) \<Rightarrow> 'f hook_table \<Rightarrow> 'f hook_table" where
  "hook_init DEBUG dlsym t =
     (if is_inited t then t else t\<lparr>is_inited := (if DEBUG then True else is_inited t), origin_f := dlsym\<rparr>)"

definition is_hook_enable :: "hook_world \<Rightarrow> bool" where
  "is_hook_enable w = t_hook_enable w"

text \<open>\<open>connect\<close> is \<open>connect_with_timeout\<close> with a timeout that no code changes.\<close>

definition s_connect_timeout :: nat where
  "s_connect_timeout = nat (- 1 mod 2 ^ 64)"

definition hook_connect ::
  "int \<Rightarrow> nat \<Rightarrow> int \<times> int \<Rightarrow> int \<Rightarrow> int \<Rightarrow> nat \<times> State \<Rightarrow> hook_world \<Rightarrow> (connect_state \<times> hook_world) res" where
  "hook_connect sockfd tinfo r rt now fiber w = connect_begin sockfd s_connect_timeout tinfo r rt now fiber w"

section \<open>Facts\<close>

lemma call_origin_correct:
  "call_origin rs = Some (r, rest) \<longleftrightarrow>
     (\<exists>k. rs = replicate k (- 1, EINTR) @ r # rest) \<and> r \<noteq> (- 1, EINTR)"
proof (induction rs)
  case (Cons x rs)
  show ?case
  proof (cases "x = (- 1, EINTR)")
    case True
    have "(\<exists>k. x # rs = replicate k (- 1, EINTR) @ r # rest) \<longleftrightarrow>
        (\<exists>k. rs = replicate k (- 1, EINTR) @ r # rest)" if "r \<noteq> (- 1, EINTR)"
    proof
      assume "\<exists>k. x # rs = replicate k (- 1, EINTR) @ r # rest"
      then obtain k where "x # rs = replicate k (- 1, EINTR) @ r # rest" ..
      with True that show "\<exists>k. rs = replicate k (- 1, EINTR) @ r # rest" by (cases k) auto
    next
      assume "\<exists>k. rs = replicate k (- 1, EINTR) @ r # rest"
      then obtain k where "rs = replicate k (- 1, EINTR) @ r # rest" ..
      with True show "\<exists>k. x # rs = replicate k (- 1, EINTR) @ r # rest" by (intro exI [of _ "Suc k"]) simp
    qed
    with True Cons.IH show ?thesis by auto
  next
    case False
    have "(\<exists>k. x # rs = replicate k (- 1, EINTR) @ r # rest) \<longleftrightarrow> x = r \<and> rs = rest"
    proof
      assume "\<exists>k. x # rs = replicate k (- 1, EINTR) @ r # rest"
      then obtain k where "x # rs = replicate k (- 1, EINTR) @ r # rest" ..
      with False show "x = r \<and> rs = rest" by (cases k) auto
    qed (auto intro: exI [of _ 0])
    with False show ?thesis by (cases x) auto
  qed
qed simp

text \<open>Cancelling an own timer takes it out of the set.\<close>

lemma cancel_gone:
  assumes "tm_inv tm" "tm_heap tm t = Some x"
  shows "t \<notin> set (m_timers (snd (cancel t tm)))"
proof (cases "m_cb x = None")
  case True
  with assms show ?thesis by (auto simp: cancel_def timers_ok_def)
next
  case False
  let ?h = "(tm_heap tm)(t \<mapsto> x\<lparr>m_cb := None\<rparr>)"
  have same: "due ?h = due (tm_heap tm)" using assms(2) by (auto simp: due_def fun_eq_iff)
  have d: "distinct (m_timers tm)" using assms(1) by (auto simp: timers_ok_def intro: sorted_key_distinct)
  show ?thesis
  proof (cases "t \<in> set (m_timers tm)")
    case True
    then have "set_find (due (tm_heap tm)) t (m_timers tm) = Some t"
      using assms(1) by (auto simp: timers_ok_def intro: set_find_member)
    with False assms(2) d same show ?thesis by (auto simp: cancel_def Let_def)
  next
    case False': False
    then show ?thesis using False assms(2)
      by (auto simp: cancel_def Let_def split: option.splits dest: notin_set_remove1)
  qed
qed

text \<open>A fiber waits for an event of a descriptor on behalf of a call that has not timed out.\<close>

definition waits_on :: "int \<Rightarrow> events \<Rightarrow> nat \<Rightarrow> nat \<Rightarrow> hook_world \<Rightarrow> bool" where
  "waits_on fd event f tinfo w \<longleftrightarrow> io_inv (w_io w) \<and> 0 \<le> fd \<and> (event = READ \<or> event = WRITE) \<and>
     nat fd < length (m_fdContexts (w_io w)) \<and> wants event (m_fdContexts (w_io w) ! nat fd) \<and>
     context_of event (m_fdContexts (w_io w) ! nat fd) = \<lparr>ev_scheduler = True, ev_fiber = Some f, ev_cb = None\<rparr> \<and>
     tinfos w tinfo = Some 0"

lemma waits_onD:
  assumes "waits_on fd event f tinfo w"
  shows "io_inv (w_io w)" "0 \<le> fd" "event = READ \<or> event = WRITE" "nat fd < length (m_fdContexts (w_io w))"
    "wants event (m_fdContexts (w_io w) ! nat fd)" "tinfos w tinfo = Some 0"
    "waiting (context_of event (m_fdContexts (w_io w) ! nat fd)) = SchedulerTask_fiber (Some f) (- 1)"
  using assms by (auto simp: waits_on_def waiting_def)

abbreviation queue :: "hook_world \<Rightarrow> (nat, hook_cb callback) SchedulerTask list" where
  "queue w \<equiv> m_tasks (io_sched (w_io w))"

definition the_timeout :: "nat \<Rightarrow> int \<Rightarrow> events \<Rightarrow> hook_cb callback" where
  "the_timeout tinfo fd event = Bound_OnTimer tinfo (Timeout_Cb tinfo fd event)"

lemma set_timers_frame [simp]:
  "tinfos (set_timers tm w) = tinfos w" "w_errno (set_timers tm w) = w_errno w" "has_iom (set_timers tm w) = has_iom w"
  "io_sched (w_io (set_timers tm w)) = io_sched (w_io w)" "m_fdContexts (w_io (set_timers tm w)) = m_fdContexts (w_io w)"
  "io_timers (w_io (set_timers tm w)) = tm" "io_inv (w_io (set_timers tm w)) = io_inv (w_io w)"
  by (simp_all add: set_timers_def)

lemma cancel_timer_frame [simp]:
  "tinfos (cancel_timer timer w) = tinfos w" "w_errno (cancel_timer timer w) = w_errno w"
  "io_sched (w_io (cancel_timer timer w)) = io_sched (w_io w)"
  "m_fdContexts (w_io (cancel_timer timer w)) = m_fdContexts (w_io w)"
  by (simp_all add: cancel_timer_def split: option.splits)

lemma run_callback_bound:
  "run_callback rt (the_timeout tinfo fd event) w =
     (if tinfos w tinfo = None then Inr w else run_hook_cb rt (Timeout_Cb tinfo fd event) w)"
proof -
  have "rfold (run_hook_cb rt) [] = Inr" by (rule ext) simp
  then show ?thesis by (simp add: run_callback_def the_timeout_def del: run_hook_cb.simps)
qed

section \<open>Blocking calls\<close>

lemma timeout_wakes:
  assumes "waits_on fd event f tinfo w"
  shows "\<exists>w'. run_callback 0 (the_timeout tinfo fd event) w = Inr w' \<and>
    queue w' = queue w @ [SchedulerTask_fiber (Some f) (- 1)] \<and> tinfos w' tinfo = Some ETIMEDOUT \<and>
    fc_events (m_fdContexts (w_io w') ! nat fd) = fc_events (m_fdContexts (w_io w) ! nat fd) AND NOT event"
proof -
  note D = waits_onD [OF assms]
  obtain io' c' where io': "cancelEvent fd event 0 (w_io w) = Inr (True, io')"
    "m_fdContexts io' = (m_fdContexts (w_io w))[nat fd := c']"
    "fc_events c' = fc_events (m_fdContexts (w_io w) ! nat fd) AND NOT event"
    "m_tasks (io_sched io') = queue w @ [SchedulerTask_fiber (Some f) (- 1)]"
    using cancelEvent_correct [OF D(1,2,4,3,5)] D(7) by auto
  then show ?thesis using D(4,6) by (simp add: run_callback_bound)
qed

lemma report_wakes:
  assumes "waits_on fd event f tinfo w"
  shows "\<exists>io'. dispatch (nat fd) event 0 (w_io w) = Inr io' \<and>
    m_tasks (io_sched io') = queue w @ [SchedulerTask_fiber (Some f) (- 1)] \<and> nat fd < length (m_fdContexts io') \<and>
    fc_events (m_fdContexts io' ! nat fd) = fc_events (m_fdContexts (w_io w) ! nat fd) AND NOT event"
proof -
  note D = waits_onD [OF assms]
  let ?c = "m_fdContexts (w_io w) ! nat fd"
  have re: "real_events event ?c = event" using D(3) by (auto simp: real_events_def event_defs)
  have "event AND fc_events ?c = event"
    using D(1,3-5) by (auto simp: io_inv_def io_core_def ctx_ok_def wants_def event_defs)
  moreover have "woken event ?c = [SchedulerTask_fiber (Some f) (- 1)]"
    using D(3,7) by (auto simp: woken_def context_of_def event_defs)
  ultimately show ?thesis using dispatch_correct [OF D(1,4) refl, of event] D(4) unfolding re by auto
qed

lemma do_io_block_waits:
  assumes inv: "io_all_inv (w_io w)" and iom: "has_iom w" and fd: "0 \<le> fd" and ev: "event = READ \<or> event = WRITE"
    and free: "\<not> wants event (m_fdContexts (with_context (nat fd) (w_io w)) ! nat fd)" and ti: "tinfos w tinfo = Some 0"
  shows "\<exists>timer w'. do_io_block fd event timeout tinfo 0 now (f, RUNNING) w = Inr (Waiting timer, w') \<and>
    waits_on fd event f tinfo w' \<and> queue w' = queue w \<and> (timer = None \<longleftrightarrow> timeout = no_timeout) \<and>
    io_all_inv (w_io w') \<and>
    (\<forall>t. timer = Some t \<longrightarrow> tm_heap (io_timers (w_io w')) t =
       Some (Timer_new timeout (the_timeout tinfo fd event) False now))"
proof -
  obtain timer w1 where 1: "condition_timer timeout fd event tinfo now w = (timer, w1)" by fastforce
  have w1: "io_inv (w_io w1)" "tinfos w1 = tinfos w" "io_sched (w_io w1) = io_sched (w_io w)"
    "m_fdContexts (w_io w1) = m_fdContexts (w_io w)" "timer = None \<longleftrightarrow> timeout = no_timeout"
    "\<forall>t. timer = Some t \<longrightarrow> tm_heap (io_timers (w_io w1)) t =
       Some (Timer_new timeout (the_timeout tinfo fd event) False now)"
    using 1 inv by (auto simp: condition_timer_def io_all_inv_def addConditionTimer_def addTimer_def addTimer_ptr_def
        the_timeout_def Let_def split: if_splits prod.splits)
  have tm: "tm_inv (io_timers (w_io w1))"
    using 1 inv tm_inv_addTimer [of "io_timers (w_io w)" timeout "the_timeout tinfo fd event" False now]
    by (auto simp: condition_timer_def io_all_inv_def addConditionTimer_def the_timeout_def split: if_splits prod.splits)
  have "m_fdContexts (with_context (nat fd) (w_io w1)) = m_fdContexts (with_context (nat fd) (w_io w))"
    by (simp add: with_context_def contextResize_def w1(4))
  then have free1: "\<not> wants event (m_fdContexts (with_context (nat fd) (w_io w1)) ! nat fd)" using free by simp
  obtain io' c' where io': "addEvent fd event None 0 True (f, RUNNING) (w_io w1) = Inr (0, io')" "io_inv io'"
    "io_sched io' = io_sched (w_io w)" "io_timers io' = io_timers (w_io w1)"
    "m_fdContexts io' = (m_fdContexts (with_context (nat fd) (w_io w1)))[nat fd := c']" "wants event c'"
    "context_of event c' = \<lparr>ev_scheduler = True, ev_fiber = Some f, ev_cb = None\<rparr>"
    using addEvent_correct [OF w1(1) fd ev free1, of None "(f, RUNNING)"] w1(3) by auto
  have "do_io_block fd event timeout tinfo 0 now (f, RUNNING) w = Inr (Waiting timer, w1\<lparr>w_io := io'\<rparr>)"
    using iom 1 io'(1) by (simp add: do_io_block_def)
  moreover have "nat fd < length (m_fdContexts io')" using with_context_grows [OF w1(1), of "nat fd"] io'(5) by simp
  then have "waits_on fd event f tinfo (w1\<lparr>w_io := io'\<rparr>)"
    using io' fd ev w1(2) ti by (simp add: waits_on_def)
  ultimately show ?thesis using io'(2-4) w1(5,6) tm by (auto simp: io_all_inv_def)
qed

lemma do_io_block_free:
  assumes "do_io_block fd event timeout tinfo 0 now fiber w = Inr (Waiting timer, w')" "0 \<le> fd"
  shows "has_iom w \<and> \<not> wants event (m_fdContexts (with_context (nat fd) (w_io w)) ! nat fd)"
proof -
  obtain timer1 w1 where 1: "condition_timer timeout fd event tinfo now w = (timer1, w1)" by fastforce
  then have "m_fdContexts (w_io w1) = m_fdContexts (w_io w)"
    by (auto simp: condition_timer_def split: if_splits prod.splits)
  then have "m_fdContexts (with_context (nat fd) (w_io w1)) = m_fdContexts (with_context (nat fd) (w_io w))"
    by (simp add: with_context_def contextResize_def)
  with assms 1 show ?thesis
    by (auto simp: do_io_block_def addEvent_def with_context_def [symmetric] wants_def Let_def dag_bind split: if_splits)
qed

text \<open>
  C10: a hooked call that would block suspends its fiber. If its timer fires first, the fiber is
  scheduled once, the event is taken back and the call returns -1 with \<open>ETIMEDOUT\<close>. If the descriptor
  becomes ready first, the fiber is scheduled once and the call is tried again; the timer, should it
  still run afterwards, does nothing once the call has returned. A timer that runs between the
  report and the resumption makes the call time out without scheduling the fiber a second time.
\<close>

theorem blocked_call_resumes:
  assumes "io_reach (w_io w)" "0 \<le> fd" "event = READ \<or> event = WRITE" "tinfos w tinfo = Some 0"
    and block: "do_io_block fd event timeout tinfo 0 now (f, RUNNING) w = Inr (Waiting timer, w1)"
  shows "queue w1 = queue w \<and>
    (\<exists>w2. run_callback 0 (the_timeout tinfo fd event) w1 = Inr w2 \<and>
       queue w2 = queue w @ [SchedulerTask_fiber (Some f) (- 1)] \<and>
       \<not> wants event (m_fdContexts (w_io w2) ! nat fd) \<and>
       (case do_io_resume timer tinfo w2 of (r, w3) \<Rightarrow> r = Some (- 1) \<and> w_errno w3 = ETIMEDOUT)) \<and>
    (\<exists>io2. dispatch (nat fd) event 0 (w_io w1) = Inr io2 \<and>
       m_tasks (io_sched io2) = queue w @ [SchedulerTask_fiber (Some f) (- 1)] \<and>
       fst (do_io_resume timer tinfo (w1\<lparr>w_io := io2\<rparr>)) = None \<and>
       (\<forall>w'. run_callback rt (the_timeout tinfo fd event) (drop_tinfo tinfo w') = Inr (drop_tinfo tinfo w')) \<and>
       (\<exists>w4. run_callback rt (the_timeout tinfo fd event) (w1\<lparr>w_io := io2\<rparr>) = Inr w4 \<and>
          queue w4 = m_tasks (io_sched io2) \<and> fst (do_io_resume timer tinfo w4) = Some (- 1)))"
proof -
  let ?cb = "the_timeout tinfo fd event"
  have inv: "io_all_inv (w_io w)" by (rule io_reach_inv [OF assms(1)])
  have w1: "waits_on fd event f tinfo w1" "queue w1 = queue w"
    using do_io_block_waits [OF inv _ assms(2,3) _ assms(4), of timeout now f] do_io_block_free [OF block assms(2)] block
    by auto
  let ?c = "m_fdContexts (w_io w1) ! nat fd"
  have gone: "(fc_events ?c AND NOT event) AND event = 0" by (simp add: and.assoc)
  obtain w2 where 2: "run_callback 0 ?cb w1 = Inr w2" "queue w2 = queue w @ [SchedulerTask_fiber (Some f) (- 1)]"
    "tinfos w2 tinfo = Some ETIMEDOUT" "fc_events (m_fdContexts (w_io w2) ! nat fd) = fc_events ?c AND NOT event"
    using timeout_wakes [OF w1(1)] w1(2) by auto
  obtain io2 where 3: "dispatch (nat fd) event 0 (w_io w1) = Inr io2" "nat fd < length (m_fdContexts io2)"
    "m_tasks (io_sched io2) = queue w @ [SchedulerTask_fiber (Some f) (- 1)]"
    "fc_events (m_fdContexts io2 ! nat fd) = fc_events ?c AND NOT event"
    using report_wakes [OF w1(1)] w1(2) by auto
  have ti: "tinfos w1 tinfo = Some 0" by (rule waits_onD(6) [OF w1(1)])
  have "cancelEvent fd event rt io2 = Inr (False, io2)"
    using assms(2) 3(2,4) gone by (simp add: cancelEvent_def find_context_in Let_def)
  then have late: "run_callback rt ?cb (w1\<lparr>w_io := io2\<rparr>) =
      Inr (w1\<lparr>w_io := io2, tinfos := (tinfos w1)(tinfo \<mapsto> ETIMEDOUT)\<rparr>)"
    using ti by (simp add: run_callback_bound)
  have "run_callback rt ?cb (drop_tinfo tinfo w') = Inr (drop_tinfo tinfo w')" for w'
    by (simp add: run_callback_bound drop_tinfo_def)
  with 2 3 late ti gone w1(2) show ?thesis
    by (auto simp: do_io_resume_def wants_def ETIMEDOUT_def Let_def)
qed

text \<open>The world after two descriptors of a socket have been opened and hooked, for the examples.\<close>

definition hook_example :: hook_world where
  "hook_example =
     \<lparr>t_hook_enable = True, has_iom = True, w_io = io_fresh, w_fdm = FdManager_new,
      w_sys = [5 \<mapsto> \<lparr>S_ISSOCK = True, fl_flags = 2\<rparr>, 40 \<mapsto> \<lparr>S_ISSOCK = True, fl_flags = 2\<rparr>],
      w_errno = 0, tinfos = [1 \<mapsto> 0]\<rparr>"

lemma hook_example_reach: "io_reach (w_io hook_example)" "tinfos hook_example 1 = Some 0" "queue hook_example = []"
  by (simp_all add: hook_example_def io_fresh_reach) (simp add: io_fresh_def)

lemma hook_example_blocks:
  "\<exists>timer w1. do_io_block 5 READ 1000 1 0 0 (f, RUNNING) hook_example = Inr (Waiting timer, w1)"
proof -
  have "\<not> wants READ (m_fdContexts (with_context (nat 5) (w_io hook_example)) ! nat 5)"
    by (simp add: with_context_def hook_example_def io_fresh_def wants_def FdContext_new_ok)
  from do_io_block_waits [OF io_reach_inv [OF hook_example_reach(1)] _ _ _ this, of 1 1000 0 f] show ?thesis
    by (auto simp: hook_example_def)
qed

theorem blocked_call_resumes_witness:
  "\<exists>timer w1 w2. do_io_block 5 READ 1000 1 0 0 (3, RUNNING) hook_example = Inr (Waiting timer, w1) \<and>
     run_callback 0 (the_timeout 1 5 READ) w1 = Inr w2 \<and> queue w2 = [SchedulerTask_fiber (Some 3) (- 1)]"
proof -
  obtain timer w1 where 1: "do_io_block 5 READ 1000 1 0 0 (3, RUNNING) hook_example = Inr (Waiting timer, w1)"
    using hook_example_blocks by blast
  from blocked_call_resumes [OF hook_example_reach(1) _ _ hook_example_reach(2) 1, of 0] 1 hook_example_reach(3)
  show ?thesis by auto
qed

section \<open>Descriptors\<close>

lemma get_ctx_found:
  "0 \<le> fd \<Longrightarrow> nat fd < length (w_fdm w) \<Longrightarrow> get_ctx fd w = Inr (w_fdm w ! nat fd)"
  by (auto simp: get_ctx_def FdManager_get_def Let_def)

lemma bit_O_NONBLOCK: "bit O_NONBLOCK n \<longleftrightarrow> n = 11"
proof -
  have "bit O_NONBLOCK n = bit (push_bit 11 (1 :: u32)) n" by (simp add: O_NONBLOCK_def)
  also have "\<dots> \<longleftrightarrow> n = 11" unfolding bit_push_bit_iff bit_1_iff by auto
  finally show ?thesis .
qed

lemma O_NONBLOCK_bit: "x AND O_NONBLOCK \<noteq> 0 \<longleftrightarrow> bit x 11"
proof -
  have "O_NONBLOCK = push_bit 11 1" by (simp add: O_NONBLOCK_def)
  then show ?thesis by (simp add: bit_iff_and_push_bit_not_eq_0)
qed

lemma O_NONBLOCK_set: "x AND O_NONBLOCK \<noteq> 0 \<Longrightarrow> x OR O_NONBLOCK = x"
  unfolding O_NONBLOCK_bit by (rule bit_word_eqI) (auto simp: bit_O_NONBLOCK bit_simps)

lemma O_NONBLOCK_clear: "x AND O_NONBLOCK = 0 \<Longrightarrow> (x OR O_NONBLOCK) AND NOT O_NONBLOCK = x"
  using O_NONBLOCK_bit [of x] by (intro bit_word_eqI) (auto simp: bit_O_NONBLOCK bit_simps)

lemma O_NONBLOCK_or: "(x OR O_NONBLOCK) AND O_NONBLOCK \<noteq> 0"
  unfolding O_NONBLOCK_bit by (simp add: bit_O_NONBLOCK bit_simps)


lemma hook_socket_creates:
  assumes "fdm_inv (w_fdm w)" "0 \<le> fd" "t_hook_enable w" "w_sys w (nat fd) = Some i" "S_ISSOCK i"
    and "\<not> (nat fd < length (w_fdm w) \<and> w_fdm w ! nat fd \<noteq> None)"
  shows "\<exists>w' c. hook_socket fd w = Inr (fd, w') \<and> w_io w' = w_io w \<and> has_iom w' = has_iom w \<and> t_hook_enable w' \<and>
    tinfos w' = tinfos w \<and> fdm_inv (w_fdm w') \<and> nat fd < length (w_fdm w') \<and> w_fdm w' ! nat fd = Some c \<and>
    m_isSocket c \<and> m_sysNonblock c \<and> \<not> m_userNonblock c \<and> \<not> m_isClosed c \<and>
    (\<forall>ty. getTimeout ty c = no_timeout) \<and>
    (\<exists>i'. w_sys w' (nat fd) = Some i' \<and> fl_flags i' AND O_NONBLOCK \<noteq> 0)"
proof -
  obtain c sys' where c: "FdCtx_new (w_sys w) (nat fd) = (c, sys')" by fastforce
  obtain ds' where ds': "FdManager_get (w_sys w) fd True (w_fdm w) = Inr (Some c, ds', sys')" "fdm_inv ds'"
    "nat fd < length ds'" "ds' ! nat fd = Some c"
    using FdManager_get_fresh [OF assms(1,2,6) c] by blast
  with FdCtx_new_socket [OF assms(4,5) c] assms(2,3) show ?thesis
    by (auto simp: hook_socket_def create_ctx_def getTimeout_def)
qed

lemma hook_example_socket:
  "fd = 5 \<or> fd = 40 \<Longrightarrow> \<exists>w c. hook_socket fd hook_example = Inr (fd, w) \<and> w_io w = io_fresh \<and> has_iom w \<and> t_hook_enable w \<and>
    nat fd < length (w_fdm w) \<and> w_fdm w ! nat fd = Some c \<and> m_isSocket c \<and> m_sysNonblock c \<and> \<not> m_isClosed c \<and>
    (\<exists>i. w_sys w (nat fd) = Some i)"
proof -
  assume fd: "fd = 5 \<or> fd = 40"
  then have "\<not> (nat fd < length (w_fdm hook_example) \<and> w_fdm hook_example ! nat fd \<noteq> None)"
    by (auto simp: hook_example_def FdManager_new_def)
  from hook_socket_creates [OF _ _ _ _ _ this] fd fdm_inv_new show ?thesis
    by (force simp: hook_example_def)
qed


lemma hook_close_correct:
  assumes "io_reach (w_io w)" "0 \<le> fd" "t_hook_enable w" "has_iom w"
    and "nat fd < length (w_fdm w)" "w_fdm w ! nat fd = Some ctx" "nat fd < length (m_fdContexts (w_io w))"
  shows "\<exists>w'. hook_close fd 0 w = Inr w' \<and> get_ctx fd w' = Inr None \<and>
    fc_events (m_fdContexts (w_io w') ! nat fd) = 0 \<and>
    queue w' = queue w @ woken (fc_events (m_fdContexts (w_io w) ! nat fd)) (m_fdContexts (w_io w) ! nat fd) \<and>
    io_reach (w_io w') \<and> t_hook_enable w' \<and> has_iom w' \<and> w_fdm w' = FdManager_del fd (w_fdm w) \<and>
    length (m_fdContexts (w_io w')) = length (m_fdContexts (w_io w)) \<and>
    (\<forall>i. i \<noteq> nat fd \<longrightarrow> m_fdContexts (w_io w') ! i = m_fdContexts (w_io w) ! i)"
proof -
  have inv: "io_inv (w_io w)" using io_reach_inv [OF assms(1)] by (simp add: io_all_inv_def)
  have ctx: "get_ctx fd w = Inr (Some ctx)" using assms by (simp add: get_ctx_found)
  obtain r io' where io': "cancelAll fd 0 (w_io w) = Inr (r, io')" "fc_events (m_fdContexts io' ! nat fd) = 0"
    "m_tasks (io_sched io') = queue w @ woken (fc_events (m_fdContexts (w_io w) ! nat fd)) (m_fdContexts (w_io w) ! nat fd)"
    "length (m_fdContexts io') = length (m_fdContexts (w_io w))"
    "\<forall>i. i \<noteq> nat fd \<longrightarrow> m_fdContexts io' ! i = m_fdContexts (w_io w) ! i"
    using cancelAll_total [OF inv assms(2,7)] by blast
  let ?w = "w\<lparr>w_io := io', w_fdm := FdManager_del fd (w_fdm w)\<rparr>"
  have "hook_close fd 0 w = Inr ?w" using ctx io'(1) assms(3,4) by (simp add: hook_close_def)
  moreover have "get_ctx fd ?w = Inr None" using assms(2,5) by (simp add: get_ctx_found FdManager_del_def)
  moreover have "io_reach io'" by (rule io_next [OF assms(1) io_cancel_all [OF io'(1)]])
  ultimately show ?thesis using io' assms(3,4) by (intro exI [of _ ?w]) simp
qed

lemma hook_close_unknown:
  assumes "io_reach (w_io w)" "0 \<le> fd" "t_hook_enable w" "has_iom w"
    and "nat fd < length (w_fdm w)" "w_fdm w ! nat fd = Some ctx" "\<not> nat fd < length (m_fdContexts (w_io w))"
  shows "hook_close fd rt w = Inl Out_Of_Bounds"
proof -
  have "io_inv (w_io w)" using io_reach_inv [OF assms(1)] by (simp add: io_all_inv_def)
  then have "find_context fd (w_io w) = Inl Out_Of_Bounds"
    using assms(7) by (auto simp: find_context_def io_inv_def io_core_def)
  with assms show ?thesis by (simp add: hook_close_def cancelAll_def get_ctx_found)
qed

text \<open>
  Closing a hooked socket wakes the fibers that wait for it, takes back its events and forgets its
  context; but if the socket's number lies beyond the event contexts, because no event was ever
  registered for it or a greater one, \<open>close\<close> accesses the table of the event loop out of bounds.
\<close>

lemma close_socket:
  assumes "io_reach (w_io w)" "0 \<le> fd" "t_hook_enable w" "has_iom w"
    and "nat fd < length (w_fdm w)" "w_fdm w ! nat fd = Some ctx"
  shows "if nat fd < length (m_fdContexts (w_io w))
    then \<exists>w'. hook_close fd 0 w = Inr w' \<and> get_ctx fd w' = Inr None \<and>
      fc_events (m_fdContexts (w_io w') ! nat fd) = 0 \<and>
      queue w' = queue w @ woken (fc_events (m_fdContexts (w_io w) ! nat fd)) (m_fdContexts (w_io w) ! nat fd)
    else hook_close fd 0 w = Inl Out_Of_Bounds"
  using hook_close_correct [OF assms] hook_close_unknown [OF assms] by auto

lemma close_socket_witness: "\<exists>w. hook_socket 40 hook_example = Inr (40, w) \<and> hook_close 40 0 w = Inl Out_Of_Bounds"
proof -
  obtain w c where w: "hook_socket 40 hook_example = Inr (40, w)" "w_io w = io_fresh" "has_iom w" "t_hook_enable w"
    "nat 40 < length (w_fdm w)" "w_fdm w ! nat 40 = Some c"
    using hook_example_socket [of 40] by auto
  have "io_reach (w_io w)" by (simp add: w(2) io_fresh_reach)
  from close_socket [OF this _ w(4,3,5,6)] w(1,2) show ?thesis by (auto simp: io_fresh_def)
qed

text \<open>
  A connection in progress whose registration with the event loop fails is reported as established
  as soon as the socket has no pending error, although nothing has waited for it.
\<close>

lemma connect_registration_failure:
  assumes "has_iom w" "io_reach (w_io w)" "0 \<le> fd" "rt \<noteq> 0"
    and "\<not> wants WRITE (m_fdContexts (with_context (nat fd) (w_io w)) ! nat fd)"
  shows "\<exists>w'. connect_begin fd timeout_ms tinfo (- 1, EINPROGRESS) rt now fiber w = Inr (Check_Error, w') \<and>
    fst (connect_check (0, 0) w') = 0 \<and> queue w' = queue w"
proof -
  let ?w0 = "new_tinfo tinfo (w\<lparr>w_errno := EINPROGRESS\<rparr>)"
  obtain timer w1 where 1: "condition_timer timeout_ms fd WRITE tinfo now ?w0 = (timer, w1)" by fastforce
  then have w1: "m_fdContexts (w_io w1) = m_fdContexts (w_io w)" "io_sched (w_io w1) = io_sched (w_io w)"
    "io_inv (w_io w1)"
    using io_reach_inv [OF assms(2)]
    by (auto simp: condition_timer_def new_tinfo_def io_all_inv_def split: if_splits prod.splits)
  then have "m_fdContexts (with_context (nat fd) (w_io w1)) = m_fdContexts (with_context (nat fd) (w_io w))"
    by (simp add: with_context_def contextResize_def)
  then have "addEvent fd WRITE None rt True fiber (w_io w1) = Inr (- 1, with_context (nat fd) (w_io w1))"
    using assms(3-5) with_context_grows [OF w1(3), of "nat fd"]
    by (simp add: addEvent_def with_context_def [symmetric] wants_def Let_def)
  with assms(1) 1 w1(2) with_context_grows [OF w1(3), of "nat fd"] show ?thesis
    by (simp add: connect_begin_def connect_check_def)
qed

lemma connect_registration_failure_witness:
  "\<exists>w'. connect_begin 5 no_timeout 2 (- 1, EINPROGRESS) (- 1) 0 (3, RUNNING) hook_example = Inr (Check_Error, w') \<and>
     fst (connect_check (0, 0) w') = 0"
  using connect_registration_failure [of hook_example 5 "- 1" no_timeout 2 0 "(3, RUNNING)"] io_fresh_reach
  by (auto simp: hook_example_def with_context_def io_fresh_def wants_def FdContext_new_ok)

section \<open>Sleeping and timeouts\<close>

lemma unat_times_1000: "unat ((x :: u32) * 1000) = unat x * 1000 mod 2 ^ 32"
  by (simp add: unat_word_ariths)

lemma sint_word_of_int_32:
  "0 \<le> k \<Longrightarrow> k < 2 ^ 32 \<Longrightarrow> sint (word_of_int k :: 32 word) = (if k < 2 ^ 31 then k else k - 2 ^ 32)"
proof -
  assume k: "0 \<le> k" "k < 2 ^ 32"
  have "(k + 2147483648) mod 4294967296 = k - 2147483648" if "2147483648 \<le> k"
  proof -
    have "(k + 2147483648) mod 4294967296 = (k + 2147483648 - 4294967296) mod 4294967296"
      by (rule minus_mod_self2 [symmetric])
    also have "\<dots> = k - 2147483648" using that k by (subst mod_pos_pos_trivial) auto
    finally show ?thesis .
  qed
  with k show ?thesis by (auto simp: sint_sbintrunc' signed_take_bit_eq_take_bit_shift take_bit_eq_mod)
qed

text \<open>
  A hooked \<open>sleep\<close> arms a timer for exactly the seconds asked for as long as their number is at
  most 4294967; beyond, the product wraps around and the fiber is woken too early. \<open>usleep\<close> rounds
  down to milliseconds. \<open>nanosleep\<close> is exact in milliseconds up to 2147483 seconds; the next second
  turns the wait into one of more than 500 million years.
\<close>

lemma sleep_durations:
  "(sleep_ms seconds = unat seconds * 1000 \<longleftrightarrow> unat seconds \<le> 4294967) \<and> sleep_ms seconds \<le> unat seconds * 1000 \<and>
   usleep_ms usec = unat usec div 1000 \<and>
   (\<forall>s < 2147483. \<forall>ns < 1000000000. nanosleep_ms (int s) ns = s * 1000 + ns div 1000000) \<and>
   nanosleep_ms 2147484 0 > 18446744071562067967"
proof (intro conjI allI impI)
  have "unat seconds < 2 ^ 32" using unat_bound [of seconds] by simp
  then show "sleep_ms seconds = unat seconds * 1000 \<longleftrightarrow> unat seconds \<le> 4294967"
    unfolding sleep_ms_def unat_times_1000
    by (auto simp: mod_eq_self_iff_div_eq_0 div_eq_0_iff)
  show "sleep_ms seconds \<le> unat seconds * 1000" unfolding sleep_ms_def unat_times_1000 by simp
  show "usleep_ms usec = unat usec div 1000" by (simp add: usleep_ms_def unat_div)
  fix s ns :: nat
  assume "s < 2147483" "ns < 1000000000"
  then have "ns div 1000000 < 1000" "ns div 1000 div 1000 = ns div 1000000"
    by (simp_all add: less_mult_imp_div_less div_mult2_eq [symmetric])
  moreover from this \<open>s < 2147483\<close> have "s * 1000 + ns div 1000000 < 2 ^ 31" by simp
  ultimately show "nanosleep_ms (int s) ns = s * 1000 + ns div 1000000"
    using sint_word_of_int_32 [of "int s * 1000 + int (ns div 1000000)"]
    by (simp add: nanosleep_ms_def nat_add_distrib nat_mult_distrib)
next
  show "nanosleep_ms 2147484 0 > 18446744071562067967"
    by (simp add: nanosleep_ms_def sint_word_of_int_32)
qed

lemma sleep_durations_witness: "nanosleep_ms (int 2) 5000000 = 2005"
proof -
  have "nanosleep_ms (int 2) 5000000 = 2 * 1000 + 5000000 div 1000000"
    using sleep_durations [of 0 0] by (elim conjE allE [of _ 2] allE [of _ 5000000]) auto
  then show ?thesis by simp
qed

text \<open>
  The timeout options are kept in milliseconds. Setting a timeout of zero, which for the system
  means to wait without a limit, or one below a millisecond makes every call that would block expire
  at once: its timer is due when it is armed.
\<close>

lemma zero_timeout_expires:
  assumes "0 \<le> fd" "nat fd < length (w_fdm w)" "w_fdm w ! nat fd = Some ctx" "m_isSocket ctx" "\<not> m_isClosed ctx"
    and "\<not> m_userNonblock ctx" "t_hook_enable w" "0 \<le> tv_usec" "tv_usec < 1000"
  shows "\<exists>w'. hook_settimeout fd ty 0 tv_usec w = Inr w' \<and> do_io_enter fd ty w' = Inr (Hooked 0, w') \<and>
    (case condition_timer 0 fd event tinfo now w' of (timer, w1) \<Rightarrow>
       \<exists>t. timer = Some t \<and> deadline (io_timers (w_io w1)) t = now)"
proof -
  let ?ctx = "setTimeout ty 0 ctx"
  let ?w = "put_ctx fd ?ctx w"
  have set: "hook_settimeout fd ty 0 tv_usec w = Inr ?w" using assms by (simp add: hook_settimeout_def get_ctx_found)
  have "get_ctx fd ?w = Inr (Some ?ctx)" using assms(1,2) by (simp add: get_ctx_found put_ctx_def)
  moreover have "m_isSocket ?ctx" "\<not> m_isClosed ?ctx" "\<not> m_userNonblock ?ctx"
    using assms(4-6) by (simp_all add: setTimeout_def)
  ultimately have "do_io_enter fd ty ?w = Inr (Hooked 0, ?w)"
    using assms(7) by (simp add: do_io_enter_def timeout_roundtrip) (simp add: put_ctx_def)
  moreover have "0 \<noteq> no_timeout" by (simp add: no_timeout_def)
  then have "case condition_timer 0 fd event tinfo now ?w of (timer, w1) \<Rightarrow>
      \<exists>t. timer = Some t \<and> deadline (io_timers (w_io w1)) t = now"
    by (auto simp: condition_timer_def addConditionTimer_def addTimer_def addTimer_ptr_def Timer_new_def milliseconds_def
        Let_def split: prod.splits)
  ultimately show ?thesis using set by (intro exI [of _ ?w]) simp
qed

lemma zero_timeout_expires_witness:
  "\<exists>w w'. hook_socket 5 hook_example = Inr (5, w) \<and> hook_settimeout 5 SO_RCVTIMEO 0 0 w = Inr w' \<and>
     do_io_enter 5 SO_RCVTIMEO w' = Inr (Hooked 0, w')"
proof -
  have "\<not> (nat 5 < length (w_fdm hook_example) \<and> w_fdm hook_example ! nat 5 \<noteq> None)"
    by (auto simp: hook_example_def FdManager_new_def)
  from hook_socket_creates [OF _ _ _ _ _ this] fdm_inv_new
  obtain w c where w: "hook_socket 5 hook_example = Inr (5, w)" "nat 5 < length (w_fdm w)" "w_fdm w ! nat 5 = Some c"
    "m_isSocket c" "\<not> m_isClosed c" "\<not> m_userNonblock c" "t_hook_enable w"
    by (force simp: hook_example_def)
  from zero_timeout_expires [OF _ w(2-7), of 0 SO_RCVTIMEO 0 READ 1] w(1) show ?thesis by auto
qed

section \<open>Commands and options that are passed on\<close>

lemma hook_init_fills: "origin_f (hook_init DEBUG dlsym hook_table_start) = dlsym"
  by (simp add: hook_init_def hook_table_start_def)

lemma hook_init_again:
  "hook_init DEBUG dlsym (hook_init DEBUG dlsym t) = hook_init DEBUG dlsym t"
  by (simp add: hook_init_def)

text \<open>\<open>connect\<close> waits without a limit.\<close>

lemma connect_arms_no_timer:
  assumes "hook_connect fd tinfo r rt now fiber w = Inr (Connecting timer, w')"
  shows "timer = None"
  using assms by (auto simp: hook_connect_def connect_begin_def condition_timer_def s_connect_timeout_def no_timeout_def
      Let_def dag_bind split: if_splits)

text \<open>Every command with a case of its own reaches the system with the argument it was given.\<close>

lemma fcntl_passes_on:
  assumes "cmd \<in> set fcntl_int_cmds \<and> va = Int_Arg n \<or> cmd \<in> set fcntl_plain_cmds \<and> va = No_Arg \<or>
    cmd \<in> set fcntl_ptr_cmds \<and> va = Ptr_Arg p"
  shows "hook_fcntl fcntl_f fd cmd va w = Inr (fcntl_f fd cmd va w)"
  using assms by (auto simp: hook_fcntl_def fcntl_int_cmds_def fcntl_plain_cmds_def fcntl_ptr_cmds_def)

text \<open>
  A command without a case of its own loses its argument: the open file description locks and the
  seals of a file, which have one, reach the system without it.
\<close>

lemma fcntl_default_drops_argument:
  "hook_fcntl fcntl_f fd (Other_Cmd c) va w = Inr (fcntl_f fd (Other_Cmd c) No_Arg w)"
  by (simp add: hook_fcntl_def fcntl_int_cmds_def fcntl_plain_cmds_def fcntl_ptr_cmds_def)

lemma setsockopt_other:
  assumes "level \<noteq> SOL_SOCKET \<or> optname \<notin> {timeout_optname SO_RCVTIMEO, timeout_optname SO_SNDTIMEO}"
  shows "hook_setsockopt fd level optname v w = Inr w"
  using assms by (auto simp: hook_setsockopt_def)

lemma setsockopt_timeout:
  "hook_setsockopt fd SOL_SOCKET (timeout_optname ty) (Opt_Timeval s u) w = hook_settimeout fd ty s u w"
  by (cases ty) (auto simp: hook_setsockopt_def hook_settimeout_def)

text \<open>
  A duplicate of a hooked socket is not known to the hooks: reading from the socket waits in its
  fiber, while the same call on the duplicate is passed on to the system, where the descriptor does not block.
\<close>

lemma duplicate_not_hooked:
  assumes "t_hook_enable w" "get_ctx fd w = Inr (Some ctx)" "m_isSocket ctx" "\<not> m_isClosed ctx" "\<not> m_userNonblock ctx"
    and "fcntl_f fd F_DUPFD (Int_Arg n) w = (fd', w')" "t_hook_enable w'" "get_ctx fd' w' = Inr None"
  shows "do_io_enter fd ty w = Inr (Hooked (getTimeout ty ctx), w) \<and>
    hook_fcntl fcntl_f fd F_DUPFD (Int_Arg n) w = Inr (fd', w') \<and> do_io_enter fd' ty w' = Inr (Call_Origin, w')"
  using assms by (simp add: do_io_enter_def fcntl_passes_on fcntl_int_cmds_def)

end
