(* ===== verification/EventLoop.thy ===== *)
theory EventLoop
  imports Hook
begin

text \<open>
  The event loop at work: the scheduler's workers, the hooked calls that their fibers make, the events
  and the timers of the manager as one system whose steps interleave. A fiber is at any time in
  the queue, in the context of a descriptor it waits for, asleep, on a worker, or finished. Between the
  registration of an event and the yield that follows it the worker still holds the lock of the fiber
  (\<open>m_mutex\<close> of \<open>Fiber\<close>, taken in \<open>Scheduler::run\<close>), so that another worker which has taken the fiber
  already cannot run it yet. A fiber that sleeps is held by its timer, then by the callback that the
  timer queues, then by the worker that runs the callback.

  Timers are taken with deadlines that differ from those of the timers in the set. What happens
  otherwise is the last theorem of this file.
\<close>

section \<open>The places that hold a fiber\<close>

fun hook_fibers :: "hook_cb \<Rightarrow> nat multiset" where
  "hook_fibers (Timeout_Cb _ _ _) = {#}"
| "hook_fibers (Wake_Fiber f) = {#f#}"

fun cb_fibers :: "hook_cb callback \<Rightarrow> nat multiset" where
  "cb_fibers (Plain h) = hook_fibers h"
| "cb_fibers (Bound_OnTimer _ h) = hook_fibers h"

definition task_fibers :: "(nat, hook_cb callback) SchedulerTask \<Rightarrow> nat multiset" where
  "task_fibers t = (case task_fiber t of Some f \<Rightarrow> {#f#} | None \<Rightarrow> case_option {#} cb_fibers (task_cb t))"

definition queued :: "hook_io \<Rightarrow> nat multiset" where
  "queued io = sum_list (map task_fibers (m_tasks (io_sched io)))"

definition event_fibers :: "events \<Rightarrow> (nat, hook_cb) FdContext \<Rightarrow> nat multiset" where
  "event_fibers event c = (if wants event c then task_fibers (waiting (context_of event c)) else {#})"

definition ctx_fibers :: "(nat, hook_cb) FdContext \<Rightarrow> nat multiset" where
  "ctx_fibers c = event_fibers READ c + event_fibers WRITE c"

definition suspended :: "hook_io \<Rightarrow> nat multiset" where
  "suspended io = sum_list (map ctx_fibers (m_fdContexts io))"

definition sleeping :: "hook_io \<Rightarrow> nat multiset" where
  "sleeping io = armed_weight cb_fibers (io_timers io)"

definition held :: "hook_io \<Rightarrow> nat multiset" where
  "held io = queued io + suspended io + sleeping io"

lemmas held_defs = held_def queued_def suspended_def sleeping_def

lemma held_interest [simp]: "held (io\<lparr>ep_interest := x\<rparr>) = held io"
  by (simp add: held_defs)

lemma held_cong:
  "m_tasks (io_sched io') = m_tasks (io_sched io) \<Longrightarrow> m_fdContexts io' = m_fdContexts io \<Longrightarrow>
   armed_weight cb_fibers (io_timers io') = armed_weight cb_fibers (io_timers io) \<Longrightarrow> held io' = held io"
  by (simp add: held_defs)

lemma held_timers: "held (io\<lparr>io_timers := tm\<rparr>) + sleeping io = held io + armed_weight cb_fibers tm"
  by (simp add: held_defs ac_simps)

lemma held_schedule: "has_work t \<Longrightarrow> held (io_schedule t io) = held io + task_fibers t"
  by (simp add: held_defs ac_simps)

lemma held_cb: "held (io_schedule (SchedulerTask_cb cb thr) io) = held io + case_option {#} cb_fibers cb"
  by (cases cb) (simp_all add: held_defs task_fibers_def SchedulerTask_cb_def has_work_def ac_simps)

lemma suspended_put:
  "n < length (m_fdContexts io) \<Longrightarrow> m_fdContexts io' = (m_fdContexts io)[n := c] \<Longrightarrow>
   suspended io' + ctx_fibers (m_fdContexts io ! n) = suspended io + ctx_fibers c"
  by (simp add: suspended_def sum_list_put)

text \<open>Triggering an event moves its fiber from the context to the queue.\<close>

lemma ctx_fibers_trigger:
  assumes "event = READ \<or> event = WRITE" "wants event c" "fc_events c' = fc_events c AND NOT event"
    and "event = READ \<longrightarrow> fc_write c' = fc_write c" "event = WRITE \<longrightarrow> fc_read c' = fc_read c"
  shows "ctx_fibers c = ctx_fibers c' + task_fibers (waiting (context_of event c))"
proof -
  have "\<not> wants event c'" using assms(3) by (simp add: wants_def and.assoc)
  moreover have "wants READ c' = wants READ c" if "event = WRITE"
    using assms(3) that by (simp add: wants_def and.assoc event_defs)
  moreover have "wants WRITE c' = wants WRITE c" if "event = READ"
    using assms(3) that by (simp add: wants_def and.assoc event_defs)
  moreover have "READ \<noteq> WRITE" by (simp add: event_defs)
  ultimately show ?thesis using assms(1,2,4,5)
    by (auto simp: ctx_fibers_def event_fibers_def context_of_def)
qed

lemma held_trigger_on:
  assumes core: "io_core io" and n: "n < length (m_fdContexts io)" and ev: "event = READ \<or> event = WRITE"
    and t: "trigger_on n event io = Inr io'"
  shows "held io' = held io \<and> io_core io' \<and> length (m_fdContexts io') = length (m_fdContexts io)"
proof -
  let ?c = "m_fdContexts io ! n"
  have w: "wants event ?c" using trigger_if_wants [of True n event io io'] t by (simp add: trigger_if_def)
  obtain c' where 1: "io_core io'" "m_fdContexts io' = (m_fdContexts io)[n := c']"
    "fc_events c' = fc_events ?c AND NOT event"
    "m_tasks (io_sched io') = m_tasks (io_sched io) @ [waiting (context_of event ?c)]"
    "event = READ \<longrightarrow> fc_write c' = fc_write ?c" "event = WRITE \<longrightarrow> fc_read c' = fc_read ?c"
    using trigger_on_correct [OF core n ev w] t by auto
  have "suspended io' + ctx_fibers ?c = suspended io + ctx_fibers c'" by (rule suspended_put [OF n 1(2)])
  then have "suspended io' + task_fibers (waiting (context_of event ?c)) = suspended io"
    unfolding ctx_fibers_trigger [OF ev w 1(3,5,6)] by (simp add: ac_simps)
  moreover have "queued io' = queued io + task_fibers (waiting (context_of event ?c))"
    by (simp add: queued_def 1(4))
  moreover have "sleeping io' = sleeping io" using trigger_on_timers [OF t] by (simp add: sleeping_def)
  ultimately have "held io' = held io" by (simp add: held_def ac_simps)
  then show ?thesis using 1(1,2) by simp
qed

lemma held_trigger_if:
  assumes "io_core io" "n < length (m_fdContexts io)" "event = READ \<or> event = WRITE" "trigger_if b n event io = Inr io'"
  shows "held io' = held io \<and> io_core io' \<and> length (m_fdContexts io') = length (m_fdContexts io)"
  using assms held_trigger_on [OF assms(1-3)] by (auto simp: trigger_if_def split: if_splits)

lemma held_trigger_both:
  assumes "io_core io" "n < length (m_fdContexts io)"
    and "trigger_if b n READ io = Inr io1" "trigger_if b' n WRITE io1 = Inr io2"
  shows "held io2 = held io"
  using held_trigger_if [OF assms(1,2) _ assms(3)] held_trigger_if [OF _ _ _ assms(4)] assms(2) by simp

lemma held_dispatch:
  assumes "io_inv io" "n < length (m_fdContexts io)" "dispatch n ev rt io = Inr io'"
  shows "held io' = held io"
  using assms
  by (auto simp: dispatch_def io_inv_def dag_bind Let_def split: if_splits dest!: held_trigger_both [rotated 2])

text \<open>What the cancelling operations come down to.\<close>

lemma cancelEvent_cases:
  assumes "cancelEvent fd event rt io = Inr (r, io')"
  obtains "io' = io"
  | n e where "n < length (m_fdContexts io)" "event = READ \<or> event = WRITE" "trigger_on n event (io\<lparr>ep_interest := e\<rparr>) = Inr io'"
proof (cases r)
  case True
  then obtain n e where n: "find_context fd io = Inr (Some n)" and t: "trigger_on n event (io\<lparr>ep_interest := e\<rparr>) = Inr io'"
    using assms by (auto simp: cancelEvent_def Let_def dag_bind split: option.splits if_splits)
  have "event = READ \<or> event = WRITE"
    using t by (auto simp: trigger_on_def triggerEvent_def Let_def dag_bind split: if_splits dest!: event_context_cases)
  with find_context_Some [OF n] t that(2) show thesis by blast
next
  case False
  with assms that(1) show thesis by (auto simp: cancelEvent_def Let_def dag_bind split: option.splits if_splits)
qed

lemma cancelAll_cases:
  assumes "cancelAll fd rt io = Inr (r, io')"
  obtains "io' = io"
  | n b b' e io1 where "n < length (m_fdContexts io)" "trigger_if b n READ (io\<lparr>ep_interest := e\<rparr>) = Inr io1"
    "trigger_if b' n WRITE io1 = Inr io'"
proof (cases r)
  case True
  then obtain n b b' e io1 where "find_context fd io = Inr (Some n)"
    "trigger_if b n READ (io\<lparr>ep_interest := e\<rparr>) = Inr io1" "trigger_if b' n WRITE io1 = Inr io'"
    using assms by (auto simp: cancelAll_def dag_bind Let_def split: option.splits if_splits)
  with find_context_Some [of fd io n] that(2) show thesis by blast
next
  case False
  with assms that(1) show thesis by (auto simp: cancelAll_def Let_def dag_bind split: option.splits if_splits)
qed

lemma held_cancelEvent: "io_inv io \<Longrightarrow> cancelEvent fd event rt io = Inr (r, io') \<Longrightarrow> held io' = held io"
  by (erule cancelEvent_cases) (auto simp: io_inv_def dest: held_trigger_on [rotated 3])

lemma held_cancelAll: "io_inv io \<Longrightarrow> cancelAll fd rt io = Inr (r, io') \<Longrightarrow> held io' = held io"
  by (erule cancelAll_cases) (auto simp: io_inv_def dest: held_trigger_both [rotated 2])

text \<open>Adding an event stores the fiber in the context.\<close>

lemma suspended_with_context:
  assumes "io_inv io"
  shows "suspended (with_context n io) = suspended io"
proof (cases "length (m_fdContexts io) > n")
  case False
  then have "32 \<le> n" using assms by (auto simp: io_inv_def io_core_def)
  then have "length (m_fdContexts io) \<le> n * 3 div 2" using False by simp
  moreover have "ctx_fibers \<circ> (FdContext_new :: nat \<Rightarrow> (nat, hook_cb) FdContext) = (\<lambda>_. {#})"
    by (simp add: fun_eq_iff ctx_fibers_def event_fibers_def wants_def FdContext_new_ok)
  ultimately show ?thesis using False by (simp add: with_context_def contextResize_def suspended_def)
qed (simp add: with_context_def)

lemma ctx_fibers_add:
  assumes "event = READ \<or> event = WRITE" "\<not> wants event c"
  shows "ctx_fibers (setEventContext event x (c\<lparr>fc_events := fc_events c OR event\<rparr>)) = ctx_fibers c + task_fibers (waiting x)"
proof -
  let ?c = "setEventContext event x (c\<lparr>fc_events := fc_events c OR event\<rparr>)"
  have ev: "READ \<noteq> WRITE" "(READ :: events) AND WRITE = 0" "(WRITE :: events) AND READ = 0" "READ \<noteq> 0" "WRITE \<noteq> 0"
    by (simp_all add: event_defs)
  have "wants event ?c" "wants READ ?c \<longleftrightarrow> wants READ c \<or> event = READ" "wants WRITE ?c \<longleftrightarrow> wants WRITE c \<or> event = WRITE"
    using assms(1) ev by (auto simp: wants_def bit.conj_disj_distrib2)
  then show ?thesis using assms ev(1)
    by (auto simp: ctx_fibers_def event_fibers_def context_of_def setEventContext_def ac_simps)
qed

lemma held_addEvent:
  assumes inv: "io_inv io" and a: "addEvent fd event None rt True (f, st) io = Inr (r, io')"
  shows "held io' = held io + (if r = 0 then {#f#} else {#})"
proof -
  let ?n = "nat fd" and ?io1 = "with_context (nat fd) io"
  let ?c = "m_fdContexts ?io1 ! ?n"
  have sleep: "sleeping io' = sleeping io" using event_ops_timers(1) [OF a] by (simp add: sleeping_def)
  have sched: "io_sched ?io1 = io_sched io" and n: "?n < length (m_fdContexts ?io1)"
    using with_context_grows [OF inv, of ?n] by auto
  show ?thesis
  proof (cases "rt = 0")
    case True
    let ?x = "\<lparr>ev_scheduler = True, ev_fiber = Some f, ev_cb = None\<rparr>"
    have "r = 0 \<and> \<not> wants event ?c \<and> (event = READ \<or> event = WRITE) \<and> io_sched io' = io_sched ?io1 \<and>
        m_fdContexts io' = (m_fdContexts ?io1)[?n := setEventContext event ?x (?c\<lparr>fc_events := fc_events ?c OR event\<rparr>)]"
      using a True by (auto simp: addEvent_def with_context_def [symmetric] wants_def Let_def dag_bind put_context_def
          split: if_splits dest!: event_context_cases)
    then have io': "r = 0" "\<not> wants event ?c" "event = READ \<or> event = WRITE" "io_sched io' = io_sched io"
      "m_fdContexts io' = (m_fdContexts ?io1)[?n := setEventContext event ?x (?c\<lparr>fc_events := fc_events ?c OR event\<rparr>)]"
      using sched by auto
    have "task_fibers (waiting ?x) = {#f#}" by (simp add: waiting_def task_fibers_def SchedulerTask_fiber_def)
    then have "suspended io' = suspended io + {#f#}"
      using suspended_put [OF n io'(5)] ctx_fibers_add [OF io'(3,2), of ?x] suspended_with_context [OF inv, of ?n] by simp
    then show ?thesis using io'(1,4) sleep by (simp add: held_def queued_def)
  next
    case False
    then have "r = - 1 \<and> io' = ?io1"
      using a by (auto simp: addEvent_def with_context_def [symmetric] Let_def split: if_splits)
    then show ?thesis using sched sleep suspended_with_context [OF inv, of ?n] by (simp add: held_def queued_def)
  qed
qed

section \<open>Callbacks of the hooks\<close>

text \<open>A property of all callbacks that the manager holds.\<close>

definition cbs_io :: "('f callback \<Rightarrow> bool) \<Rightarrow> ('fiber, 'f) IOManager \<Rightarrow> bool" where
  "cbs_io P io \<longleftrightarrow> (\<forall>t \<in> set (m_tasks (io_sched io)). pred_option P (task_cb t)) \<and>
     (\<forall>c \<in> set (m_fdContexts io). pred_option P (ev_cb (fc_read c)) \<and> pred_option P (ev_cb (fc_write c))) \<and>
     cbs_all P (io_timers io)"

lemma cbs_io_frame [simp]: "cbs_io P (io\<lparr>ep_interest := x\<rparr>) = cbs_io P io"
  by (simp add: cbs_io_def)

lemma cbs_io_schedule: "cbs_io P io \<Longrightarrow> pred_option P (task_cb t) \<Longrightarrow> cbs_io P (io_schedule t io)"
  by (auto simp: cbs_io_def)

lemma cbs_io_trigger_on:
  assumes "cbs_io P io" "n < length (m_fdContexts io)" "trigger_on n event io = Inr io'"
  shows "cbs_io P io' \<and> length (m_fdContexts io') = length (m_fdContexts io)"
proof -
  let ?c = "m_fdContexts io ! n"
  have c: "?c \<in> set (m_fdContexts io)" using assms(2) by simp
  obtain t c' where t: "triggerEvent event ?c = Inr (t, c')"
    and io': "io' = (io_schedule t (put_context n c' io))\<lparr>m_pendingEvenCount := m_pendingEvenCount io - 1\<rparr>"
    using assms(3) by (auto simp: trigger_on_def dag_bind)
  have "pred_option P (task_cb t)" "pred_option P (ev_cb (fc_read c'))" "pred_option P (ev_cb (fc_write c'))"
    using t assms(1) c
    by (auto simp: triggerEvent_def cbs_io_def Let_def dag_bind setEventContext_def EventContext_empty_def context_of_def
        SchedulerTask_cb_ptr_def SchedulerTask_fiber_ptr_def SchedulerTask_cb_def SchedulerTask_fiber_def
        split: if_splits dest!: event_context_cases)
  with assms(1) show ?thesis
    by (auto simp: io' cbs_io_def put_context_def dest!: set_update_subset_insert [THEN subsetD])
qed

lemma cbs_io_trigger_if:
  assumes "cbs_io P io" "n < length (m_fdContexts io)" "trigger_if b n event io = Inr io'"
  shows "cbs_io P io' \<and> length (m_fdContexts io') = length (m_fdContexts io)"
  using assms cbs_io_trigger_on [OF assms(1,2)] by (auto simp: trigger_if_def split: if_splits)

lemma cbs_io_trigger_both:
  assumes "cbs_io P io" "n < length (m_fdContexts io)"
    and "trigger_if b n READ io = Inr io1" "trigger_if b' n WRITE io1 = Inr io2"
  shows "cbs_io P io2"
  using cbs_io_trigger_if [OF assms(1-3)] cbs_io_trigger_if [OF _ _ assms(4), of P] assms(2) by simp

lemma cbs_io_dispatch:
  assumes "cbs_io P io" "n < length (m_fdContexts io)" "dispatch n ev rt io = Inr io'"
  shows "cbs_io P io'"
  using assms
  by (auto simp: dispatch_def dag_bind Let_def split: if_splits dest!: cbs_io_trigger_both [rotated 2])

lemma cbs_io_cancelEvent: "cbs_io P io \<Longrightarrow> cancelEvent fd event rt io = Inr (r, io') \<Longrightarrow> cbs_io P io'"
  by (erule cancelEvent_cases) (auto dest: cbs_io_trigger_on [rotated 2])

lemma cbs_io_cancelAll: "cbs_io P io \<Longrightarrow> cancelAll fd rt io = Inr (r, io') \<Longrightarrow> cbs_io P io'"
  by (erule cancelAll_cases) (auto dest: cbs_io_trigger_both [rotated 2])

lemma cbs_io_addEvent:
  fixes io :: "('a, 'b) IOManager"
  assumes "cbs_io P io" "addEvent fd event None rt True f io = Inr (r, io')"
  shows "cbs_io P io'"
proof -
  let ?io1 = "with_context (nat fd) io"
  have "pred_option P (ev_cb (fc_read c)) \<and> pred_option P (ev_cb (fc_write c))" if c: "c \<in> set (m_fdContexts ?io1)" for c
  proof (cases "c \<in> set (m_fdContexts io)")
    case False
    then obtain i where "c = FdContext_new i"
      using c by (auto simp: with_context_def contextResize_def split: if_splits dest: in_set_takeD)
    then show ?thesis by (simp add: FdContext_new_def EventContext_empty_def)
  qed (use assms(1) in \<open>simp add: cbs_io_def\<close>)
  moreover have "io_sched ?io1 = io_sched io" "io_timers ?io1 = io_timers io"
    by (simp_all add: with_context_def contextResize_def)
  ultimately have 1: "cbs_io P ?io1" using assms(1) by (simp add: cbs_io_def)
  show ?thesis
  proof (cases "rt = 0")
    case True
    then show ?thesis using assms(2) 1
      by (auto simp: addEvent_def with_context_def [symmetric] cbs_io_def put_context_def setEventContext_def Let_def dag_bind
          split: if_splits dest!: set_update_subset_insert [THEN subsetD])
  next
    case False
    with assms(2) 1 show ?thesis by (auto simp: addEvent_def with_context_def [symmetric] Let_def split: if_splits)
  qed
qed

section \<open>The system\<close>

text \<open>
  What a worker is doing: looking for a task, running a fiber, returning from a fiber that has
  registered itself for an event or with a timer and yields, or running a callback.
\<close>

datatype activity = Free | Runs nat | Yields nat | Calls "hook_cb callback"

record loop_system =
  lp_w :: hook_world
  lp_workers :: "int \<rightharpoonup> activity"
  lp_made :: "nat multiset"
  lp_done :: "nat multiset"

abbreviation lp_io :: "loop_system \<Rightarrow> hook_io" where
  "lp_io L \<equiv> w_io (lp_w L)"

definition with_io :: "hook_io \<Rightarrow> loop_system \<Rightarrow> loop_system" where
  "with_io io L = L\<lparr>lp_w := (lp_w L)\<lparr>w_io := io\<rparr>\<rparr>"

definition set_worker :: "int \<Rightarrow> activity \<Rightarrow> loop_system \<Rightarrow> loop_system" where
  "set_worker w a L = L\<lparr>lp_workers := (lp_workers L)(w \<mapsto> a)\<rparr>"

text \<open>The end of a round of the worker loop: \<open>m_activeThreadCount--\<close>.\<close>

definition end_task :: "int \<Rightarrow> loop_system \<Rightarrow> loop_system" where
  "end_task w L =
     set_worker w Free (with_io ((lp_io L)\<lparr>io_sched := (io_sched (lp_io L))
       \<lparr>m_activeThreadCount := m_activeThreadCount (io_sched (lp_io L)) - 1\<rparr>\<rparr>) L)"

text \<open>A fiber that a worker has taken runs once the worker that it yields from has let it go.\<close>

definition on_worker :: "int \<Rightarrow> nat \<Rightarrow> loop_system \<Rightarrow> bool" where
  "on_worker w f L \<longleftrightarrow> lp_workers L w = Some (Runs f) \<and> (\<forall>v. lp_workers L v \<noteq> Some (Yields f))"

fun start_activity :: "(nat, hook_cb callback) SchedulerTask \<Rightarrow> activity" where
  "start_activity t =
     (case task_fiber t of Some f \<Rightarrow> Runs f | None \<Rightarrow> (case task_cb t of Some cb \<Rightarrow> Calls cb | None \<Rightarrow> Free))"

text \<open>
  A call cancels only the timer that it has armed itself, which wakes nobody directly.
\<close>

definition call_timer :: "nat \<Rightarrow> hook_cb TimerManager \<Rightarrow> bool" where
  "call_timer t tm \<longleftrightarrow> tm_heap tm t \<noteq> None \<and> cb_weight cb_fibers (tm_heap tm) t = {#}"

definition timeout_fresh :: "nat \<Rightarrow> int \<Rightarrow> hook_io \<Rightarrow> bool" where
  "timeout_fresh timeout now io \<longleftrightarrow> timeout \<noteq> no_timeout \<longrightarrow> fresh_deadline timeout now (io_timers io)"

inductive loop_step :: "loop_system \<Rightarrow> loop_system \<Rightarrow> bool" where
  spawn: "f \<notin># lp_made L \<Longrightarrow>
    loop_step L ((with_io (io_schedule (SchedulerTask_fiber (Some f) thr) (lp_io L)) L)\<lparr>lp_made := add_mset f (lp_made L)\<rparr>)"
| take: "lp_workers L w = Some Free \<Longrightarrow> take_task w (io_sched (lp_io L)) = Inr (Some t, tk, s) \<Longrightarrow>
    loop_step L (set_worker w (start_activity t) (with_io ((lp_io L)\<lparr>io_sched := s\<rparr>) L))"
| blocks: "on_worker w f L \<Longrightarrow> timeout_fresh timeout now (lp_io L) \<Longrightarrow>
    do_io_block fd event timeout tinfo rt now (f, RUNNING) (lp_w L) = Inr (st, w') \<Longrightarrow>
    loop_step L (set_worker w (case st of Waiting _ \<Rightarrow> Yields f | Finished _ \<Rightarrow> Runs f) (L\<lparr>lp_w := w'\<rparr>))"
| sleeps: "on_worker w f L \<Longrightarrow> fresh_deadline ms now (io_timers (lp_io L)) \<Longrightarrow>
    sleep_for ms now f (lp_w L) = Inr (t, w') \<Longrightarrow> loop_step L (set_worker w (Yields f) (L\<lparr>lp_w := w'\<rparr>))"
| connects: "on_worker w f L \<Longrightarrow> timeout_fresh timeout_ms now (lp_io L) \<Longrightarrow>
    connect_begin fd timeout_ms tinfo r rt now (f, RUNNING) (lp_w L) = Inr (cs, w') \<Longrightarrow>
    loop_step L (set_worker w (case cs of Connecting _ \<Rightarrow> Yields f | _ \<Rightarrow> Runs f) (L\<lparr>lp_w := w'\<rparr>))"
| resumes: "on_worker w f L \<Longrightarrow> \<forall>t. timer = Some t \<longrightarrow> call_timer t (io_timers (lp_io L)) \<Longrightarrow>
    loop_step L (L\<lparr>lp_w := snd (do_io_resume timer tinfo (lp_w L))\<rparr>)"
| reconnects: "on_worker w f L \<Longrightarrow> \<forall>t. timer = Some t \<longrightarrow> call_timer t (io_timers (lp_io L)) \<Longrightarrow>
    loop_step L (L\<lparr>lp_w := snd (connect_resume timer tinfo (lp_w L))\<rparr>)"
| closes: "on_worker w f L \<Longrightarrow> hook_close fd rt (lp_w L) = Inr w' \<Longrightarrow> loop_step L (L\<lparr>lp_w := close_f fd w'\<rparr>)"
| other: "on_worker w f L \<Longrightarrow> w_io w' = lp_io L \<Longrightarrow> loop_step L (L\<lparr>lp_w := w'\<rparr>)"
| yields: "lp_workers L w = Some (Yields f) \<Longrightarrow> loop_step L (end_task w L)"
| returns: "on_worker w f L \<Longrightarrow> loop_step L (end_task w (L\<lparr>lp_done := add_mset f (lp_done L)\<rparr>))"
| calls: "lp_workers L w = Some (Calls cb) \<Longrightarrow> run_callback rt cb (lp_w L) = Inr w' \<Longrightarrow>
    loop_step L (end_task w (L\<lparr>lp_w := w'\<rparr>))"
| reports: "n < length (m_fdContexts (lp_io L)) \<Longrightarrow> dispatch n ev rt2 (lp_io L) = Inr io' \<Longrightarrow> loop_step L (with_io io' L)"
| expires: "idle_round now now' [] (lp_io L) = Some (Inr io') \<Longrightarrow> loop_step L (with_io io' L)"
| stops: "IOManager_stop now is_this (lp_io L) = Inr (io', x) \<Longrightarrow> loop_step L (with_io io' L)"

text \<open>A new manager with a finite set of workers.\<close>

inductive loop_reach :: "loop_system \<Rightarrow> bool" where
  loop_start: "Scheduler_new False tid threads use_caller name = Inr s \<Longrightarrow> IOManager_new now s ids = Inr (w_io w) \<Longrightarrow>
    finite W \<Longrightarrow>
    loop_reach \<lparr>lp_w = w, lp_workers = (\<lambda>v. if v \<in> W then Some Free else None), lp_made = {#}, lp_done = {#}\<rparr>"
| loop_next: "loop_reach L \<Longrightarrow> loop_step L L' \<Longrightarrow> loop_reach L'"

section \<open>The invariant of the system\<close>

fun activity_fibers :: "activity \<Rightarrow> nat multiset" where
  "activity_fibers (Runs f) = {#f#}"
| "activity_fibers (Calls cb) = cb_fibers cb"
| "activity_fibers _ = {#}"

definition running :: "(int \<rightharpoonup> activity) \<Rightarrow> nat multiset" where
  "running ws = (\<Sum>w \<in> dom ws. activity_fibers (the (ws w)))"

definition busy :: "(int \<rightharpoonup> activity) \<Rightarrow> nat" where
  "busy ws = (\<Sum>w \<in> dom ws. of_bool (the (ws w) \<noteq> Free))"

text \<open>Only the timeouts of calls depend on a condition; a fiber is woken in any case.\<close>

fun sound_cb :: "hook_cb callback \<Rightarrow> bool" where
  "sound_cb (Plain h) = True"
| "sound_cb (Bound_OnTimer _ h) = (hook_fibers h = {#})"

definition io_ok :: "hook_io \<Rightarrow> bool" where
  "io_ok io \<longleftrightarrow> io_all_inv io \<and> cbs_io sound_cb io \<and> armed_all (io_timers io)"

definition each_once :: "'a multiset \<Rightarrow> bool" where
  "each_once M \<longleftrightarrow> (\<forall>x. count M x \<le> 1)"

lemma each_once_add: "each_once M \<Longrightarrow> x \<notin># M \<Longrightarrow> each_once (add_mset x M)"
  by (simp add: each_once_def not_in_iff)

definition loop_inv :: "loop_system \<Rightarrow> bool" where
  "loop_inv L \<longleftrightarrow> io_ok (lp_io L) \<and> finite (dom (lp_workers L)) \<and>
     lp_made L = lp_done L + held (lp_io L) + running (lp_workers L) \<and>
     m_activeThreadCount (io_sched (lp_io L)) = busy (lp_workers L) \<and>
     each_once (lp_made L) \<and>
     (\<forall>w cb. lp_workers L w = Some (Calls cb) \<longrightarrow> sound_cb cb)"

lemma running_update: "finite (dom ws) \<Longrightarrow> ws w = Some a \<Longrightarrow> running (ws(w \<mapsto> b)) + activity_fibers a = running ws + activity_fibers b"
  unfolding running_def by (rule sum_dom_update)

lemma busy_update:
  "finite (dom ws) \<Longrightarrow> ws w = Some a \<Longrightarrow> busy (ws(w \<mapsto> b)) + of_bool (a \<noteq> Free) = busy ws + of_bool (b \<noteq> Free)"
  unfolding busy_def by (rule sum_dom_update [where g = "\<lambda>a. of_bool (a \<noteq> Free)"])

section \<open>Every operation moves fibers between the places\<close>

abbreviation active :: "('fiber, 'f) IOManager \<Rightarrow> nat" where
  "active io \<equiv> m_activeThreadCount (io_sched io)"

lemma active_schedule [simp]: "active (io_schedule t io) = active io"
  by (simp add: io_schedule_def schedulerLock_def Let_def)

lemma active_trigger_if: "trigger_if b n event io = Inr io' \<Longrightarrow> active io' = active io"
  by (auto simp: trigger_if_def trigger_on_def put_context_def dag_bind split: if_splits)

lemma active_trigger_on: "trigger_on n event io = Inr io' \<Longrightarrow> active io' = active io"
  using active_trigger_if [of True] by (simp add: trigger_if_def)

lemma active_event_ops:
  "addEvent fd event cb rt b f io = Inr (r, io') \<Longrightarrow> active io' = active io"
  "cancelEvent fd event rt io = Inr (x, io') \<Longrightarrow> active io' = active io"
  "cancelAll fd rt io = Inr (x, io') \<Longrightarrow> active io' = active io"
  "dispatch n ev rt io = Inr io' \<Longrightarrow> active io' = active io"
  by (auto simp: addEvent_def dispatch_def contextResize_def Let_def dag_bind put_context_def split: if_splits
      elim!: cancelEvent_cases cancelAll_cases dest!: active_trigger_if active_trigger_on)

text \<open>An operation of the manager that adds the fibers \<open>F\<close> to those it holds.\<close>

definition io_moves :: "nat multiset \<Rightarrow> hook_io \<Rightarrow> hook_io \<Rightarrow> bool" where
  "io_moves F io io' \<longleftrightarrow> (io_ok io \<longrightarrow> io_ok io' \<and> held io' = held io + F \<and> active io' = active io)"

lemma io_moves_refl: "io_moves {#} io io"
  by (simp add: io_moves_def)

lemma io_moves_trans: "io_moves F io io1 \<Longrightarrow> io_moves G io1 io2 \<Longrightarrow> io_moves (F + G) io io2"
  by (auto simp: io_moves_def ac_simps)

lemma moves_cancelEvent: "cancelEvent fd event rt io = Inr (r, io') \<Longrightarrow> io_moves {#} io io'"
  by (auto simp: io_moves_def io_ok_def io_all_inv_def event_ops_timers cancelEvent_inv held_cancelEvent cbs_io_cancelEvent
      active_event_ops)

lemma moves_cancelAll: "cancelAll fd rt io = Inr (r, io') \<Longrightarrow> io_moves {#} io io'"
  by (auto simp: io_moves_def io_ok_def io_all_inv_def event_ops_timers cancelAll_inv held_cancelAll cbs_io_cancelAll
      active_event_ops)

lemma moves_dispatch: "n < length (m_fdContexts io) \<Longrightarrow> dispatch n ev rt io = Inr io' \<Longrightarrow> io_moves {#} io io'"
  by (auto simp: io_moves_def io_ok_def io_all_inv_def event_ops_timers dispatch_inv held_dispatch cbs_io_dispatch
      active_event_ops)

lemma moves_addEvent:
  "addEvent fd event None rt True (f, st) io = Inr (r, io') \<Longrightarrow> io_moves (if r = 0 then {#f#} else {#}) io io'"
  by (auto simp: io_moves_def io_ok_def io_all_inv_def event_ops_timers addEvent_inv held_addEvent cbs_io_addEvent
      active_event_ops)

lemma moves_schedule:
  assumes "has_work t" "pred_option sound_cb (task_cb t)"
  shows "io_moves (task_fibers t) io (io_schedule t io)"
  using assms by (simp add: io_moves_def io_ok_def io_all_inv_def io_schedule_inv held_schedule cbs_io_schedule)

text \<open>The invariants of the timers, and an operation on them that adds the fibers \<open>F\<close>.\<close>

definition timers_sound :: "hook_cb TimerManager \<Rightarrow> bool" where
  "timers_sound tm \<longleftrightarrow> tm_inv tm \<and> cbs_all sound_cb tm \<and> armed_all tm"

lemma io_ok_timers: "io_ok io \<Longrightarrow> timers_sound (io_timers io)"
  by (simp add: io_ok_def io_all_inv_def cbs_io_def timers_sound_def)

lemma io_ok_set_timers: "io_ok io \<Longrightarrow> timers_sound tm \<Longrightarrow> io_ok (io\<lparr>io_timers := tm\<rparr>)"
  by (simp add: io_ok_def io_all_inv_def cbs_io_def timers_sound_def)

lemma moves_timers:
  assumes "timers_sound (io_timers io) \<Longrightarrow> timers_sound tm \<and> armed_weight cb_fibers tm = sleeping io + F"
  shows "io_moves F io (io\<lparr>io_timers := tm\<rparr>)"
  using assms held_timers [of tm io] io_ok_timers [of io] io_ok_set_timers [of io tm]
  by (auto simp: io_moves_def ac_simps)

lemma task_cb_of: "task_cb (SchedulerTask_cb cb thr) = cb"
  by (simp add: SchedulerTask_cb_def)

lemma moves_schedule_all:
  "\<forall>f. Some f \<in> set cbs \<longrightarrow> sound_cb f \<Longrightarrow>
   io_moves (fired_weight cb_fibers cbs) io (fold (\<lambda>cb. io_schedule (SchedulerTask_cb cb (- 1))) cbs io)"
proof (induction cbs arbitrary: io)
  case (Cons cb cbs)
  have "io_moves (case_option {#} cb_fibers cb) io (io_schedule (SchedulerTask_cb cb (- 1)) io)"
    using Cons.prems
    by (cases cb) (auto simp: io_moves_def io_ok_def io_all_inv_def io_schedule_inv held_cb task_cb_of intro!: cbs_io_schedule)
  from io_moves_trans [OF this Cons.IH] Cons.prems show ?case by simp
qed (simp add: io_moves_refl)

lemma moves_expire:
  assumes "idle_round now now' [] io = Some (Inr io')"
  shows "io_moves {#} io io'"
proof -
  obtain cbs tm where l: "listExpiredCb now now' (io_timers io) = Some (cbs, tm)"
    and io': "io' = fold (\<lambda>cb. io_schedule (SchedulerTask_cb cb (- 1))) cbs (io\<lparr>io_timers := tm\<rparr>)"
    using assms by (auto simp: idle_round_def)
  show ?thesis
  proof (cases "io_ok io")
    case True
    then have snd: "tm_inv (io_timers io)" "cbs_all sound_cb (io_timers io)" "armed_all (io_timers io)"
      using io_ok_timers by (auto simp: timers_sound_def)
    note tm = listExpiredCb_inv [OF l snd(1)] listExpiredCb_cbs [OF l snd(1,2)]
      listExpiredCb_weight(1) [OF l snd(1,3), where g = cb_fibers] listExpiredCb_weight(2) [OF l snd(1,3)]
    have "timers_sound tm" using tm by (simp add: timers_sound_def)
    then have ok: "io_ok (io\<lparr>io_timers := tm\<rparr>)" by (rule io_ok_set_timers [OF True])
    have "held (io\<lparr>io_timers := tm\<rparr>) + fired_weight cb_fibers cbs = held io"
      using held_timers [of tm io] tm(3) by (simp add: sleeping_def ac_simps)
    then show ?thesis
      using moves_schedule_all [of cbs "io\<lparr>io_timers := tm\<rparr>"] tm(2) ok by (simp add: io_moves_def io')
  qed (simp add: io_moves_def)
qed

text \<open>The hooked calls.\<close>

lemma moves_add_timer:
  assumes "addTimer ms cb False now (io_timers io) = (t, tm, front)" "fresh_deadline ms now (io_timers io)" "sound_cb cb"
  shows "io_moves (cb_fibers cb) io (io\<lparr>io_timers := tm\<rparr>)"
proof (rule moves_timers)
  assume "timers_sound (io_timers io)"
  then have tm: "tm_inv (io_timers io)" "cbs_all sound_cb (io_timers io)" "armed_all (io_timers io)"
    by (simp_all add: timers_sound_def)
  show "timers_sound tm \<and> armed_weight cb_fibers tm = sleeping io + cb_fibers cb"
    using addTimer_armed [OF tm(1) assms(2,1)] cbs_all_addTimer [OF tm(2) assms(3,1)] tm(3)
      addTimer_weight(1) [OF tm(1) assms(2,1), where g = cb_fibers] addTimer_weight(2) [OF tm(1) assms(2,1)]
    by (simp add: timers_sound_def sleeping_def)
qed

lemma call_timer_new: "addTimer ms cb r now tm = (t, tm', front) \<Longrightarrow> cb_fibers cb = {#} \<Longrightarrow> call_timer t tm'"
  by (drule addTimer_heap) (simp add: call_timer_def cb_weight_def Timer_new_def)

lemma moves_condition_timer:
  assumes "condition_timer timeout fd event tinfo now w = (timer, w')" "timeout_fresh timeout now (w_io w)"
  shows "io_moves {#} (w_io w) (w_io w') \<and> (\<forall>t. timer = Some t \<longrightarrow> call_timer t (io_timers (w_io w')))"
proof (cases "timeout = no_timeout")
  case False
  obtain t tm front where a: "addTimer timeout (Bound_OnTimer tinfo (Timeout_Cb tinfo fd event)) False now (io_timers (w_io w)) = (t, tm, front)"
    by (metis prod_cases3)
  then have w': "w' = set_timers tm w" "timer = Some t"
    using assms(1) False by (simp_all add: condition_timer_def addConditionTimer_def)
  from moves_add_timer [OF a] assms(2) False have "io_moves {#} (w_io w) ((w_io w)\<lparr>io_timers := tm\<rparr>)"
    by (simp add: timeout_fresh_def)
  then show ?thesis using w' call_timer_new [OF a] by (simp add: set_timers_def)
qed (use assms in \<open>auto simp: condition_timer_def io_moves_refl\<close>)

lemma moves_cancel_timer:
  assumes "\<forall>t. timer = Some t \<longrightarrow> call_timer t (io_timers (w_io w))"
  shows "io_moves {#} (w_io w) (w_io (cancel_timer timer w))"
proof (cases timer)
  case (Some t)
  let ?tm = "io_timers (w_io w)"
  from Some assms obtain x where x: "tm_heap ?tm t = Some x" "cb_weight cb_fibers (tm_heap ?tm) t = {#}"
    by (auto simp: call_timer_def)
  have "io_moves {#} (w_io w) ((w_io w)\<lparr>io_timers := snd (cancel t ?tm)\<rparr>)"
    using tm_inv_cancel [OF _ x(1)] cbs_all_cancel [OF _ x(1), of sound_cb] cancel_weight(1) [OF _ _ x(1), where g = cb_fibers]
      cancel_weight(2) [OF _ _ x(1)] x(2)
    by (intro moves_timers) (auto simp: timers_sound_def sleeping_def)
  then show ?thesis by (simp add: Some cancel_timer_def set_timers_def)
qed (simp add: cancel_timer_def io_moves_refl)

lemma moves_sleep:
  assumes "sleep_for ms now f w = Inr (t, w')" "fresh_deadline ms now (io_timers (w_io w))"
  shows "io_moves {#f#} (w_io w) (w_io w')"
proof -
  obtain tm front where a: "addTimer ms (Plain (Wake_Fiber f)) False now (io_timers (w_io w)) = (t, tm, front)" "w' = set_timers tm w"
    using assms(1) by (auto simp: sleep_for_def split: if_splits prod.splits)
  from moves_add_timer [OF a(1) assms(2)] show ?thesis by (simp add: a(2) set_timers_def)
qed

text \<open>The common part of \<open>do_io\<close> and \<open>connect_with_timeout\<close>: arm a timer and add the event.\<close>

lemma moves_register:
  assumes c: "condition_timer timeout fd event tinfo now w = (timer, w1)" and fresh: "timeout_fresh timeout now (w_io w)"
    and a: "addEvent fd event None rt True (f, st) (w_io w1) = Inr (r, io)"
  shows "io_moves (if r = 0 then {#f#} else {#}) (w_io w) io \<and>
    (r \<noteq> 0 \<longrightarrow> io_moves {#} (w_io w) (w_io (cancel_timer timer (w1\<lparr>w_io := io\<rparr>))))"
proof -
  note m = moves_condition_timer [OF c fresh]
  have "io_moves ({#} + (if r = 0 then {#f#} else {#})) (w_io w) io"
    using m moves_addEvent [OF a] by (blast intro: io_moves_trans)
  moreover have "io_timers io = io_timers (w_io w1)" by (rule event_ops_timers(1) [OF a])
  then have "io_moves {#} io (w_io (cancel_timer timer (w1\<lparr>w_io := io\<rparr>)))"
    using moves_cancel_timer [of timer "w1\<lparr>w_io := io\<rparr>"] m by simp
  ultimately show ?thesis using io_moves_trans [of "{#}" "w_io w" io "{#}"] by auto
qed

lemma moves_do_io_block:
  assumes "do_io_block fd event timeout tinfo rt now (f, RUNNING) w = Inr (st, w')" "timeout_fresh timeout now (w_io w)"
  shows "io_moves (case st of Waiting _ \<Rightarrow> {#f#} | Finished _ \<Rightarrow> {#}) (w_io w) (w_io w')"
proof -
  obtain timer w1 where c: "condition_timer timeout fd event tinfo now w = (timer, w1)" by fastforce
  obtain r io where a: "addEvent fd event None rt True (f, RUNNING) (w_io w1) = Inr (r, io)"
    using assms(1) c by (auto simp: do_io_block_def dag_bind split: if_splits)
  with assms(1) c moves_register [OF c assms(2) a] show ?thesis by (auto simp: do_io_block_def Let_def split: if_splits)
qed

lemma moves_connect_begin:
  assumes "connect_begin fd timeout tinfo res rt now (f, RUNNING) w = Inr (st, w')" "timeout_fresh timeout now (w_io w)"
  shows "io_moves (case st of Connecting _ \<Rightarrow> {#f#} | _ \<Rightarrow> {#}) (w_io w) (w_io w')"
proof -
  let ?w0 = "new_tinfo tinfo (w\<lparr>w_errno := EINPROGRESS\<rparr>)"
  show ?thesis
  proof (cases "res = (- 1, EINPROGRESS)")
    case True
    obtain timer w1 where c: "condition_timer timeout fd WRITE tinfo now ?w0 = (timer, w1)" by fastforce
    obtain r io where a: "addEvent fd WRITE None rt True (f, RUNNING) (w_io w1) = Inr (r, io)"
      using assms(1) c by (auto simp: True connect_begin_def dag_bind split: if_splits)
    have "w_io ?w0 = w_io w" by (simp add: new_tinfo_def)
    with assms c a moves_register [OF c _ a] show ?thesis
      by (auto simp: True connect_begin_def Let_def split: if_splits)
  next
    case False
    with assms show ?thesis
      by (cases res) (auto simp: connect_begin_def Let_def io_moves_refl split: if_splits)
  qed
qed

lemma moves_hook_close: "hook_close fd rt w = Inr w' \<Longrightarrow> io_moves {#} (w_io w) (w_io w')"
  by (auto simp: hook_close_def dag_bind io_moves_refl split: if_splits option.splits intro: moves_cancelAll)

lemma moves_resume:
  assumes "\<forall>t. timer = Some t \<longrightarrow> call_timer t (io_timers (w_io w))"
  shows "io_moves {#} (w_io w) (w_io (snd (do_io_resume timer tinfo w)))"
    "io_moves {#} (w_io w) (w_io (snd (connect_resume timer tinfo w)))"
  using moves_cancel_timer [OF assms] by (simp_all add: do_io_resume_def connect_resume_def Let_def split: option.splits)

lemma moves_hook_cb: "run_hook_cb rt h w = Inr w' \<Longrightarrow> io_moves (hook_fibers h) (w_io w) (w_io w')"
proof (cases h)
  case (Wake_Fiber f)
  assume "run_hook_cb rt h w = Inr w'"
  then show ?thesis using moves_schedule [of "SchedulerTask_fiber (Some f) (- 1)" "w_io w"]
    by (auto simp: Wake_Fiber SchedulerTask_fiber_def has_work_def task_fibers_def)
qed (auto simp: dag_bind io_moves_refl split: option.splits if_splits intro: moves_cancelEvent)

lemma moves_callback:
  assumes "run_callback rt cb w = Inr w'" "sound_cb cb"
  shows "io_moves (cb_fibers cb) (w_io w) (w_io w')"
  using assms by (cases cb) (auto simp: run_callback_def dag_bind io_moves_refl split: if_splits
      dest!: moves_hook_cb simp del: run_hook_cb.simps)

lemma moves_stop:
  assumes "IOManager_stop now is_this io = Inr (io', x)"
  shows "io_moves {#} io io'"
proof -
  from assms obtain ms tm b where tm: "getNextTimer now (io_timers io) = (ms, tm)"
    and io': "io' = io\<lparr>io_timers := tm, io_sched := (io_sched io)\<lparr>m_stopping := b\<rparr>\<rparr>" by (rule IOManager_stop_cases)
  have "tm = (io_timers io)\<lparr>m_tickled := False\<rparr>" using getNextTimer_timers [of now "io_timers io"] tm by simp
  then have "armed_weight cb_fibers (io_timers io') = armed_weight cb_fibers (io_timers io)" "cbs_io sound_cb io' = cbs_io sound_cb io"
    "armed_all (io_timers io') = armed_all (io_timers io)"
    by (simp_all add: io' cbs_io_def cbs_all_def)
  moreover have "io_all_inv io \<Longrightarrow> io_all_inv io'" using io_step_inv [OF io_stop [OF assms]] .
  moreover have "held io' = held io" by (rule held_cong) (use calculation(1) in \<open>simp_all add: io'\<close>)
  ultimately show ?thesis by (simp add: io_moves_def io_ok_def) (simp add: io')
qed

section \<open>Every step keeps the invariant\<close>

lemma loop_inv_world:
  assumes "loop_inv L" "io_moves {#} (lp_io L) (w_io w')"
  shows "loop_inv (L\<lparr>lp_w := w'\<rparr>)"
  using assms by (auto simp: loop_inv_def io_moves_def)

lemma loop_inv_io: "loop_inv L \<Longrightarrow> io_moves {#} (lp_io L) io' \<Longrightarrow> loop_inv (with_io io' L)"
  by (simp add: loop_inv_world with_io_def)

text \<open>A fiber goes from its worker into the manager, or stays.\<close>

lemma loop_inv_register:
  assumes inv: "loop_inv L" and w: "on_worker w f L" and m: "io_moves (if b then {#f#} else {#}) (lp_io L) (w_io w')"
  shows "loop_inv (set_worker w (if b then Yields f else Runs f) (L\<lparr>lp_w := w'\<rparr>))"
proof -
  let ?ws = "lp_workers L" and ?a = "if b then Yields f else Runs f"
  have ws: "finite (dom ?ws)" "?ws w = Some (Runs f)" using inv w by (auto simp: loop_inv_def on_worker_def)
  have "busy (?ws(w \<mapsto> ?a)) = busy ?ws" using busy_update [OF ws, of ?a] by (auto split: if_splits)
  moreover have "running (?ws(w \<mapsto> ?a)) + (if b then {#f#} else {#}) = running ?ws"
    using running_update [OF ws, of ?a] by (auto split: if_splits)
  then have "held (w_io w') + running (?ws(w \<mapsto> ?a)) = held (lp_io L) + running ?ws"
    using inv m by (auto simp: io_moves_def loop_inv_def)
  ultimately show ?thesis using inv m ws(1)
    by (auto simp: loop_inv_def io_moves_def set_worker_def add.assoc)
qed

text \<open>The end of a task whose fiber has gone elsewhere.\<close>

lemma loop_inv_end:
  assumes inv: "loop_inv L" and w: "lp_workers L w = Some a" "a \<noteq> Free" "activity_fibers a = F"
  shows "loop_inv (end_task w (L\<lparr>lp_done := lp_done L + F\<rparr>))"
proof -
  let ?ws = "lp_workers L"
  have fin: "finite (dom ?ws)" using inv by (simp add: loop_inv_def)
  have "Suc (busy (?ws(w \<mapsto> Free))) = busy ?ws" using busy_update [OF fin w(1), of Free] w(2) by simp
  moreover have "running (?ws(w \<mapsto> Free)) + F = running ?ws" using running_update [OF fin w(1), of Free] w(3) by simp
  moreover let ?io = "(lp_io L)\<lparr>io_sched := (io_sched (lp_io L))\<lparr>m_activeThreadCount := active (lp_io L) - 1\<rparr>\<rparr>"
  have "held ?io = held (lp_io L)" by (rule held_cong) simp_all
  moreover have "io_ok ?io" using inv io_inv_sched [of "lp_io L" "io_sched ?io"]
    by (auto simp: loop_inv_def io_ok_def io_all_inv_def cbs_io_def)
  ultimately show ?thesis using inv
    by (auto simp: loop_inv_def end_task_def set_worker_def with_io_def ac_simps)
qed

lemma loop_inv_take:
  assumes inv: "loop_inv L" and w: "lp_workers L w = Some Free"
    and t: "take_task w (io_sched (lp_io L)) = Inr (Some t, tk, s)"
  shows "loop_inv (set_worker w (start_activity t) (with_io ((lp_io L)\<lparr>io_sched := s\<rparr>) L))"
proof -
  let ?ws = "lp_workers L" and ?a = "start_activity t" and ?io = "(lp_io L)\<lparr>io_sched := s\<rparr>"
  have ok: "io_inv (lp_io L)" "cbs_io sound_cb (lp_io L)" "finite (dom ?ws)"
    using inv by (auto simp: loop_inv_def io_ok_def io_all_inv_def)
  note work = io_inv_work [OF ok(1)]
  note T = take_task_Some [OF work t]
  have "t \<in># mset (m_tasks (io_sched (lp_io L)))" using T by simp
  then have t_in: "t \<in> set (m_tasks (io_sched (lp_io L)))" by simp
  then have hw: "has_work t" and cb: "pred_option sound_cb (task_cb t)" using work ok(2) by (auto simp: cbs_io_def)
  have a: "?a \<noteq> Free" "activity_fibers ?a = task_fibers t" "\<And>cb. ?a = Calls cb \<Longrightarrow> sound_cb cb"
    using hw cb by (auto simp: has_work_def task_fibers_def split: option.splits)
  have "sum_list (map task_fibers (m_tasks (io_sched (lp_io L)))) = task_fibers t + sum_list (map task_fibers (m_tasks s))"
    using T by (metis image_mset_add_mset mset_map sum_mset.add_mset sum_mset_sum_list)
  then have "held (lp_io L) = held ?io + task_fibers t"
    by (simp add: held_defs ac_simps)
  moreover have "running (?ws(w \<mapsto> ?a)) = running ?ws + task_fibers t"
    using running_update [OF ok(3) w, of ?a] a(2) by simp
  moreover have "busy (?ws(w \<mapsto> ?a)) = Suc (busy ?ws)" using busy_update [OF ok(3) w, of ?a] a(1) by simp
  moreover have "io_ok ?io"
    using inv T io_inv_sched [OF ok(1), of s] by (auto simp: loop_inv_def io_ok_def io_all_inv_def cbs_io_def)
  ultimately show ?thesis using inv T a(3)
    by (auto simp: loop_inv_def set_worker_def with_io_def ac_simps simp del: start_activity.simps)
qed

lemma loop_inv_spawn:
  assumes inv: "loop_inv L" and f: "f \<notin># lp_made L"
  shows "loop_inv ((with_io (io_schedule (SchedulerTask_fiber (Some f) thr) (lp_io L)) L)\<lparr>lp_made := add_mset f (lp_made L)\<rparr>)"
proof -
  let ?t = "SchedulerTask_fiber (Some f) thr :: (nat, hook_cb callback) SchedulerTask"
  have "task_fibers ?t = {#f#}" "has_work ?t" "task_cb ?t = None"
    by (simp_all add: task_fibers_def has_work_def SchedulerTask_fiber_def)
  then have "io_moves {#f#} (lp_io L) (io_schedule ?t (lp_io L))" using moves_schedule [of ?t "lp_io L"] by simp
  with inv f show ?thesis by (auto simp: loop_inv_def with_io_def io_moves_def intro!: each_once_add)
qed

text \<open>A callback moves its fiber from the worker to the queue.\<close>

lemma loop_inv_calls:
  assumes inv: "loop_inv L" and w: "lp_workers L w = Some (Calls cb)" and r: "run_callback rt cb (lp_w L) = Inr w'"
  shows "loop_inv (end_task w (L\<lparr>lp_w := w'\<rparr>))"
proof -
  let ?ws = "lp_workers L" and ?L = "L\<lparr>lp_w := w', lp_workers := (lp_workers L)(w \<mapsto> Yields 0)\<rparr>"
  have fin: "finite (dom ?ws)" and cb: "sound_cb cb" using inv w by (auto simp: loop_inv_def)
  have "running (?ws(w \<mapsto> Yields 0)) + cb_fibers cb = running ?ws" "busy (?ws(w \<mapsto> Yields 0)) = busy ?ws"
    using running_update [OF fin w, of "Yields 0"] busy_update [OF fin w, of "Yields 0"] by simp_all
  moreover have "io_moves (cb_fibers cb) (lp_io L) (w_io w')" by (rule moves_callback [OF r cb])
  ultimately have "loop_inv ?L"
    using inv fin by (auto simp: loop_inv_def io_moves_def ac_simps split: if_splits)
  from loop_inv_end [OF this, of w "Yields 0" "{#}"] show ?thesis
    by (simp add: end_task_def set_worker_def with_io_def)
qed

lemma loop_step_inv: "loop_step L L' \<Longrightarrow> loop_inv L \<Longrightarrow> loop_inv L'"
proof (induction rule: loop_step.induct)
  case (blocks w f L timeout now fd event tinfo rt st w')
  from loop_inv_register [OF blocks(4,1), of "case st of Waiting _ \<Rightarrow> True | Finished _ \<Rightarrow> False" w'] moves_do_io_block [OF blocks(3,2)]
  show ?case by (cases st) simp_all
next
  case (sleeps w f L ms now t w')
  from loop_inv_register [OF sleeps(4,1), of True w'] moves_sleep [OF sleeps(3,2)] show ?case by simp
next
  case (connects w f L timeout_ms now fd tinfo r rt cs w')
  from loop_inv_register [OF connects(4,1), of "case cs of Connecting _ \<Rightarrow> True | _ \<Rightarrow> False" w'] moves_connect_begin [OF connects(3,2)]
  show ?case by (cases cs) simp_all
next
  case (closes w f L fd rt w')
  then show ?case using loop_inv_world [of L "close_f fd w'"] moves_hook_close by (simp add: close_f_def)
next
  case (other w f L w')
  then show ?case by (simp add: loop_inv_world io_moves_refl)
next
  case (yields L w f)
  then show ?case using loop_inv_end [of L w "Yields f" "{#}"] by simp
next
  case (returns w f L)
  then show ?case using loop_inv_end [of L w "Runs f" "{#f#}"] by (simp add: on_worker_def)
next
  case (calls L w cb rt w')
  then show ?case by (blast intro: loop_inv_calls)
qed (auto intro: loop_inv_spawn loop_inv_take loop_inv_io loop_inv_world moves_dispatch moves_expire moves_resume moves_stop
    simp del: start_activity.simps)

lemma loop_reach_inv: "loop_reach L \<Longrightarrow> loop_inv L"
proof (induction rule: loop_reach.induct)
  case (loop_start tid threads use_caller name s now ids w W)
  have io: "m_fdContexts (w_io w) = map FdContext_new [0..<32]" "io_timers (w_io w) = TimerManager_new now"
    "m_tasks (io_sched (w_io w)) = []" "active (w_io w) = 0"
    using loop_start(1,2) by (auto simp: IOManager_new_def contextResize_def start_def Scheduler_new_def Let_def dag_bind split: if_splits)
  have ctx: "ctx_fibers (FdContext_new i :: (nat, hook_cb) FdContext) = {#}" for i
    by (simp add: ctx_fibers_def event_fibers_def wants_def FdContext_new_ok)
  have "held (w_io w) = {#}" by (simp add: held_defs io ctx o_def armed_all_new)
  moreover have "cbs_io sound_cb (w_io w)" "armed_all (io_timers (w_io w))"
    by (simp_all add: cbs_io_def io cbs_all_def armed_all_new) (simp_all add: TimerManager_new_def FdContext_new_def EventContext_empty_def)
  moreover have "dom (\<lambda>v. if v \<in> W then Some Free else None) = W" by (auto split: if_splits)
  ultimately show ?case using loop_start IOManager_new_inv [OF loop_start(1,2)] io(4)
    by (auto simp: loop_inv_def io_ok_def running_def busy_def each_once_def split: if_splits)
qed (rule loop_step_inv)

section \<open>Properties\<close>

lemma in_sum_list: "x \<in># sum_list (Ms :: 'a multiset list) \<longleftrightarrow> (\<exists>M \<in> set Ms. x \<in># M)"
  by (induction Ms) auto

lemma count_running:
  assumes "finite (dom ws)" "ws v = Some (Runs f)" "ws w = Some (Runs f)" "v \<noteq> w"
  shows "2 \<le> count (running ws) f"
proof -
  have fin: "finite (dom (ws(v \<mapsto> Free)))" "(ws(v \<mapsto> Free)) w = Some (Runs f)" using assms by auto
  have "running ws = running (ws(v \<mapsto> Free)) + {#f#}" using running_update [OF assms(1,2), of Free] by simp
  moreover have "running (ws(v \<mapsto> Free)) = running (ws(v \<mapsto> Free, w \<mapsto> Free)) + {#f#}"
    using running_update [OF fin, of Free] by (simp del: fun_upd_apply)
  ultimately show ?thesis by simp
qed

text \<open>A loop with two workers after one fiber was scheduled, for the examples.\<close>

definition loop_example :: loop_system where
  "loop_example =
     \<lparr>lp_w = hook_example\<lparr>w_io := io_schedule (SchedulerTask_fiber (Some 3) (- 1)) io_fresh\<rparr>,
      lp_workers = (\<lambda>v. if v \<in> {7, 8} then Some Free else None), lp_made = {#3#}, lp_done = {#}\<rparr>"

lemma loop_example_reach: "loop_reach loop_example"
proof -
  have io: "w_io hook_example = io_fresh" by (simp add: hook_example_def)
  obtain s where "Scheduler_new False 1 2 False ''io'' = Inr s" "IOManager_new 0 s [7, 8] = Inr (w_io hook_example)"
    using io_fresh_new unfolding io by blast
  from loop_next [OF loop_start [OF this, of "{7, 8}"] spawn [of 3 _ "- 1"]] show ?thesis
    by (simp add: loop_example_def with_io_def io)
qed

text \<open>The example goes on: a worker takes the fiber, which returns, and the loop is told to stop.\<close>

definition loop_running :: loop_system where
  "loop_running =
     \<lparr>lp_w = hook_example\<lparr>w_io := io_fresh\<lparr>io_sched := (io_sched io_fresh)\<lparr>m_activeThreadCount := 1\<rparr>\<rparr>\<rparr>,
      lp_workers = (\<lambda>v. if v \<in> {7, 8} then Some Free else None)(7 \<mapsto> Runs 3), lp_made = {#3#}, lp_done = {#}\<rparr>"

definition loop_ended :: loop_system where
  "loop_ended =
     \<lparr>lp_w = hook_example\<lparr>w_io := io_fresh\<lparr>io_sched := (io_sched io_fresh)\<lparr>m_stopping := True\<rparr>\<rparr>\<rparr>,
      lp_workers = (\<lambda>v. if v \<in> {7, 8} then Some Free else None), lp_made = {#3#}, lp_done = {#3#}\<rparr>"

lemma loop_running_reach: "loop_reach loop_running"
proof -
  let ?t = "SchedulerTask_fiber (Some 3) (- 1) :: (nat, hook_cb callback) SchedulerTask"
  let ?s = "(io_sched (io_fresh :: hook_io))\<lparr>m_activeThreadCount := 1\<rparr>"
  have t: "start_activity ?t = Runs 3" "has_work ?t" by (simp_all add: SchedulerTask_fiber_def has_work_def)
  have "take_task 7 (io_sched (lp_io loop_example)) = Inr (Some ?t, False, ?s)"
    by (simp add: loop_example_def io_schedule_def schedulerLock_def io_fresh_def take_task_def has_work_def SchedulerTask_fiber_def)
  from loop_next [OF loop_example_reach take [OF _ this]] t show ?thesis
    by (simp add: loop_example_def loop_running_def set_worker_def with_io_def io_schedule_def del: start_activity.simps)
qed

lemma loop_running_on: "on_worker 7 3 loop_running"
  by (simp add: on_worker_def loop_running_def)

lemma loop_ended_reach: "loop_reach loop_ended"
proof -
  let ?L = "end_task 7 (loop_running\<lparr>lp_done := {#3#}\<rparr>)"
  have 2: "loop_reach ?L" using loop_next [OF loop_running_reach returns [OF loop_running_on]] by (simp add: loop_running_def)
  have "IOManager_stop 0 False (lp_io ?L) = Inr ((lp_io ?L)\<lparr>io_sched := (io_sched (lp_io ?L))\<lparr>m_stopping := True\<rparr>\<rparr>, 2, False)"
    by (simp add: IOManager_stop_def io_stopping_def request_stop_def stopping_def end_task_def set_worker_def with_io_def loop_running_def
        io_fresh_def getNextTimer_def TimerManager_new_def)
  from loop_next [OF 2 stops [OF this]] show ?thesis
    by (simp add: loop_ended_def end_task_def set_worker_def with_io_def loop_running_def io_fresh_def fun_upd_idem)
qed

text \<open>What the invariant says of the places of the fibers.\<close>

lemma loop_inv_places:
  assumes inv: "loop_inv L"
  shows "lp_made L = lp_done L + queued (lp_io L) + suspended (lp_io L) + sleeping (lp_io L) +
      running (lp_workers L) \<and>
    (\<forall>f. count (lp_made L) f \<le> 1) \<and>
    (\<forall>v w f. lp_workers L v = Some (Runs f) \<and> lp_workers L w = Some (Runs f) \<longrightarrow> v = w)"
proof -
  from inv have eq: "lp_made L = lp_done L + queued (lp_io L) + suspended (lp_io L) + sleeping (lp_io L) + running (lp_workers L)"
    and fin: "finite (dom (lp_workers L))" and once: "\<And>f. count (lp_made L) f \<le> 1"
    by (auto simp: loop_inv_def held_def each_once_def ac_simps)
  have "v = w" if "lp_workers L v = Some (Runs f)" "lp_workers L w = Some (Runs f)" for v w f
    using count_running [OF fin that] once [of f] by (fastforce simp: eq)
  then show ?thesis using eq once by blast
qed



lemma loop_inv_watched:
  assumes "loop_inv L" "f \<in># suspended (lp_io L)"
  shows "\<exists>n event mask L'. event \<in> {READ, WRITE} \<and> ep_interest (lp_io L) n = Some mask \<and> mask AND event = event \<and>
    loop_step L L' \<and> dispatch n event 0 (lp_io L) = Inr (lp_io L') \<and> f \<in># queued (lp_io L')"
proof -
  let ?io = "lp_io L"
  have inv: "io_inv ?io" using assms(1) by (simp add: loop_inv_def io_ok_def io_all_inv_def)
  obtain c where "c \<in> set (m_fdContexts ?io)" "f \<in># ctx_fibers c"
    using assms(2) by (auto simp: suspended_def in_sum_list)
  then obtain n event where n: "n < length (m_fdContexts ?io)" and ev: "event = READ \<or> event = WRITE"
    and f: "f \<in># event_fibers event (m_fdContexts ?io ! n)"
    by (auto simp: in_set_conv_nth ctx_fibers_def)
  let ?c = "m_fdContexts ?io ! n"
  have w: "wants event ?c" "f \<in># task_fibers (waiting (context_of event ?c))"
    using f by (auto simp: event_fibers_def split: if_splits)
  have ok: "ctx_ok n ?c" using inv n by (simp add: io_inv_def io_core_def)
  have re: "real_events event ?c = event" by (rule real_events_same [OF ev])
  have sub: "event AND fc_events ?c = event" using ok ev w(1) by (auto simp: ctx_ok_def wants_def event_defs)
  then obtain io' where d: "dispatch n event 0 ?io = Inr io'" "m_tasks (io_sched io') = m_tasks (io_sched ?io) @ woken event ?c"
    using dispatch_correct [OF inv n refl, of event] re by auto
  have "woken event ?c = [waiting (context_of event ?c)]" using ev by (auto simp: woken_def context_of_def event_defs)
  then have "f \<in># queued io'" using d(2) w(2) by (simp add: queued_def)
  moreover have "fc_events ?c \<noteq> 0" using w(1) by (auto simp: wants_def)
  then have "ep_interest ?io n = Some (EPOLLET OR fc_events ?c)" using inv n by (simp add: io_inv_def interest_of_def)
  moreover have "(EPOLLET OR fc_events ?c) AND event = event"
    using ok ev w(1) by (auto simp: event_defs ctx_ok_def wants_def)
  moreover have "loop_step L (with_io io' L)" "lp_io (with_io io' L) = io'" using reports [OF n d(1)] by (simp_all add: with_io_def)
  ultimately show ?thesis using ev d(1)
    by (intro exI [of _ n] exI [of _ event] exI [of _ "EPOLLET OR fc_events ?c"] exI [of _ "with_io io' L"]) auto
qed


lemma do_io_block_no_timer:
  assumes "do_io_block fd event no_timeout tinfo rt now fiber w = Inr (st, w')"
  shows "io_timers (w_io w') = io_timers (w_io w)"
proof -
  have "condition_timer no_timeout fd event tinfo now w = (None, w)" by (simp add: condition_timer_def)
  with assms obtain r io where "addEvent fd event None rt True fiber (w_io w) = Inr (r, io)" "w_io w' = io"
    by (auto simp: do_io_block_def dag_bind Let_def cancel_timer_def split: if_splits)
  then show ?thesis using event_ops_timers(1) by metis
qed




lemma suspended_none:
  assumes "io_inv io" "m_pendingEvenCount io = 0"
  shows "suspended io = {#}"
proof -
  have "ctx_fibers c = {#}" if "c \<in> set (m_fdContexts io)" for c
  proof -
    have "n_events c = 0" using assms that by (simp add: io_inv_def io_core_def)
    then show ?thesis by (auto simp: n_events_def ctx_fibers_def event_fibers_def split: if_splits)
  qed
  then show ?thesis by (simp add: suspended_def cong: map_cong)
qed

lemma busy_0:
  assumes "finite (dom ws)" "busy ws = 0"
  shows "running ws = {#}" "ws w = Some a \<Longrightarrow> a = Free"
proof -
  have free: "a = Free" if "ws w = Some a" for w a
    using assms that by (auto simp: busy_def dom_def)
  have "activity_fibers (the (ws w)) = {#}" if "w \<in> dom ws" for w using that free [of w] by auto
  then show "running ws = {#}" by (simp add: running_def)
  show "ws w = Some a \<Longrightarrow> a = Free" by (rule free)
qed



section \<open>A sleeping fiber that nothing wakes\<close>

text \<open>
  C38: a fiber can sleep for ever. If a call with a timeout blocks while a fiber sleeps, and the deadlines
  of both coincide, the timer of the call is not armed; when the descriptor is ready and the call
  goes on, cancelling that timer removes the timer of the sleeping fiber instead. The manager then has
  the timers it had before the fiber went to sleep, and only the other fiber is in the queue.
\<close>

theorem sleeper_lost:
  assumes inv: "io_reach (w_io w)" and fd: "0 \<le> fd" "event = READ \<or> event = WRITE" "tinfos w tinfo = Some 0"
    and sleep: "sleep_for ms now f w = Inr (t, w1)"
    and only: "\<forall>u \<in> set (m_timers (io_timers (w_io w))). deadline (io_timers (w_io w)) u \<noteq> now + milliseconds ms"
    and block: "do_io_block fd event ms' tinfo 0 now' (g, RUNNING) w1 = Inr (Waiting timer, w2)"
    and same: "ms' \<noteq> no_timeout" "now' + milliseconds ms' = now + milliseconds ms"
  shows "t \<in> set (m_timers (io_timers (w_io w1))) \<and>
    (\<exists>io3 w4. dispatch (nat fd) event 0 (w_io w2) = Inr io3 \<and> do_io_resume timer tinfo (w2\<lparr>w_io := io3\<rparr>) = (None, w4) \<and>
       m_timers (io_timers (w_io w4)) = m_timers (io_timers (w_io w)) \<and>
       queue w4 = queue w @ [SchedulerTask_fiber (Some g) (- 1)])"
proof -
  let ?tm = "io_timers (w_io w)"
  have all: "io_all_inv (w_io w)" by (rule io_reach_inv [OF inv])
  obtain tm1 front where 1: "addTimer ms (Plain (Wake_Fiber f)) False now ?tm = (t, tm1, front)" "w1 = set_timers tm1 w"
    using sleep by (auto simp: sleep_for_def split: if_splits prod.splits)
  have tm: "tm_inv ?tm" using all by (simp add: io_all_inv_def)
  note T = addTimer_armed [OF tm only [folded fresh_deadline_def] 1(1)]
  have all1: "io_all_inv (w_io w1)" and ti: "tinfos w1 tinfo = Some 0" and q: "queue w1 = queue w"
    using all T 1(2) fd(3) by (auto simp: io_all_inv_def)
  let ?cb = "Bound_OnTimer tinfo (Timeout_Cb tinfo fd event)"
  obtain u tm2 front2 where 2: "addTimer ms' ?cb False now' tm1 = (u, tm2, front2)" by (metis prod_cases3)
  have lost: "u \<noteq> t" "m_timers tm2 = m_timers tm1" "m_timers (snd (cancel u tm2)) = remove1 t (m_timers tm1)"
    using equal_deadline_lost [of tm1 t now' ms' ?cb False] T same(2) 2 by auto
  have w2: "waits_on fd event g tinfo w2" "queue w2 = queue w"
    using do_io_block_waits [OF all1 _ fd(1,2) _ ti, of ms' now' g] do_io_block_free [OF block fd(1)] block q by auto
  have "timer = Some u" "io_timers (w_io w2) = tm2"
    using block same(1) 1(2) 2 by (auto simp: do_io_block_def condition_timer_def addConditionTimer_def dag_bind Let_def
        dest!: event_ops_timers(1) split: if_splits)
  moreover obtain io3 where 3: "dispatch (nat fd) event 0 (w_io w2) = Inr io3"
    "m_tasks (io_sched io3) = queue w @ [SchedulerTask_fiber (Some g) (- 1)]"
    using report_wakes [OF w2(1)] w2(2) by auto
  moreover have "io_timers io3 = io_timers (w_io w2)" by (rule event_ops_timers(5) [OF 3(1)])
  moreover have "tinfos w2 tinfo = Some 0" by (rule waits_onD(6) [OF w2(1)])
  ultimately have "\<exists>w4. do_io_resume timer tinfo (w2\<lparr>w_io := io3\<rparr>) = (None, w4) \<and>
      m_timers (io_timers (w_io w4)) = m_timers ?tm \<and> queue w4 = queue w @ [SchedulerTask_fiber (Some g) (- 1)]"
    using lost(3) T by (simp add: do_io_resume_def cancel_timer_def ETIMEDOUT_def)
  with T 1(2) 3(1) show ?thesis by auto
qed

theorem sleeper_lost_witness:
  "\<exists>t w1 timer w2 io3 w4. sleep_for 2000 0 3 hook_example = Inr (t, w1) \<and>
     do_io_block 5 READ 1000 1 0 1000000000 (4, RUNNING) w1 = Inr (Waiting timer, w2) \<and>
     dispatch 5 READ 0 (w_io w2) = Inr io3 \<and> do_io_resume timer 1 (w2\<lparr>w_io := io3\<rparr>) = (None, w4) \<and>
     m_timers (io_timers (w_io w4)) = [] \<and> queue w4 = [SchedulerTask_fiber (Some 4) (- 1)]"
proof -
  obtain t tm front where a: "addTimer 2000 (Plain (Wake_Fiber 3)) False 0 (io_timers (w_io hook_example)) = (t, tm, front)"
    by (metis prod_cases3)
  let ?w1 = "set_timers tm hook_example"
  have s: "sleep_for 2000 0 3 hook_example = Inr (t, ?w1)" using a by (simp add: sleep_for_def hook_example_def)
  have none: "m_timers (io_timers (w_io hook_example)) = []" by (simp add: hook_example_def io_fresh_def TimerManager_new_def)
  have "io_reach (w_io ?w1)"
    using io_next [OF hook_example_reach(1) io_timer [OF step_add [OF a]]] by (simp add: set_timers_def)
  note inv = io_reach_inv [OF this]
  have ctx: "m_fdContexts (w_io ?w1) = map FdContext_new [0..<32]" "has_iom ?w1" "tinfos ?w1 1 = Some 0"
    by (simp_all add: hook_example_def io_fresh_def)
  have "\<not> wants READ (m_fdContexts (with_context (nat 5) (w_io ?w1)) ! nat 5)"
    using ctx(1) by (simp add: with_context_def wants_def FdContext_new_ok del: set_timers_frame)
  from do_io_block_waits [OF inv ctx(2) _ _ this ctx(3), of 1000 1000000000 4] obtain timer w2 where
    b: "do_io_block 5 READ 1000 1 0 1000000000 (4, RUNNING) ?w1 = Inr (Waiting timer, w2)" by auto
  from sleeper_lost [OF hook_example_reach(1) _ _ hook_example_reach(2) s _ b] none hook_example_reach(3) s b show ?thesis
    by (auto simp: no_timeout_def milliseconds_def)
qed

end
