(* ===== verification/MultiLoop.thy ===== *)
theory MultiLoop
  imports EventLoop
begin

text \<open>
  Several event loops in one process, as a \<open>TcpServer\<close> has that accepts in one manager and serves in another
  (\<open>m_acceptWorker\<close>, \<open>m_ioWorker\<close>). Each is a \<open>loop_system\<close>; a fiber of one schedules work in another through
  \<open>schedulerLock\<close>, which is the step \<open>spawn\<close> of that other loop. They share the table of descriptors (\<open>FdMgr\<close>, a
  singleton) and the descriptors themselves, and each has its own event contexts and its own epoll instance, so
  that \<open>cancelAll\<close> and \<open>close\<close> reach the waiters of the loop they are called in and no others
  (\<open>IOManager::GetThis()\<close>). When a descriptor is closed the kernel takes it out of every epoll instance.
\<close>

section \<open>Steps\<close>

definition kernel_close :: "fd_table \<Rightarrow> fd_table \<Rightarrow> hook_io \<Rightarrow> hook_io" where
  "kernel_close sys sys' io =
     io\<lparr>ep_interest := (\<lambda>fd. if sys fd \<noteq> None \<and> sys' fd = None then None else ep_interest io fd)\<rparr>"

text \<open>What a loop sees of a step that took the shared tables from those of \<open>w\<close> to those of \<open>w'\<close>.\<close>

definition see :: "hook_world \<Rightarrow> hook_world \<Rightarrow> loop_system \<Rightarrow> loop_system" where
  "see w w' L = L\<lparr>lp_w := (lp_w L)\<lparr>w_fdm := w_fdm w', w_sys := w_sys w', w_io := kernel_close (w_sys w) (w_sys w') (lp_io L)\<rparr>\<rparr>"

type_synonym loops = "nat \<rightharpoonup> loop_system"

definition after_step :: "nat \<Rightarrow> loop_system \<Rightarrow> loop_system \<Rightarrow> loops \<Rightarrow> loops" where
  "after_step i L L' S = (\<lambda>j. map_option (see (lp_w L) (lp_w L')) ((S(i \<mapsto> L')) j))"

text \<open>Fibers are numbered by a counter that all threads share, so that a new one is new in every loop.\<close>

definition new_everywhere :: "loop_system \<Rightarrow> loop_system \<Rightarrow> loops \<Rightarrow> bool" where
  "new_everywhere L L' S \<longleftrightarrow>
     (\<forall>f \<in># lp_made L'. f \<notin># lp_made L \<longrightarrow> (\<forall>j Lj. S j = Some Lj \<longrightarrow> f \<notin># lp_made Lj))"

inductive multi_step :: "loops \<Rightarrow> loops \<Rightarrow> bool" where
  local: "S i = Some L \<Longrightarrow> loop_step L L' \<Longrightarrow> new_everywhere L L' S \<Longrightarrow> multi_step S (after_step i L L' S)"

text \<open>
  The discipline that the code leaves to its users: a descriptor is closed only when no loop has an event
  of it registered any more, once the closing loop has cancelled its own.
\<close>

definition orderly :: "nat \<Rightarrow> loop_system \<Rightarrow> loop_system \<Rightarrow> loops \<Rightarrow> bool" where
  "orderly i L L' S \<longleftrightarrow>
     (\<forall>j Lj fd. (S(i \<mapsto> L')) j = Some Lj \<longrightarrow> w_sys (lp_w L) fd \<noteq> None \<longrightarrow> w_sys (lp_w L') fd = None \<longrightarrow>
        ep_interest (lp_io Lj) fd = None)"

inductive multi_reach :: "loops \<Rightarrow> bool" where
  multi_start: "(\<And>i L. S i = Some L \<Longrightarrow> loop_reach L \<and> lp_made L = {#}) \<Longrightarrow> multi_reach S"
| multi_next: "multi_reach S \<Longrightarrow> S i = Some L \<Longrightarrow> loop_step L L' \<Longrightarrow> new_everywhere L L' S \<Longrightarrow> orderly i L L' S \<Longrightarrow>
    multi_reach (after_step i L L' S)"

section \<open>Invariant\<close>

lemma see_frame [simp]:
  "lp_made (see w w' L) = lp_made L" "lp_done (see w w' L) = lp_done L" "lp_workers (see w w' L) = lp_workers L"
  by (simp_all add: see_def)

lemma kernel_close_idle:
  "(\<And>fd. sys fd \<noteq> None \<Longrightarrow> sys' fd = None \<Longrightarrow> ep_interest io fd = None) \<Longrightarrow> kernel_close sys sys' io = io"
  by (cases io) (auto simp: kernel_close_def fun_eq_iff)

lemma see_idle:
  assumes "\<And>fd. w_sys w fd \<noteq> None \<Longrightarrow> w_sys w' fd = None \<Longrightarrow> ep_interest (lp_io L) fd = None"
  shows "lp_io (see w w' L) = lp_io L"
  using kernel_close_idle [of "w_sys w" "w_sys w'" "lp_io L"] assms by (simp add: see_def)

lemma see_inv:
  assumes "loop_inv L" "\<And>fd. w_sys w fd \<noteq> None \<Longrightarrow> w_sys w' fd = None \<Longrightarrow> ep_interest (lp_io L) fd = None"
  shows "loop_inv (see w w' L)"
proof -
  have "lp_io (see w w' L) = lp_io L" by (rule see_idle) (rule assms(2))
  then show ?thesis using assms(1) unfolding loop_inv_def see_frame by metis
qed

lemma loop_step_made: "loop_step L L' \<Longrightarrow> lp_made L \<subseteq># lp_made L'"
  by (induction rule: loop_step.induct) (auto simp: end_task_def set_worker_def with_io_def)

definition multi_inv :: "loops \<Rightarrow> bool" where
  "multi_inv S \<longleftrightarrow> (\<forall>i L. S i = Some L \<longrightarrow> loop_inv L) \<and>
     (\<forall>i j Li Lj f. S i = Some Li \<longrightarrow> S j = Some Lj \<longrightarrow> f \<in># lp_made Li \<longrightarrow> f \<in># lp_made Lj \<longrightarrow> i = j)"

lemma after_step_cases:
  assumes "after_step i L L' S j = Some Lj"
  obtains "j = i" "Lj = see (lp_w L) (lp_w L') L'" | L0 where "j \<noteq> i" "S j = Some L0" "Lj = see (lp_w L) (lp_w L') L0"
  using assms by (auto simp: after_step_def split: if_splits)

lemma orderlyD:
  "orderly i L L' S \<Longrightarrow> (S(i \<mapsto> L')) j = Some Lj \<Longrightarrow> w_sys (lp_w L) fd \<noteq> None \<Longrightarrow> w_sys (lp_w L') fd = None \<Longrightarrow>
   ep_interest (lp_io Lj) fd = None"
  unfolding orderly_def by blast

lemma multi_next_inv:
  assumes inv: "multi_inv S" and L: "S i = Some L" "loop_step L L'" and new: "new_everywhere L L' S" and ord: "orderly i L L' S"
  shows "multi_inv (after_step i L L' S)"
proof -
  have inv': "loop_inv L'" using inv L loop_step_inv by (auto simp: multi_inv_def)
  have 1: "loop_inv Lj" if "after_step i L L' S j = Some Lj" for j Lj
    using that
  proof (rule after_step_cases)
    assume j: "j = i" "Lj = see (lp_w L) (lp_w L') L'"
    show ?thesis unfolding j(2) by (rule see_inv [OF inv']) (auto intro: orderlyD [OF ord, of i])
  next
    fix L0 assume j: "j \<noteq> i" "S j = Some L0" "Lj = see (lp_w L) (lp_w L') L0"
    then have "loop_inv L0" using inv by (auto simp: multi_inv_def)
    moreover have "ep_interest (lp_io L0) fd = None" if "w_sys (lp_w L) fd \<noteq> None" "w_sys (lp_w L') fd = None" for fd
      using orderlyD [OF ord, of j L0] j(1,2) that by simp
    ultimately show ?thesis unfolding j(3) by (rule see_inv)
  qed
  have other: "f \<notin># lp_made L0" if "f \<in># lp_made L'" "j \<noteq> i" "S j = Some L0" for f j L0
    using that inv L(1) new by (cases "f \<in># lp_made L") (auto simp: multi_inv_def new_everywhere_def)
  have "j = k" if "after_step i L L' S j = Some Lj" "after_step i L L' S k = Some Lk" "f \<in># lp_made Lj" "f \<in># lp_made Lk"
    for j k Lj Lk f
    using that inv other by (auto simp: multi_inv_def elim!: after_step_cases)
  with 1 show ?thesis unfolding multi_inv_def by blast
qed

lemma multi_reach_inv: "multi_reach S \<Longrightarrow> multi_inv S"
proof (induction rule: multi_reach.induct)
  case (multi_start S)
  then show ?case using loop_reach_inv by (fastforce simp: multi_inv_def)
qed (rule multi_next_inv)



text \<open>A disciplined step is one of the system.\<close>

lemma multi_reach_step:
  "multi_reach S \<Longrightarrow> S i = Some L \<Longrightarrow> loop_step L L' \<Longrightarrow> new_everywhere L L' S \<Longrightarrow> orderly i L L' S \<Longrightarrow>
   multi_step S (after_step i L L' S) \<and> multi_inv (after_step i L L' S)"
  by (simp add: local multi_next_inv multi_reach_inv)

section \<open>Closing a descriptor that another loop waits for\<close>

lemma waits_on_suspended:
  assumes "waits_on fd event f tinfo w"
  shows "f \<in># suspended (w_io w)"
proof -
  let ?c = "m_fdContexts (w_io w) ! nat fd"
  note W = waits_onD [OF assms]
  have "f \<in># event_fibers event ?c"
    using W(5,7) by (simp add: event_fibers_def task_fibers_def SchedulerTask_fiber_def)
  then have "f \<in># ctx_fibers ?c" using W(3) by (auto simp: ctx_fibers_def)
  then show ?thesis using W(4) by (auto simp: suspended_def in_sum_list)
qed

lemma waits_on_pending:
  assumes "waits_on fd event f tinfo w"
  shows "0 < m_pendingEvenCount (w_io w)"
proof -
  let ?c = "m_fdContexts (w_io w) ! nat fd"
  note W = waits_onD [OF assms]
  have "n_events ?c \<in> set (map n_events (m_fdContexts (w_io w)))" using W(4) by simp
  then have "n_events ?c \<le> sum_list (map n_events (m_fdContexts (w_io w)))" by (rule member_le_sum_list) simp
  moreover have "0 < n_events ?c" using W(3,5) by (auto simp: n_events_def)
  ultimately show ?thesis using W(1) by (simp add: io_inv_def io_core_def)
qed



end
