(* ===== verification/Socket.thy ===== *)
theory Socket
  imports Hook Address
begin

text \<open>
  The class \<open>Socket\<close>, \<open>dag/socket.cpp\<close>, over the hooked system calls. An operation works on the socket object
  and the state of the hooks; the results of the underlying calls (the new descriptor, the return
  values of \<open>bind\<close>, \<open>listen\<close>, \<open>connect\<close> and so on, the addresses that \<open>getsockname\<close> and
  \<open>getpeername\<close> report) are arguments. The debug messages are left out, as in a build without \<open>DEBUG\<close>.
\<close>

section \<open>State\<close>

text \<open>An address is what the system reported or the placeholder for an unknown one of a family.\<close>

datatype 'a sock_addr = Known 'a | UnknownAddress int

record 'a Socket =
  sk_sock :: int
  sk_family :: int
  sk_type :: int
  sk_protocol :: int
  sk_isConnected :: bool
  sk_localAddress :: "'a sock_addr option"
  sk_remoteAddress :: "'a sock_addr option"

definition AF_INET_num :: int where "AF_INET_num = 2"
definition SOCK_STREAM_num :: int where "SOCK_STREAM_num = 1"
definition SOCK_DGRAM_num :: int where "SOCK_DGRAM_num = 2"

definition Socket_new :: "int \<Rightarrow> int \<Rightarrow> int \<Rightarrow> 'a Socket" where
  "Socket_new family type protocol =
     \<lparr>sk_sock = - 1, sk_family = family, sk_type = type, sk_protocol = protocol, sk_isConnected = False,
      sk_localAddress = None, sk_remoteAddress = None\<rparr>"

definition isValid :: "'a Socket \<Rightarrow> bool" where
  "isValid s \<longleftrightarrow> sk_sock s \<noteq> - 1"

text \<open>
  Options: \<open>rt\<close> is what \<open>setsockopt_f\<close> returns, which only the result of \<open>setOption\<close> depends on (\<open>setOption_result\<close>);
  callers that ignore the result pass 0.
\<close>

definition getOption :: "(int \<Rightarrow> int \<Rightarrow> int \<Rightarrow> int \<times> int) \<Rightarrow> int \<Rightarrow> int \<Rightarrow> 'a Socket \<Rightarrow> bool \<times> int" where
  "getOption getsockopt_f level option s =
     (case hook_getsockopt getsockopt_f (sk_sock s) level option of (rt, result) \<Rightarrow>
        if rt \<noteq> 0 then (False, result) else (True, result))"

definition setOption :: "int \<Rightarrow> int \<Rightarrow> int \<Rightarrow> optval \<Rightarrow> 'a Socket \<Rightarrow> hook_world \<Rightarrow> (bool \<times> hook_world) res" where
  "setOption rt level option result s w =
     rmap (\<lambda>w'. (if rt = - 1 then False else True, w')) (hook_setsockopt (sk_sock s) level option result w)"

definition initSock :: "'a Socket \<Rightarrow> hook_world \<Rightarrow> hook_world res" where
  "initSock s w =
     rbind (setOption 0 SOL_SOCKET SO_REUSEADDR (Opt_Int 1) s w) (\<lambda>(_, w1).
       if sk_type s = SOCK_STREAM_num then rmap snd (setOption 0 IPPROTO_TCP TCP_NODELAY (Opt_Int 1) s w1)
       else Inr w1)"

text \<open>The descriptor that \<open>socket\<close> returns is \<open>fd\<close>.\<close>

definition newSock :: "int \<Rightarrow> 'a Socket \<Rightarrow> hook_world \<Rightarrow> ('a Socket \<times> hook_world) res" where
  "newSock fd s w =
     rbind (hook_socket fd w) (\<lambda>(fd', w1).
       let s1 = s\<lparr>sk_sock := fd'\<rparr> in
       if sk_sock s1 \<noteq> - 1 then rmap (\<lambda>w2. (s1, w2)) (initSock s1 w1) else Inr (s1, w1))"

definition CreateTCP :: "int \<Rightarrow> 'a Socket" where
  "CreateTCP family = Socket_new family SOCK_STREAM_num 0"

definition CreateTCPSocket :: "'a Socket" where
  "CreateTCPSocket = Socket_new AF_INET_num SOCK_STREAM_num 0"

definition CreateUDP :: "int \<Rightarrow> int \<Rightarrow> hook_world \<Rightarrow> ('a Socket \<times> hook_world) res" where
  "CreateUDP family fd w =
     rmap (\<lambda>(s, w'). (s\<lparr>sk_isConnected := True\<rparr>, w')) (newSock fd (Socket_new family SOCK_DGRAM_num 0) w)"

definition CreateUDPSocket :: "int \<Rightarrow> hook_world \<Rightarrow> ('a Socket \<times> hook_world) res" where
  "CreateUDPSocket fd w = CreateUDP AF_INET_num fd w"

section \<open>Addresses\<close>

text \<open>\<open>name\<close> is the result of \<open>getpeername\<close> or \<open>getsockname\<close>: nothing if it fails.\<close>

definition getRemoteAddress :: "'a option \<Rightarrow> 'a Socket \<Rightarrow> 'a sock_addr \<times> 'a Socket" where
  "getRemoteAddress name s =
     (case sk_remoteAddress s of
        Some a \<Rightarrow> (a, s)
      | None \<Rightarrow> (case name of
            None \<Rightarrow> (UnknownAddress (sk_family s), s)
          | Some x \<Rightarrow> let a = (if sk_family s = AF_INET_num then Known x else UnknownAddress (sk_family s))
                      in (a, s\<lparr>sk_remoteAddress := Some a\<rparr>)))"

definition getLocalAddress :: "'a option \<Rightarrow> 'a Socket \<Rightarrow> 'a sock_addr \<times> 'a Socket" where
  "getLocalAddress name s =
     (case sk_localAddress s of
        Some a \<Rightarrow> (a, s)
      | None \<Rightarrow> (case name of
            None \<Rightarrow> (UnknownAddress (sk_family s), s)
          | Some x \<Rightarrow> let a = (if sk_family s = AF_INET_num then Known x else UnknownAddress (sk_family s))
                      in (a, s\<lparr>sk_localAddress := Some a\<rparr>)))"

section \<open>Life cycle\<close>

definition Socket_close :: "int \<Rightarrow> 'a Socket \<Rightarrow> hook_world \<Rightarrow> (bool \<times> 'a Socket \<times> hook_world) res" where
  "Socket_close ctl s w =
     (if \<not> sk_isConnected s \<and> sk_sock s = - 1 then Inr (True, s, w)
      else let s1 = s\<lparr>sk_isConnected := False\<rparr> in
        if sk_sock s1 \<noteq> - 1
        then rmap (\<lambda>w'. (False, s1\<lparr>sk_sock := - 1\<rparr>, close_f (sk_sock s1) w')) (hook_close (sk_sock s1) ctl w)
        else Inr (False, s1, w))"

text \<open>The first lines of \<open>bind\<close> and \<open>connect\<close>: make sure that there is a descriptor.\<close>

definition ensure_sock :: "int \<Rightarrow> 'a Socket \<Rightarrow> hook_world \<Rightarrow> ('a Socket \<times> hook_world) res" where
  "ensure_sock fd s w = (if isValid s then Inr (s, w) else newSock fd s w)"

definition Socket_bind ::
  "int \<Rightarrow> int \<Rightarrow> int \<Rightarrow> 'a option \<Rightarrow> 'a Socket \<Rightarrow> hook_world \<Rightarrow> (bool \<times> 'a Socket \<times> hook_world) res" where
  "Socket_bind addr_family fd rt local s w =
     rmap (\<lambda>(s1, w1).
       if \<not> isValid s1 then (False, s1, w1)
       else if addr_family \<noteq> sk_family s1 then (False, s1, w1)
       else if rt \<noteq> 0 then (False, s1, w1)
       else (True, snd (getLocalAddress local s1), w1))
       (ensure_sock fd s w)"

definition Socket_listen :: "int \<Rightarrow> 'a Socket \<Rightarrow> bool" where
  "Socket_listen rt s \<longleftrightarrow> isValid s \<and> rt = 0"

text \<open>\<open>rt\<close> is the result of \<open>connect\<close> or \<open>connect_with_timeout\<close>; a failure closes the socket.\<close>

definition Socket_connect ::
  "int \<Rightarrow> int \<Rightarrow> int \<Rightarrow> int \<Rightarrow> 'a option \<Rightarrow> 'a option \<Rightarrow> 'a Socket \<Rightarrow> hook_world \<Rightarrow> (bool \<times> 'a Socket \<times> hook_world) res" where
  "Socket_connect addr_family fd rt ctl remote local s w =
     rbind (ensure_sock fd s w) (\<lambda>(s1, w1).
       if \<not> isValid s1 then Inr (False, s1, w1)
       else if addr_family \<noteq> sk_family s1 then Inr (False, s1, w1)
       else if rt \<noteq> 0 then rmap (\<lambda>(_, s2, w2). (False, s2, w2)) (Socket_close ctl s1 w1)
       else Inr (True, snd (getLocalAddress local (snd (getRemoteAddress remote (s1\<lparr>sk_isConnected := True\<rparr>)))), w1))"

definition Socket_init ::
  "int \<Rightarrow> 'a option \<Rightarrow> 'a option \<Rightarrow> 'a Socket \<Rightarrow> hook_world \<Rightarrow> (bool \<times> 'a Socket \<times> hook_world) res" where
  "Socket_init sock local remote s w =
     rbind (get_ctx sock w) (\<lambda>p.
       case p of
         None \<Rightarrow> Inr (False, s, w)
       | Some ctx \<Rightarrow>
           if m_isSocket ctx \<and> \<not> m_isClosed ctx
           then let s1 = s\<lparr>sk_sock := sock, sk_isConnected := True\<rparr> in
             rmap (\<lambda>w1. (True, snd (getRemoteAddress remote (snd (getLocalAddress local s1))), w1)) (initSock s1 w)
           else Inr (False, s, w))"

text \<open>\<open>newsock\<close> is the result of the hooked \<open>accept\<close>, which has registered it.\<close>

definition Socket_accept ::
  "int \<Rightarrow> 'a option \<Rightarrow> 'a option \<Rightarrow> 'a Socket \<Rightarrow> hook_world \<Rightarrow> ('a Socket option \<times> hook_world) res" where
  "Socket_accept newsock local remote s w =
     rbind (accept_done newsock w) (\<lambda>(fd, w1).
       if fd = - 1 then Inr (None, w1)
       else rmap (\<lambda>(ok, s1, w2). (if ok then Some s1 else None, w2))
              (Socket_init fd local remote (Socket_new (sk_family s) (sk_type s) (sk_protocol s)) w1))"

section \<open>Data and cancellation\<close>

text \<open>All the sending and receiving operations pass the call on if the socket is connected.\<close>

definition if_connected :: "'a Socket \<Rightarrow> ('s \<Rightarrow> int \<times> 's) \<Rightarrow> 's \<Rightarrow> int \<times> 's" where
  "if_connected s call w = (if sk_isConnected s then call w else (- 1, w))"

definition cancel_on :: "events \<Rightarrow> int \<Rightarrow> 'a Socket \<Rightarrow> hook_world \<Rightarrow> (bool \<times> hook_world) res" where
  "cancel_on event ctl s w =
     (if \<not> has_iom w then Inl Null_Deref
      else rmap (\<lambda>(r, io). (r, w\<lparr>w_io := io\<rparr>)) (cancelEvent (sk_sock s) event ctl (w_io w)))"

definition cancelRead :: "int \<Rightarrow> 'a Socket \<Rightarrow> hook_world \<Rightarrow> (bool \<times> hook_world) res" where
  "cancelRead = cancel_on READ"

definition cancelWrite :: "int \<Rightarrow> 'a Socket \<Rightarrow> hook_world \<Rightarrow> (bool \<times> hook_world) res" where
  "cancelWrite = cancel_on WRITE"

definition cancelAccept :: "int \<Rightarrow> 'a Socket \<Rightarrow> hook_world \<Rightarrow> (bool \<times> hook_world) res" where
  "cancelAccept = cancel_on READ"

definition Socket_cancelAll :: "int \<Rightarrow> 'a Socket \<Rightarrow> hook_world \<Rightarrow> (bool \<times> hook_world) res" where
  "Socket_cancelAll ctl s w =
     (if \<not> has_iom w then Inl Null_Deref
      else rmap (\<lambda>(r, io). (r, w\<lparr>w_io := io\<rparr>)) (cancelAll (sk_sock s) ctl (w_io w)))"

section \<open>Timeouts\<close>

definition timeout_val :: "int \<Rightarrow> int \<times> int" where
  "timeout_val v = (to_int32 (tquot v 1000), to_int32 (trem v 1000 * 1000))"

definition set_timeout_opt :: "timeout_type \<Rightarrow> int \<Rightarrow> 'a Socket \<Rightarrow> hook_world \<Rightarrow> hook_world res" where
  "set_timeout_opt ty v s w =
     (case timeout_val v of (tv_sec, tv_usec) \<Rightarrow>
        rmap snd (setOption 0 SOL_SOCKET (timeout_optname ty) (Opt_Timeval tv_sec tv_usec) s w))"

definition get_timeout_opt :: "timeout_type \<Rightarrow> 'a Socket \<Rightarrow> hook_world \<Rightarrow> int res" where
  "get_timeout_opt ty s w =
     rmap (\<lambda>p. case p of Some ctx \<Rightarrow> to_int64 (int (getTimeout ty ctx)) | None \<Rightarrow> - 1) (get_ctx (sk_sock s) w)"

definition setRecvTimeout :: "int \<Rightarrow> 'a Socket \<Rightarrow> hook_world \<Rightarrow> hook_world res" where
  "setRecvTimeout = set_timeout_opt SO_RCVTIMEO"

definition SetSendTimeout :: "int \<Rightarrow> 'a Socket \<Rightarrow> hook_world \<Rightarrow> hook_world res" where
  "SetSendTimeout = set_timeout_opt SO_SNDTIMEO"

definition getRecvTimeout :: "'a Socket \<Rightarrow> hook_world \<Rightarrow> int res" where
  "getRecvTimeout = get_timeout_opt SO_RCVTIMEO"

definition getSendTimeout :: "'a Socket \<Rightarrow> hook_world \<Rightarrow> int res" where
  "getSendTimeout = get_timeout_opt SO_SNDTIMEO"

text \<open>The error of a socket; if it cannot be read, \<open>errno\<close>, which \<open>w\<close> holds after the call.\<close>

definition getError :: "(int \<Rightarrow> int \<Rightarrow> int \<Rightarrow> int \<times> int) \<Rightarrow> 'a Socket \<Rightarrow> hook_world \<Rightarrow> int" where
  "getError getsockopt_f s w =
     (case getOption getsockopt_f SOL_SOCKET SO_ERROR s of (ok, error) \<Rightarrow> if \<not> ok then w_errno w else error)"

section \<open>Printing\<close>

text \<open>The text of an address, \<open>addr_str\<close> that of a known one, and of a socket, as \<open>dump\<close> puts it together.\<close>

fun sock_addr_toString :: "('a \<Rightarrow> string) \<Rightarrow> 'a sock_addr \<Rightarrow> string" where
  "sock_addr_toString addr_str (Known a) = addr_str a"
| "sock_addr_toString addr_str (UnknownAddress family) = ''[UnknownAddress family='' @ dec (nat (family mod 65536)) @ '']''"

definition Socket_dump :: "('a \<Rightarrow> string) \<Rightarrow> 'a Socket \<Rightarrow> string" where
  "Socket_dump addr_str s =
     ''[Socket sock='' @ dec_int (sk_sock s) @ ''is_connected='' @ dec_bool (sk_isConnected s) @
     '' family='' @ dec_int (sk_family s) @ '' protocol='' @ dec_int (sk_protocol s) @
     (case sk_localAddress s of None \<Rightarrow> [] | Some a \<Rightarrow> '' local_address'' @ sock_addr_toString addr_str a) @
     (case sk_remoteAddress s of None \<Rightarrow> [] | Some a \<Rightarrow> '' remote_address='' @ sock_addr_toString addr_str a) @
     '']''"

definition Socket_toString :: "byte_order \<Rightarrow> Address Socket \<Rightarrow> string" where
  "Socket_toString host s = Socket_dump (Address_toString host) s"

section \<open>Facts\<close>

text \<open>The options of \<open>initSock\<close> do not show in the state of the hooks; the timeouts do.\<close>

lemma setOption_result:
  "rmap snd (setOption rt level option v s w) = hook_setsockopt (sk_sock s) level option v w"
  by (cases "hook_setsockopt (sk_sock s) level option v w") (simp_all add: setOption_def)

lemma initSock_silent [simp]: "initSock s w = Inr w"
  by (simp add: initSock_def setOption_def hook_setsockopt_def SOL_SOCKET_def SO_REUSEADDR_def IPPROTO_TCP_def TCP_NODELAY_def)

lemma newSock_eq: "newSock fd s w = rmap (\<lambda>(fd', w'). (s\<lparr>sk_sock := fd'\<rparr>, w')) (hook_socket fd w)"
  by (cases "hook_socket fd w") (auto simp: newSock_def Let_def)

lemma set_timeout_opt_eq:
  "set_timeout_opt ty v s w =
     (case timeout_val v of (tv_sec, tv_usec) \<Rightarrow> hook_settimeout (sk_sock s) ty tv_sec tv_usec w)"
  by (simp add: set_timeout_opt_def setOption_result setsockopt_timeout split: prod.split)

lemma tquot_1000:
  assumes "- (2147483648 * 1000) < v" "v < 2147483648 * 1000"
  shows "- 2147483648 < tquot v 1000 \<and> tquot v 1000 < 2147483648"
proof -
  have "\<bar>v\<bar> div 1000 < 2147483648" using assms by linarith
  then show ?thesis by (auto simp: tquot_def sgn_if)
qed

lemma trem_1000: "\<bar>trem v 1000\<bar> < 1000"
proof (cases "0 \<le> v")
  case False
  then have "trem v 1000 = - ((- v) mod 1000)"
    using minus_mult_div_eq_mod [of "- v" 1000] by (simp add: trem_def tquot_def)
  then show ?thesis using pos_mod_bound [of 1000 "- v"] pos_mod_sign [of 1000 "- v"] by simp
qed simp

lemma tquot_times: "tquot (x * 1000) 1000 = x"
proof -
  have "\<bar>x * 1000\<bar> div 1000 = \<bar>x\<bar>" by (simp add: abs_mult)
  then show ?thesis by (auto simp: tquot_def sgn_if)
qed

lemma timeout_val_exact:
  assumes "- (2147483648 * 1000) < v" "v < 2147483648 * 1000"
  shows "case timeout_val v of (tv_sec, tv_usec) \<Rightarrow> tv_sec * 1000 + tquot tv_usec 1000 = v"
proof -
  have "to_int32 (tquot v 1000) = tquot v 1000" using tquot_1000 [OF assms] by (intro to_int32_small) auto
  moreover have "to_int32 (trem v 1000 * 1000) = trem v 1000 * 1000" using trem_1000 [of v] by (intro to_int32_small) auto
  moreover have "tquot v 1000 * 1000 + trem v 1000 = v" by (simp add: trem_def)
  ultimately show ?thesis by (simp add: timeout_val_def tquot_times)
qed

text \<open>
  The timeouts of a hooked socket are read back as they were set, in milliseconds, for every value
  whose number of seconds fits an \<open>int\<close>, -1 (no timeout) and other negative values included; setting
  one direction leaves the other alone.
\<close>

lemma socket_timeout_roundtrip:
  assumes "0 \<le> sk_sock s" "nat (sk_sock s) < length (w_fdm w)" "w_fdm w ! nat (sk_sock s) = Some ctx" "t_hook_enable w"
    and "- 2147483648000 < v" "v < 2147483648000"
  shows "\<exists>w'. setRecvTimeout v s w = Inr w' \<and> getRecvTimeout s w' = Inr v \<and> getSendTimeout s w' = getSendTimeout s w"
proof -
  let ?v = "nat (v mod 2 ^ 64)"
  let ?w = "put_ctx (sk_sock s) (setTimeout SO_RCVTIMEO ?v ctx) w"
  have "setRecvTimeout v s w = Inr ?w"
    using assms timeout_val_exact [of v]
    by (auto simp: setRecvTimeout_def set_timeout_opt_eq hook_settimeout_def get_ctx_found split: prod.splits)
  moreover have get: "get_ctx (sk_sock s) ?w = Inr (Some (setTimeout SO_RCVTIMEO ?v ctx))"
    using assms(1,2) by (simp add: get_ctx_found put_ctx_def)
  moreover have "to_int64 (int ?v) = v"
    using assms(5,6) to_int64_small [of v] to_int64_mod [of v] by simp
  moreover have "get_ctx (sk_sock s) w = Inr (Some ctx)" using assms(1-3) by (simp add: get_ctx_found)
  ultimately show ?thesis
    by (auto simp: getRecvTimeout_def getSendTimeout_def get_timeout_opt_def getTimeout_def setTimeout_def)
qed

lemma socket_timeout_roundtrip_witness:
  "\<exists>s w'. sk_sock (s :: nat Socket) = 5 \<and> getRecvTimeout s w' = Inr 2500"
proof -
  obtain w :: hook_world and c where w: "t_hook_enable w" "nat 5 < length (w_fdm w)" "w_fdm w ! nat 5 = Some c"
    using hook_example_socket [of 5] by auto
  let ?s = "(Socket_new AF_INET_num SOCK_STREAM_num 0 :: nat Socket)\<lparr>sk_sock := 5\<rparr>"
  from socket_timeout_roundtrip [of ?s w c 2500] w show ?thesis by (intro exI [of _ ?s]) auto
qed

text \<open>
  Closing a socket wakes the fibers that wait for it, releases its descriptor and leaves it
  invalid and not connected, after which nothing is sent or received; the call reports false exactly
  when it had something to close.
\<close>

lemma socket_close_releases:
  assumes "io_reach (w_io w)" "0 \<le> sk_sock s" "t_hook_enable w" "has_iom w"
    and "nat (sk_sock s) < length (w_fdm w)" "w_fdm w ! nat (sk_sock s) = Some ctx"
    and "nat (sk_sock s) < length (m_fdContexts (w_io w))"
  shows "\<exists>s' w'. Socket_close 0 s w = Inr (False, s', w') \<and> \<not> isValid s' \<and> if_connected s' call x = (- 1, x) \<and>
    Socket_close 0 s' w' = Inr (True, s', w') \<and> get_ctx (sk_sock s) w' = Inr None \<and>
    w_sys w' (nat (sk_sock s)) = None \<and>
    queue w' = queue w @ woken (fc_events (m_fdContexts (w_io w) ! nat (sk_sock s))) (m_fdContexts (w_io w) ! nat (sk_sock s))"
proof -
  let ?fd = "sk_sock s"
  obtain w1 where w1: "hook_close ?fd 0 w = Inr w1" "get_ctx ?fd w1 = Inr None"
    "queue w1 = queue w @ woken (fc_events (m_fdContexts (w_io w) ! nat ?fd)) (m_fdContexts (w_io w) ! nat ?fd)"
    using hook_close_correct [OF assms] by auto
  let ?s = "s\<lparr>sk_isConnected := False, sk_sock := - 1\<rparr>"
  have "Socket_close 0 s w = Inr (False, ?s, close_f ?fd w1)"
    using assms(2) w1(1) by (auto simp: Socket_close_def Let_def)
  moreover have "get_ctx ?fd (close_f ?fd w1) = Inr None" using w1(2)
    by (auto simp: get_ctx_def close_f_def FdManager_get_def Let_def split: if_splits)
  ultimately show ?thesis using w1(3)
    by (intro exI [of _ ?s] exI [of _ "close_f ?fd w1"])
      (simp add: isValid_def if_connected_def Socket_close_def close_f_def)
qed

lemma socket_close_releases_witness:
  "\<exists>w s' w'. Socket_close 0 ((Socket_new AF_INET_num SOCK_STREAM_num 0 :: nat Socket)\<lparr>sk_sock := 5\<rparr>) w = Inr (False, s', w') \<and>
     \<not> isValid s' \<and> get_ctx 5 w' = Inr None"
proof -
  obtain w :: hook_world and c where w: "w_io w = io_fresh" "has_iom w" "t_hook_enable w" "nat 5 < length (w_fdm w)" "w_fdm w ! nat 5 = Some c"
    using hook_example_socket [of 5] by auto
  let ?s = "(Socket_new AF_INET_num SOCK_STREAM_num 0 :: nat Socket)\<lparr>sk_sock := 5\<rparr>"
  have r: "io_reach (w_io w)" "nat 5 < length (m_fdContexts (w_io w))" by (simp_all add: w(1) io_fresh_reach) (simp add: io_fresh_def)
  from socket_close_releases [of w ?s c "\<lambda>x. (0, x)" "()"] r w show ?thesis by auto
qed

text \<open>
  The addresses are cached and closing does not forget them: a socket that is connected again goes on
  reporting the first peer.
\<close>

lemma reconnect_keeps_address:
  assumes "sk_family s = AF_INET_num" "sk_remoteAddress s = None"
    and "Socket_connect AF_INET_num fd 0 ctl (Some x) l s w = Inr (True, s1, w1)"
    and "Socket_close ctl s1 w1 = Inr (b, s2, w2)"
    and "Socket_connect AF_INET_num fd' 0 ctl (Some y) l' s2 w2 = Inr (True, s3, w3)"
  shows "fst (getRemoteAddress (Some y) s3) = Known x"
proof -
  have s1: "sk_remoteAddress s1 = Some (Known x)"
    using assms(1-3) by (auto simp: Socket_connect_def ensure_sock_def newSock_eq getRemoteAddress_def getLocalAddress_def
        dag_bind Let_def split: if_splits option.splits)
  then have "sk_remoteAddress s2 = Some (Known x)"
    using assms(4) by (auto simp: Socket_close_def dag_bind Let_def split: if_splits)
  then have "sk_remoteAddress s3 = Some (Known x)"
    using assms(5) by (auto simp: Socket_connect_def ensure_sock_def newSock_eq getRemoteAddress_def getLocalAddress_def
        dag_bind Let_def split: if_splits option.splits)
  then show ?thesis by (simp add: getRemoteAddress_def)
qed

text \<open>The printed form runs the descriptor and the next field together.\<close>

lemma socket_dump_runs_together:
  "Socket_dump addr_str CreateTCPSocket = ''[Socket sock=-1is_connected=0 family=2 protocol=0]''"
  by (simp add: Socket_dump_def CreateTCPSocket_def Socket_new_def AF_INET_num_def SOCK_STREAM_num_def dec_int_def dec_bool_def
      dec.simps char_of_def bit_0)

end
