(* ===== verification/TcpServer.thy ===== *)
theory TcpServer
  imports Socket
begin

text \<open>
  The server, \<open>dag/tcp_server.cpp\<close>: binding to a list of addresses, accepting, starting and stopping. The
  tasks that the server hands to its accepting and its serving event loop are kept in two lists. For
  every address the results of the system calls that \<open>bind\<close> makes for it are given together. A socket is
  shared between the list of the server and its tasks only while the server runs; binding and
  destruction are operations of a server that does not run, which holds its sockets alone, so that a
  socket which leaves the list is destroyed.
\<close>

section \<open>State\<close>

datatype 'a server_task = Start_Accept "'a Socket" | Stop_Server | Handle_Client "'a Socket"

record 'a TcpServer =
  ts_socks :: "'a Socket list"
  ts_recvTimeout :: int
  ts_name :: string
  ts_type :: string
  ts_isStop :: bool
  ts_accept_tasks :: "'a server_task list"
  ts_io_tasks :: "'a server_task list"

definition TcpServer_new :: "'a TcpServer" where
  "TcpServer_new =
     \<lparr>ts_socks = [], ts_recvTimeout = 50000, ts_name = ''dag/1.0'', ts_type = ''tcp'', ts_isStop = True,
      ts_accept_tasks = [], ts_io_tasks = []\<rparr>"

text \<open>An address with what the calls for it return: the descriptor, \<open>bind\<close>, the local name, \<open>listen\<close>.\<close>

record 'a bind_try =
  bt_addr :: 'a
  bt_family :: int
  bt_fd :: int
  bt_bind :: int
  bt_local :: "'a option"
  bt_listen :: int

section \<open>Binding\<close>

text \<open>A socket that goes out of scope is closed by its destructor.\<close>

definition drop_socket :: "int \<Rightarrow> 'a Socket \<Rightarrow> hook_world \<Rightarrow> hook_world res" where
  "drop_socket ctl s w = rmap (\<lambda>(_, _, w'). w') (Socket_close ctl s w)"

fun bind_loop ::
  "int \<Rightarrow> 'a bind_try list \<Rightarrow> 'a Socket list \<Rightarrow> 'a list \<Rightarrow> hook_world \<Rightarrow> ('a Socket list \<times> 'a list \<times> hook_world) res" where
  "bind_loop ctl [] socks fails w = Inr (socks, fails, w)"
| "bind_loop ctl (b # bs) socks fails w =
     rbind (Socket_bind (bt_family b) (bt_fd b) (bt_bind b) (bt_local b) CreateTCPSocket w) (\<lambda>(ok, s, w1).
       if \<not> ok \<or> \<not> Socket_listen (bt_listen b) s
       then rbind (drop_socket ctl s w1) (bind_loop ctl bs socks (fails @ [bt_addr b]))
       else bind_loop ctl bs (socks @ [s]) fails w1)"

definition server_bind ::
  "int \<Rightarrow> 'a bind_try list \<Rightarrow> 'a list \<Rightarrow> 'a TcpServer \<Rightarrow> hook_world \<Rightarrow> (bool \<times> 'a list \<times> 'a TcpServer \<times> hook_world) res" where
  "server_bind ctl bs fails srv w =
     rbind (bind_loop ctl bs (ts_socks srv) fails w) (\<lambda>(socks, fails', w1).
       if fails' \<noteq> []
       then rmap (\<lambda>w2. (False, fails', srv\<lparr>ts_socks := []\<rparr>, w2)) (rfold (drop_socket ctl) socks w1)
       else Inr (True, fails', srv\<lparr>ts_socks := socks\<rparr>, w1))"

text \<open>\<open>bind\<close> of one address, whose list of failures nobody sees.\<close>

definition server_bind_one ::
  "int \<Rightarrow> 'a bind_try \<Rightarrow> 'a TcpServer \<Rightarrow> hook_world \<Rightarrow> (bool \<times> 'a TcpServer \<times> hook_world) res" where
  "server_bind_one ctl b srv w = rmap (\<lambda>(ok, _, srv', w'). (ok, srv', w')) (server_bind ctl [b] [] srv w)"

section \<open>Accepting, starting and stopping\<close>

text \<open>
  The loop of \<open>startAccept\<close>: for each round whether the server has been stopped meanwhile and what
  \<open>accept\<close> returns, with the addresses of the new connection.
\<close>

record 'a accept_try =
  at_stop :: bool
  at_fd :: int
  at_local :: "'a option"
  at_remote :: "'a option"

fun startAccept ::
  "'a accept_try list \<Rightarrow> 'a Socket \<Rightarrow> 'a TcpServer \<Rightarrow> hook_world \<Rightarrow> ('a TcpServer \<times> hook_world) res" where
  "startAccept [] sock srv w = Inr (srv, w)"
| "startAccept (a # as) sock srv w =
     (if at_stop a then Inr (srv, w)
      else rbind (Socket_accept (at_fd a) (at_local a) (at_remote a) sock w) (\<lambda>(c, w1).
        case c of
          None \<Rightarrow> startAccept as sock srv w1
        | Some client \<Rightarrow>
            rbind (setRecvTimeout (ts_recvTimeout srv) client w1)
              (startAccept as sock (srv\<lparr>ts_io_tasks := ts_io_tasks srv @ [Handle_Client client]\<rparr>))))"

definition server_start :: "'a TcpServer \<Rightarrow> bool \<times> 'a TcpServer" where
  "server_start srv =
     (if \<not> ts_isStop srv then (True, srv)
      else (True, srv\<lparr>ts_isStop := False, ts_accept_tasks := ts_accept_tasks srv @ map Start_Accept (ts_socks srv)\<rparr>))"

definition server_stop :: "'a TcpServer \<Rightarrow> 'a TcpServer" where
  "server_stop srv = srv\<lparr>ts_isStop := True, ts_accept_tasks := ts_accept_tasks srv @ [Stop_Server]\<rparr>"

text \<open>The task that \<open>stop\<close> schedules.\<close>

definition stop_socket :: "int \<Rightarrow> 'a Socket \<Rightarrow> hook_world \<Rightarrow> hook_world res" where
  "stop_socket ctl s w =
     rbind (Socket_cancelAll ctl s w) (\<lambda>(_, w1). rmap (\<lambda>(_, _, w2). w2) (Socket_close ctl s w1))"

definition stop_task :: "int \<Rightarrow> 'a TcpServer \<Rightarrow> hook_world \<Rightarrow> ('a TcpServer \<times> hook_world) res" where
  "stop_task ctl srv w = rmap (\<lambda>w'. (srv\<lparr>ts_socks := []\<rparr>, w')) (rfold (stop_socket ctl) (ts_socks srv) w)"

text \<open>The destructor.\<close>

definition TcpServer_delete :: "int \<Rightarrow> 'a TcpServer \<Rightarrow> hook_world \<Rightarrow> ('a TcpServer \<times> hook_world) res" where
  "TcpServer_delete ctl srv w = rmap (\<lambda>w'. (srv\<lparr>ts_socks := []\<rparr>, w')) (rfold (drop_socket ctl) (ts_socks srv) w)"

section \<open>Printing\<close>

text \<open>
  \<open>worker\<close> and \<open>accept\<close> are the names of the event loops, if the server has them; a line of the list of
  sockets has the prefix twice, which stands for four blanks if it is empty.
\<close>

definition server_toString ::
  "('a \<Rightarrow> string) \<Rightarrow> string option \<Rightarrow> string option \<Rightarrow> string \<Rightarrow> 'a TcpServer \<Rightarrow> string" where
  "server_toString addr_str worker accept pre srv =
     pre @ ''[type='' @ ts_type srv @ '' name='' @ ts_name srv @
     '' worker='' @ (case worker of Some n \<Rightarrow> n | None \<Rightarrow> []) @
     '' accept='' @ (case accept of Some n \<Rightarrow> n | None \<Rightarrow> []) @
     '' recv_timeout='' @ dec_int (ts_recvTimeout srv) @ '']'' @ ''\<newline>'' @
     (let pfx = (if pre = [] then ''    '' else pre)
      in concat (map (\<lambda>i. pfx @ pfx @ Socket_dump addr_str i @ ''\<newline>'') (ts_socks srv)))"

section \<open>Facts\<close>

lemma bind_loop_correct:
  assumes "bind_loop ctl bs socks fails w = Inr (socks', fails', w')"
  shows "\<exists>new bad. socks' = socks @ new \<and> fails' = fails @ bad \<and> length new + length bad = length bs \<and>
    set bad \<subseteq> bt_addr ` set bs \<and> (\<forall>s \<in> set new. isValid s \<and> \<not> sk_isConnected s \<and> sk_family s = AF_INET_num)"
  using assms
proof (induction bs arbitrary: socks fails w)
  case (Cons b bs)
  obtain ok s w1 where 1: "Socket_bind (bt_family b) (bt_fd b) (bt_bind b) (bt_local b) CreateTCPSocket w = Inr (ok, s, w1)"
    using Cons.prems by (auto simp: dag_bind)
  show ?case
  proof (cases "\<not> ok \<or> \<not> Socket_listen (bt_listen b) s")
    case True
    with Cons.prems 1 obtain w2 where "bind_loop ctl bs socks (fails @ [bt_addr b]) w2 = Inr (socks', fails', w')"
      by (auto simp: dag_bind)
    from Cons.IH [OF this] obtain new bad where "socks' = socks @ new" "fails' = (fails @ [bt_addr b]) @ bad"
      "length new + length bad = length bs" "set bad \<subseteq> bt_addr ` set bs"
      "\<forall>s \<in> set new. isValid s \<and> \<not> sk_isConnected s \<and> sk_family s = AF_INET_num" by blast
    then show ?thesis by (intro exI [of _ new] exI [of _ "bt_addr b # bad"]) auto
  next
    case False
    have s: "isValid s \<and> \<not> sk_isConnected s \<and> sk_family s = AF_INET_num"
      using 1 False by (auto simp: Socket_bind_def ensure_sock_def newSock_eq CreateTCPSocket_def Socket_new_def Socket_listen_def
          isValid_def getLocalAddress_def Let_def dag_bind split: if_splits option.splits)
    have "bind_loop ctl bs (socks @ [s]) fails w1 = Inr (socks', fails', w')" using Cons.prems 1 False by simp
    from Cons.IH [OF this] obtain new bad where "socks' = (socks @ [s]) @ new" "fails' = fails @ bad"
      "length new + length bad = length bs" "set bad \<subseteq> bt_addr ` set bs"
      "\<forall>s \<in> set new. isValid s \<and> \<not> sk_isConnected s \<and> sk_family s = AF_INET_num" by blast
    with s show ?thesis by (intro exI [of _ "s # new"] exI [of _ bad]) auto
  qed
qed auto



text \<open>Binding one more address that fails gives up the sockets of the addresses bound before.\<close>

lemma bind_one_cases:
  assumes "server_bind_one ctl b srv w = Inr (ok, srv', w')"
  shows "if ok then \<exists>s. isValid s \<and> ts_socks srv' = ts_socks srv @ [s] else ts_socks srv' = []"
proof -
  obtain socks fails w1 where loop: "bind_loop ctl [b] (ts_socks srv) [] w = Inr (socks, fails, w1)"
    and ok: "ok \<longleftrightarrow> fails = []" and socks: "ts_socks srv' = (if ok then socks else [])"
    using assms by (auto simp: server_bind_one_def server_bind_def dag_bind simp del: bind_loop.simps split: if_splits)
  obtain new bad where "socks = ts_socks srv @ new" "fails = bad" "length new + length bad = 1" "\<forall>s \<in> set new. isValid s"
    using bind_loop_correct [OF loop] by auto
  with ok socks show ?thesis by (cases new) auto
qed

text \<open>Starting twice is starting once, and every socket gets its accepting task.\<close>

lemma server_start_once:
  "snd (server_start (snd (server_start srv))) = snd (server_start srv)"
  "ts_isStop srv \<Longrightarrow> ts_accept_tasks (snd (server_start srv)) = ts_accept_tasks srv @ map Start_Accept (ts_socks srv)"
  by (simp_all add: server_start_def)

text \<open>What stopping needs of a socket: an open hooked descriptor that the event loop knows.\<close>

definition stoppable :: "hook_world \<Rightarrow> 'a Socket \<Rightarrow> bool" where
  "stoppable w s \<longleftrightarrow> 0 \<le> sk_sock s \<and> nat (sk_sock s) < length (w_fdm w) \<and> w_fdm w ! nat (sk_sock s) \<noteq> None \<and>
     nat (sk_sock s) < length (m_fdContexts (w_io w))"

definition server_world :: "hook_world \<Rightarrow> bool" where
  "server_world w \<longleftrightarrow> io_reach (w_io w) \<and> t_hook_enable w \<and> has_iom w"

definition waiters :: "hook_world \<Rightarrow> 'a Socket \<Rightarrow> (nat, hook_cb callback) SchedulerTask list" where
  "waiters w s = woken (fc_events (m_fdContexts (w_io w) ! nat (sk_sock s))) (m_fdContexts (w_io w) ! nat (sk_sock s))"

text \<open>The descriptor is closed and no event is left for it.\<close>

definition released :: "hook_world \<Rightarrow> 'a Socket \<Rightarrow> bool" where
  "released w s \<longleftrightarrow> get_ctx (sk_sock s) w = Inr None \<and> fc_events (m_fdContexts (w_io w) ! nat (sk_sock s)) = 0"

lemma stop_socket_correct:
  assumes w: "server_world w" and s: "stoppable w s"
  shows "\<exists>w'. stop_socket 0 s w = Inr w' \<and> server_world w' \<and> released w' s \<and> queue w' = queue w @ waiters w s \<and>
    w_fdm w' = FdManager_del (sk_sock s) (w_fdm w) \<and>
    length (m_fdContexts (w_io w')) = length (m_fdContexts (w_io w)) \<and>
    (\<forall>i. i \<noteq> nat (sk_sock s) \<longrightarrow> m_fdContexts (w_io w') ! i = m_fdContexts (w_io w) ! i)"
proof -
  let ?fd = "sk_sock s"
  have reach: "io_reach (w_io w)" and on: "t_hook_enable w" "has_iom w" using w by (auto simp: server_world_def)
  obtain ctx where fd: "0 \<le> ?fd" "nat ?fd < length (w_fdm w)" "w_fdm w ! nat ?fd = Some ctx"
    "nat ?fd < length (m_fdContexts (w_io w))" using s by (auto simp: stoppable_def)
  have inv: "io_inv (w_io w)" using io_reach_inv [OF reach] by (simp add: io_all_inv_def)
  obtain r io1 where 1: "cancelAll ?fd 0 (w_io w) = Inr (r, io1)" "fc_events (m_fdContexts io1 ! nat ?fd) = 0"
    "m_tasks (io_sched io1) = queue w @ waiters w s" "length (m_fdContexts io1) = length (m_fdContexts (w_io w))"
    "\<forall>i. i \<noteq> nat ?fd \<longrightarrow> m_fdContexts io1 ! i = m_fdContexts (w_io w) ! i"
    using cancelAll_total [OF inv fd(1,4)] unfolding waiters_def by blast
  let ?w1 = "w\<lparr>w_io := io1\<rparr>"
  have "io_reach (w_io ?w1)" using io_next [OF reach io_cancel_all [OF 1(1)]] by simp
  then obtain w2 where 2: "hook_close ?fd 0 ?w1 = Inr w2" "get_ctx ?fd w2 = Inr None" "io_reach (w_io w2)"
    "t_hook_enable w2" "has_iom w2" "w_fdm w2 = FdManager_del ?fd (w_fdm w)" "fc_events (m_fdContexts (w_io w2) ! nat ?fd) = 0"
    "queue w2 = queue ?w1 @ woken 0 (m_fdContexts io1 ! nat ?fd)"
    "length (m_fdContexts (w_io w2)) = length (m_fdContexts io1)"
    "\<forall>i. i \<noteq> nat ?fd \<longrightarrow> m_fdContexts (w_io w2) ! i = m_fdContexts io1 ! i"
    using hook_close_correct [of ?w1 ?fd ctx] fd on 1(2,4) by auto
  have "Socket_close 0 s ?w1 = Inr (False, s\<lparr>sk_isConnected := False, sk_sock := - 1\<rparr>, close_f ?fd w2)"
    using fd(1) 2(1) by (auto simp: Socket_close_def Let_def)
  then have "stop_socket 0 s w = Inr (close_f ?fd w2)"
    using 1(1) on(2) by (simp add: stop_socket_def Socket_cancelAll_def)
  moreover have "get_ctx ?fd (close_f ?fd w2) = Inr None" using 2(2)
    by (auto simp: get_ctx_def close_f_def FdManager_get_def Let_def split: if_splits)
  ultimately show ?thesis using 1 2
    by (intro exI [of _ "close_f ?fd w2"]) (simp add: server_world_def released_def close_f_def woken_def)
qed

lemma stop_keeps_released:
  assumes "stop_socket 0 s w = Inr w'" "server_world w" "stoppable w s" "released w t" "nat (sk_sock t) \<noteq> nat (sk_sock s)" "0 \<le> sk_sock t"
  shows "released w' t"
proof -
  obtain w1 where "stop_socket 0 s w = Inr w1" "w_fdm w1 = FdManager_del (sk_sock s) (w_fdm w)"
    "\<forall>i. i \<noteq> nat (sk_sock s) \<longrightarrow> m_fdContexts (w_io w1) ! i = m_fdContexts (w_io w) ! i"
    using stop_socket_correct [OF assms(2,3)] by blast
  with assms show ?thesis
    by (auto simp: released_def get_ctx_def FdManager_get_def FdManager_del_def nth_list_update Let_def split: if_splits)
qed

lemma stop_keeps_stoppable:
  assumes "stop_socket 0 s w = Inr w'" "server_world w" "stoppable w s" "stoppable w t" "nat (sk_sock t) \<noteq> nat (sk_sock s)"
  shows "stoppable w' t \<and> waiters w' t = waiters w t"
proof -
  obtain w1 where "stop_socket 0 s w = Inr w1" "w_fdm w1 = FdManager_del (sk_sock s) (w_fdm w)"
    "length (m_fdContexts (w_io w1)) = length (m_fdContexts (w_io w))"
    "\<forall>i. i \<noteq> nat (sk_sock s) \<longrightarrow> m_fdContexts (w_io w1) ! i = m_fdContexts (w_io w) ! i"
    using stop_socket_correct [OF assms(2,3)] by blast
  with assms show ?thesis
    by (auto simp: stoppable_def waiters_def FdManager_del_def nth_list_update)
qed

lemma stop_sockets:
  assumes "server_world w" "\<forall>s \<in> set socks. stoppable w s" "distinct (map sk_sock socks)"
    and "\<forall>t \<in> set old. released w t \<and> 0 \<le> sk_sock t \<and> sk_sock t \<notin> sk_sock ` set socks"
  shows "\<exists>w'. rfold (stop_socket 0) socks w = Inr w' \<and> server_world w' \<and> (\<forall>s \<in> set socks \<union> set old. released w' s) \<and>
    queue w' = queue w @ concat (map (waiters w) socks)"
  using assms
proof (induction socks arbitrary: w old)
  case (Cons s socks)
  have s: "stoppable w s" by (simp add: Cons.prems(2))
  have pos: "0 \<le> sk_sock t" if "t \<in> set (s # socks)" for t
    using Cons.prems(2) that by (auto simp: stoppable_def)
  obtain w1 where 1: "stop_socket 0 s w = Inr w1" "server_world w1" "released w1 s" "queue w1 = queue w @ waiters w s"
    using stop_socket_correct [OF Cons.prems(1) s] by blast
  have ne: "nat (sk_sock t) \<noteq> nat (sk_sock s)" if "0 \<le> sk_sock t" "sk_sock t \<noteq> sk_sock s" for t :: "'a Socket"
    using that pos [of s] by auto
  have rest: "stoppable w1 t \<and> waiters w1 t = waiters w t" if t: "t \<in> set socks" for t
  proof -
    have "sk_sock t \<noteq> sk_sock s" using Cons.prems(3) t by (auto simp: image_iff)
    then have "nat (sk_sock t) \<noteq> nat (sk_sock s)" using ne [of t] pos [of t] t by simp
    then show ?thesis using stop_keeps_stoppable [OF 1(1) Cons.prems(1) s, of t] Cons.prems(2) t by simp
  qed
  have "\<forall>t \<in> set (s # old). released w1 t \<and> 0 \<le> sk_sock t \<and> sk_sock t \<notin> sk_sock ` set socks"
    using stop_keeps_released [OF 1(1) Cons.prems(1) s] Cons.prems(3,4) 1(3) ne pos [of s] by auto
  from Cons.IH [OF 1(2) _ _ this] rest Cons.prems(3) obtain w' where "rfold (stop_socket 0) socks w1 = Inr w'" "server_world w'"
    "\<forall>t \<in> set socks \<union> set (s # old). released w' t" "queue w' = queue w1 @ concat (map (waiters w1) socks)" by auto
  moreover have "map (waiters w1) socks = map (waiters w) socks" using rest by simp
  ultimately show ?case using 1 by auto
qed auto



text \<open>Each accepted connection is handed on once, in the order of acceptance.\<close>

lemma startAccept_hands_on:
  assumes "startAccept as sock srv w = Inr (srv', w')"
  shows "\<exists>clients. ts_io_tasks srv' = ts_io_tasks srv @ map Handle_Client clients \<and> length clients \<le> length as \<and>
    ts_socks srv' = ts_socks srv \<and> ts_accept_tasks srv' = ts_accept_tasks srv"
  using assms
proof (induction as arbitrary: srv w)
  case (Cons a as)
  show ?case
  proof (cases "at_stop a")
    case True
    with Cons.prems show ?thesis by simp
  next
    case False
    then obtain c w1 where 1: "Socket_accept (at_fd a) (at_local a) (at_remote a) sock w = Inr (c, w1)"
      using Cons.prems by (auto simp: dag_bind)
    show ?thesis
    proof (cases c)
      case None
      with Cons.prems Cons.IH [of srv w1] False 1 show ?thesis by force
    next
      case (Some client)
      then obtain w2 where "startAccept as sock (srv\<lparr>ts_io_tasks := ts_io_tasks srv @ [Handle_Client client]\<rparr>) w2 = Inr (srv', w')"
        using Cons.prems False 1 by (auto simp: dag_bind)
      from Cons.IH [OF this] obtain clients where
        "ts_io_tasks srv' = (ts_io_tasks srv @ [Handle_Client client]) @ map Handle_Client clients" "length clients \<le> length as"
        "ts_socks srv' = ts_socks srv" "ts_accept_tasks srv' = ts_accept_tasks srv" by auto
      then show ?thesis by (intro exI [of _ "client # clients"]) simp
    qed
  qed
qed auto

end
