(* ===== verification/Stream.thy ===== *)
theory Stream
  imports ByteArray_Codec ByteArray_IO
begin

text \<open>
  Streams, \<open>dag/stream.cpp\<close>: the loops that read or write a fixed number of bytes over an operation
  that may do less, from a memory buffer or from a \<open>ByteArray\<close>. The virtual functions \<open>read\<close> and
  \<open>write\<close> are arguments of the loops; two locales state what the loops rely on. The loops end for any
  such functions, because each round that goes on lowers the number of bytes left.
\<close>

section \<open>The loops\<close>

text \<open>\<open>buf\<close> is what the buffer holds so far: \<open>offset\<close> bytes.\<close>

function readFixSize_loop ::
  "(nat \<Rightarrow> 's \<Rightarrow> int \<times> byte list \<times> 's) \<Rightarrow> nat \<Rightarrow> int \<Rightarrow> byte list \<Rightarrow> 's \<Rightarrow> int \<times> byte list \<times> 's" where
  "readFixSize_loop read len left buf s =
     (if left > 0
      then case read (nat left) s of (n, bs, s') \<Rightarrow>
             if n \<le> 0 then (to_int32 n, buf, s') else readFixSize_loop read len (left - n) (buf @ bs) s'
      else (to_int32 (int len), buf, s))"
  by pat_completeness auto
termination
  by (relation "measure (\<lambda>(_, _, left, _). nat left)") auto

declare readFixSize_loop.simps [simp del]

definition readFixSize :: "(nat \<Rightarrow> 's \<Rightarrow> int \<times> byte list \<times> 's) \<Rightarrow> nat \<Rightarrow> 's \<Rightarrow> int \<times> byte list \<times> 's" where
  "readFixSize read len s = readFixSize_loop read len (int len) [] s"

function writeFixSize_loop ::
  "(byte list \<Rightarrow> 's \<Rightarrow> int \<times> 's) \<Rightarrow> nat \<Rightarrow> int \<Rightarrow> byte list \<Rightarrow> 's \<Rightarrow> int \<times> 's" where
  "writeFixSize_loop write len left buf s =
     (if left > 0
      then case write (take (nat left) buf) s of (n, s') \<Rightarrow>
             if n \<le> 0 then (to_int32 n, s') else writeFixSize_loop write len (left - n) (drop (nat n) buf) s'
      else (to_int32 (int len), s))"
  by pat_completeness auto
termination
  by (relation "measure (\<lambda>(_, _, left, _). nat left)") auto

declare writeFixSize_loop.simps [simp del]

definition writeFixSize :: "(byte list \<Rightarrow> 's \<Rightarrow> int \<times> 's) \<Rightarrow> byte list \<Rightarrow> 's \<Rightarrow> int \<times> 's" where
  "writeFixSize write buf s = writeFixSize_loop write (length buf) (int (length buf)) buf s"

text \<open>The loops over a \<open>ByteArray\<close>, which is part of the state; both have the same shape.\<close>

function fixSize_loop :: "(nat \<Rightarrow> 's \<Rightarrow> (int \<times> 's) res) \<Rightarrow> nat \<Rightarrow> int \<Rightarrow> 's \<Rightarrow> (int \<times> 's) res" where
  "fixSize_loop step len left s =
     (if left > 0
      then rbind (step (nat left) s) (\<lambda>(n, s').
             if n \<le> 0 then Inr (to_int32 n, s') else fixSize_loop step len (left - n) s')
      else Inr (to_int32 (int len), s))"
  by pat_completeness auto
termination
  by (relation "measure (\<lambda>(_, _, left, _). nat left)") auto

declare fixSize_loop.simps [simp del]

definition readFixSize_ba :: "(nat \<Rightarrow> 's \<Rightarrow> (int \<times> 's) res) \<Rightarrow> nat \<Rightarrow> 's \<Rightarrow> (int \<times> 's) res" where
  "readFixSize_ba read len s = fixSize_loop read len (int len) s"

definition writeFixSize_ba :: "(nat \<Rightarrow> 's \<Rightarrow> (int \<times> 's) res) \<Rightarrow> nat \<Rightarrow> 's \<Rightarrow> (int \<times> 's) res" where
  "writeFixSize_ba write len s = fixSize_loop write len (int len) s"

section \<open>What the loops rely on\<close>

text \<open>
  A source of bytes: a successful \<open>read\<close> returns the next of the bytes to come, no more than asked
  for; otherwise it takes nothing.
\<close>

locale byte_source =
  fixes rd :: "nat \<Rightarrow> 's \<Rightarrow> int \<times> byte list \<times> 's"
    and coming :: "'s \<Rightarrow> byte list"
  assumes rd_spec: "rd n s = (r, bs, s') \<Longrightarrow>
    - 1 \<le> r \<and> (if r > 0 then int (length bs) = r \<and> length bs \<le> n \<and> coming s = bs @ coming s'
                else coming s' = coming s)"
begin

lemma readFixSize_loop_correct:
  assumes "readFixSize_loop rd len left buf s = (r, buf', s')" "0 \<le> left"
  shows "\<exists>bs. buf' = buf @ bs \<and> coming s = bs @ coming s' \<and>
    (r = to_int32 (int len) \<and> length bs = nat left \<or> (r = 0 \<or> r = - 1) \<and> length bs < nat left)"
  using assms
proof (induction "nat left" arbitrary: left buf s rule: less_induct)
  case less
  show ?case
  proof (cases "left > 0")
    case False
    with less.prems show ?thesis by (simp add: readFixSize_loop.simps [of _ _ left])
  next
    case True
    obtain n bs s1 where rd: "rd (nat left) s = (n, bs, s1)" by (metis prod_cases3)
    note spec = rd_spec [OF rd]
    show ?thesis
    proof (cases "n \<le> 0")
      case n: True
      then have "n = 0 \<or> n = - 1" using spec by auto
      with less.prems True rd n spec show ?thesis
        by (auto simp: readFixSize_loop.simps [of _ _ left] to_int32_small split: if_splits)
    next
      case False
      then have bs: "int (length bs) = n" "length bs \<le> nat left" "coming s = bs @ coming s1" using spec by auto
      then have "n \<le> left" using True by linarith
      have "readFixSize_loop rd len (left - n) (buf @ bs) s1 = (r, buf', s')"
        using less.prems(1) True rd False by (simp add: readFixSize_loop.simps [of _ _ left])
      from less.hyps [OF _ this] obtain bs' where "buf' = buf @ bs @ bs'" "coming s1 = bs' @ coming s'"
        "r = to_int32 (int len) \<and> length bs' = nat (left - n) \<or> (r = 0 \<or> r = - 1) \<and> length bs' < nat (left - n)"
        using True False \<open>n \<le> left\<close> by auto
      with bs True False show ?thesis by (intro exI [of _ "bs @ bs'"]) auto
    qed
  qed
qed

lemma readFixSize_correct:
  assumes "readFixSize rd len s = (r, buf, s')" "len < 2 ^ 31"
  shows "coming s = buf @ coming s' \<and> (r = int len \<and> length buf = len \<or> (r = 0 \<or> r = - 1) \<and> length buf < len)"
  using readFixSize_loop_correct [of len "int len" "[]" s] assms
  by (auto simp: readFixSize_def to_int32_small)

end

text \<open>A sink of bytes: a successful \<open>write\<close> passes on a part of the buffer from its beginning.\<close>

locale byte_sink =
  fixes wr :: "byte list \<Rightarrow> 's \<Rightarrow> int \<times> 's"
    and gone :: "'s \<Rightarrow> byte list"
  assumes wr_spec: "wr bs s = (r, s') \<Longrightarrow>
    - 1 \<le> r \<and> (if r > 0 then r \<le> int (length bs) \<and> gone s' = gone s @ take (nat r) bs else gone s' = gone s)"
begin

lemma writeFixSize_loop_correct:
  assumes "writeFixSize_loop wr len left buf s = (r, s')" "left = int (length buf)"
  shows "\<exists>k \<le> length buf. gone s' = gone s @ take k buf \<and>
    (r = to_int32 (int len) \<and> k = length buf \<or> (r = 0 \<or> r = - 1) \<and> k < length buf)"
  using assms
proof (induction "nat left" arbitrary: left buf s rule: less_induct)
  case less
  show ?case
  proof (cases "left > 0")
    case False
    with less.prems show ?thesis by (auto simp: writeFixSize_loop.simps [of _ _ 0])
  next
    case True
    obtain n s1 where wr: "wr (take (nat left) buf) s = (n, s1)" by fastforce
    note spec = wr_spec [OF wr]
    show ?thesis
    proof (cases "n \<le> 0")
      case n: True
      then have "n = 0 \<or> n = - 1" using spec by auto
      with less.prems True wr n spec show ?thesis
        by (intro exI [of _ 0]) (auto simp: writeFixSize_loop.simps [of _ _ "int (length buf)"] to_int32_small split: if_splits)
    next
      case False
      then have n: "n \<le> left" "gone s1 = gone s @ take (nat n) buf" using spec less.prems(2) by auto
      have "writeFixSize_loop wr len (left - n) (drop (nat n) buf) s1 = (r, s')"
        using less.prems(1) True wr False by (simp add: writeFixSize_loop.simps [of _ _ left])
      from less.hyps [OF _ this] obtain k where "k \<le> length (drop (nat n) buf)"
        "gone s' = gone s1 @ take k (drop (nat n) buf)"
        "r = to_int32 (int len) \<and> k = length (drop (nat n) buf) \<or> (r = 0 \<or> r = - 1) \<and> k < length (drop (nat n) buf)"
        using True False n less.prems(2) by (auto simp: nat_less_iff)
      with n False less.prems(2) show ?thesis by (intro exI [of _ "nat n + k"]) (auto simp: take_add)
    qed
  qed
qed

lemma writeFixSize_correct:
  assumes "writeFixSize wr buf s = (r, s')" "length buf < 2 ^ 31"
  shows "\<exists>k \<le> length buf. gone s' = gone s @ take k buf \<and> (r = int (length buf) \<and> k = length buf \<or> (r = 0 \<or> r = - 1) \<and> k < length buf)"
  using writeFixSize_loop_correct [of "length buf" "int (length buf)" buf s] assms
  by (auto simp: writeFixSize_def to_int32_small)

end

end
