(* ===== verification/SocketStream.thy ===== *)
theory SocketStream
  imports Stream Socket
begin

text \<open>
  Streams over sockets, \<open>dag/stream/socket_stream.cpp\<close>. The connection is a record: the bytes that have arrived
  and those that were sent, and how much each further call of \<open>recv\<close> or \<open>send\<close> moves at most (a
  negative entry is a failing call; when there is no entry the peer has closed). Vectored calls fill or
  collect the buffers that \<open>ByteArray\<close> hands out.
\<close>

section \<open>Connections\<close>

record channel =
  ch_in :: "byte list"
  ch_out :: "byte list"
  ch_plan :: "int list"

definition os_recv :: "nat \<Rightarrow> channel \<Rightarrow> int \<times> byte list \<times> channel" where
  "os_recv n ch =
     (case ch_plan ch of
        [] \<Rightarrow> (0, [], ch)
      | p # ps \<Rightarrow>
          if p < 0 then (- 1, [], ch\<lparr>ch_plan := ps\<rparr>)
          else let k = min n (min (nat p) (length (ch_in ch))) in
            (int k, take k (ch_in ch), ch\<lparr>ch_in := drop k (ch_in ch), ch_plan := ps\<rparr>))"

definition os_send :: "byte list \<Rightarrow> channel \<Rightarrow> int \<times> channel" where
  "os_send bs ch =
     (case ch_plan ch of
        [] \<Rightarrow> (- 1, ch)
      | p # ps \<Rightarrow>
          if p < 0 then (- 1, ch\<lparr>ch_plan := ps\<rparr>)
          else let k = min (length bs) (nat p) in
            (int k, ch\<lparr>ch_out := ch_out ch @ take k bs, ch_plan := ps\<rparr>))"

section \<open>The stream\<close>

record 'a SocketStream =
  ss_socket :: "'a Socket option"
  ss_owner :: bool

definition SocketStream_new :: "'a Socket option \<Rightarrow> bool \<Rightarrow> 'a SocketStream" where
  "SocketStream_new sock owner = \<lparr>ss_socket = sock, ss_owner = owner\<rparr>"

definition ss_isConnected :: "'a SocketStream \<Rightarrow> bool" where
  "ss_isConnected ss = (case ss_socket ss of None \<Rightarrow> False | Some s \<Rightarrow> sk_isConnected s)"

definition ss_read :: "'a SocketStream \<Rightarrow> nat \<Rightarrow> channel \<Rightarrow> int \<times> byte list \<times> channel" where
  "ss_read ss n ch = (if \<not> ss_isConnected ss then (- 1, [], ch) else os_recv n ch)"

definition ss_write :: "'a SocketStream \<Rightarrow> byte list \<Rightarrow> channel \<Rightarrow> int \<times> channel" where
  "ss_write ss bs ch = (if \<not> ss_isConnected ss then (- 1, ch) else os_send bs ch)"

text \<open>\<open>&iovs[0]\<close> on an empty vector is an access out of bounds.\<close>

definition ss_read_ba :: "'a SocketStream \<Rightarrow> nat \<Rightarrow> channel \<times> ByteArray \<Rightarrow> (int \<times> channel \<times> ByteArray) res" where
  "ss_read_ba ss n = (\<lambda>(ch, ba).
     if \<not> ss_isConnected ss then Inr (- 1, ch, ba)
     else rbind (getWriteBuffers n ba) (\<lambda>(_, iovs, ba1).
       if iovs = [] then Inl Out_Of_Bounds
       else case os_recv (sum_list (map iov_len iovs)) ch of (rt, bs, ch') \<Rightarrow>
         rbind (iov_scatter iovs bs ba1) (\<lambda>ba2.
           if rt > 0 then rmap (\<lambda>ba3. (rt, ch', ba3)) (setPosition (m_position ba2 + nat rt) ba2)
           else Inr (rt, ch', ba2))))"

definition ss_write_ba :: "'a SocketStream \<Rightarrow> nat \<Rightarrow> channel \<times> ByteArray \<Rightarrow> (int \<times> channel \<times> ByteArray) res" where
  "ss_write_ba ss n = (\<lambda>(ch, ba).
     if \<not> ss_isConnected ss then Inr (- 1, ch, ba)
     else rbind (getReadBuffers n ba) (\<lambda>(_, iovs).
       if iovs = [] then Inl Out_Of_Bounds
       else rbind (iov_gather iovs ba) (\<lambda>bs.
         case os_send bs ch of (rt, ch') \<Rightarrow>
           if rt > 0 then rmap (\<lambda>ba3. (rt, ch', ba3)) (setPosition (m_position ba + nat rt) ba)
           else Inr (rt, ch', ba))))"

definition ss_close :: "int \<Rightarrow> 'a SocketStream \<Rightarrow> hook_world \<Rightarrow> ('a SocketStream \<times> hook_world) res" where
  "ss_close ctl ss w =
     (case ss_socket ss of
        None \<Rightarrow> Inr (ss, w)
      | Some s \<Rightarrow> rmap (\<lambda>(_, s', w'). (ss\<lparr>ss_socket := Some s'\<rparr>, w')) (Socket_close ctl s w))"

text \<open>The destructor closes the socket if the stream owns it.\<close>

definition SocketStream_delete :: "int \<Rightarrow> 'a SocketStream \<Rightarrow> hook_world \<Rightarrow> ('a SocketStream \<times> hook_world) res" where
  "SocketStream_delete ctl ss w = (if ss_owner ss then ss_close ctl ss w else Inr (ss, w))"

definition ss_getRemoteAddress :: "'a option \<Rightarrow> 'a SocketStream \<Rightarrow> 'a sock_addr option \<times> 'a SocketStream" where
  "ss_getRemoteAddress name ss =
     (case ss_socket ss of
        None \<Rightarrow> (None, ss)
      | Some s \<Rightarrow> (case getRemoteAddress name s of (a, s') \<Rightarrow> (Some a, ss\<lparr>ss_socket := Some s'\<rparr>)))"

definition ss_getLocalAddress :: "'a option \<Rightarrow> 'a SocketStream \<Rightarrow> 'a sock_addr option \<times> 'a SocketStream" where
  "ss_getLocalAddress name ss =
     (case ss_socket ss of
        None \<Rightarrow> (None, ss)
      | Some s \<Rightarrow> (case getLocalAddress name s of (a, s') \<Rightarrow> (Some a, ss\<lparr>ss_socket := Some s'\<rparr>)))"

definition ss_getRemoteAddressString :: "byte_order \<Rightarrow> Address option \<Rightarrow> Address SocketStream \<Rightarrow> string \<times> Address SocketStream" where
  "ss_getRemoteAddressString host name ss =
     (case ss_getRemoteAddress name ss of
        (Some addr, ss') \<Rightarrow> (sock_addr_toString (Address_toString host) addr, ss')
      | (None, ss') \<Rightarrow> ([], ss'))"

section \<open>The stream is a source and a sink of bytes\<close>

interpretation socket_source: byte_source "ss_read ss" ch_in for ss
proof (unfold_locales, goal_cases)
  case (1 n s r bs s')
  then show ?case by (auto simp: ss_read_def os_recv_def Let_def split: if_splits list.splits)
qed

interpretation socket_sink: byte_sink "ss_write ss" ch_out for ss
proof (unfold_locales, goal_cases)
  case (1 bs s r s')
  then show ?case by (auto simp: ss_write_def os_send_def Let_def split: if_splits list.splits)
qed

text \<open>
  Over a socket \<open>readFixSize\<close> and \<open>writeFixSize\<close> neither lose, repeat nor reorder a byte, however the
  system cuts the transfer: the buffer received is a prefix of what was to come and the bytes sent are
  a prefix of the buffer; the calls return the full length exactly when all of it was moved, and
  otherwise 0 or -1.
\<close>

lemma stream_moves_prefix:
  assumes "len < 2 ^ 31"
  shows "(case readFixSize (ss_read ss) len ch of (r, buf, ch') \<Rightarrow>
      ch_in ch = buf @ ch_in ch' \<and> (r = int len \<and> length buf = len \<or> (r = 0 \<or> r = - 1) \<and> length buf < len)) \<and>
    (length out = len \<longrightarrow> (case writeFixSize (ss_write ss) out ch of (r, ch') \<Rightarrow>
      \<exists>k \<le> len. ch_out ch' = ch_out ch @ take k out \<and> (r = int len \<and> k = len \<or> (r = 0 \<or> r = - 1) \<and> k < len)))"
  using assms by (auto dest: socket_source.readFixSize_correct socket_sink.writeFixSize_correct)

lemma stream_moves_prefix_witness:
  "ss_isConnected (SocketStream_new (Some (CreateTCPSocket\<lparr>sk_sock := 5, sk_isConnected := True\<rparr> :: nat Socket)) True) \<and>
   (case readFixSize (ss_read (SocketStream_new (Some (CreateTCPSocket\<lparr>sk_sock := 5, sk_isConnected := True\<rparr> :: nat Socket)) True)) 3
      \<lparr>ch_in = [1, 2, 3, 4], ch_out = [], ch_plan = [2, 1]\<rparr> of (r, buf, ch') \<Rightarrow> [1, 2, 3, 4] = buf @ ch_in ch')"
  using stream_moves_prefix [where len = 3 and out = "[]" and ch = "\<lparr>ch_in = [1, 2, 3, 4], ch_out = [], ch_plan = [2, 1]\<rparr>" and
      ss = "SocketStream_new (Some (CreateTCPSocket\<lparr>sk_sock := 5, sk_isConnected := True\<rparr> :: nat Socket)) True"]
  by (auto simp: ss_isConnected_def SocketStream_new_def)

section \<open>Transfers between byte arrays\<close>

lemma iov_loop_total: "iov_loop cur npos ncap n ba = Inr iovs \<Longrightarrow> sum_list (map iov_len iovs) = n"
proof (induction cur npos ncap n ba arbitrary: iovs rule: iov_loop.induct)
  case (1 cur npos ncap len ba)
  show ?case
  proof (cases "len = 0 \<or> (\<exists>c. cur = Some c \<and> len \<le> ncap)")
    case True
    with "1.prems" show ?thesis by (auto simp: iov_loop.simps [of _ _ _ len] split: if_splits)
  next
    case False
    then obtain c sz vs where c: "cur = Some c" "\<not> len \<le> ncap" "len \<noteq> 0" "node_size ba (node_next ba c) = Inr sz"
      "iov_loop (node_next ba c) 0 sz (len - ncap) ba = Inr vs"
      "iovs = \<lparr>iov_node = c, iov_off = npos, iov_len = ncap\<rparr> # vs"
      using "1.prems" by (cases cur) (auto simp: iov_loop.simps [of _ _ _ len] dag_bind split: if_splits)
    with "1.IH" [OF c(3,1,2,4,5)] show ?thesis by simp
  qed
qed

lemma getWriteBuffers_frame:
  assumes "ba_inv ba" "getWriteBuffers n ba = Inr (m, iovs, ba1)" "0 < n"
  shows "m_position ba1 = m_position ba \<and> m_endian ba1 = m_endian ba \<and> sum_list (map iov_len iovs) = n \<and> iovs \<noteq> []"
proof -
  obtain r cap cur where a: "addCapacity n ba = Inr (ba\<lparr>m_root := m_root ba @ r, m_capacity := cap, m_cur := cur\<rparr>)"
    using addCapacity_correct [OF assms(1)] by metis
  then have "sum_list (map iov_len iovs) = n" "m_position ba1 = m_position ba" "m_endian ba1 = m_endian ba"
    using assms(2,3) by (auto simp: getWriteBuffers_def Let_def dag_bind dest: iov_loop_total split: if_splits)
  with assms(3) show ?thesis by auto
qed

lemma ss_read_ba_correct:
  assumes inv: "ba_inv ba" and conn: "ss_isConnected ss" and n: "0 < n" and os: "os_recv n ch = (r, bs, ch')"
  shows "\<exists>ba'. ss_read_ba ss n (ch, ba) = Inr (r, ch', ba') \<and> ba_inv ba' \<and> m_endian ba' = m_endian ba \<and>
    (contents ba', m_position ba') = (if r > 0 then spec_write bs (contents ba, m_position ba) else (contents ba, m_position ba))"
proof -
  have bs: "length bs \<le> n" "r > 0 \<Longrightarrow> nat r = length bs" "\<not> r > 0 \<Longrightarrow> bs = []"
    using os by (auto simp: os_recv_def Let_def split: list.splits if_splits)
  obtain iovs ba1 ba2 ba3 where g: "getWriteBuffers n ba = Inr (n, iovs, ba1)" "ba_inv ba1" "contents ba1 = contents ba"
    "iov_scatter iovs bs ba1 = Inr ba2" "setPosition (m_position ba + length bs) ba2 = Inr ba3" "ba_inv ba3"
    "(contents ba3, m_position ba3) = spec_write bs (contents ba, m_position ba)" "m_endian ba3 = m_endian ba"
    using getWriteBuffers_correct [OF inv bs(1)] by blast
  note frame = getWriteBuffers_frame [OF inv g(1) n]
  have ba2: "m_position ba2 = m_position ba"
    using iov_scatter_chain [OF g(4)] frame by (cases ba1; cases ba2) simp
  have run: "ss_read_ba ss n (ch, ba) =
      (if r > 0 then rmap (\<lambda>ba3. (r, ch', ba3)) (setPosition (m_position ba2 + nat r) ba2) else Inr (r, ch', ba2))"
    using conn g(1,4) frame os by (simp add: ss_read_ba_def)
  show ?thesis
  proof (cases "r > 0")
    case True
    then show ?thesis using run ba2 bs(2) g(5-8) by simp
  next
    case False
    then have "ba2 = ba1" using g(4) bs(3) by simp
    then show ?thesis using run False g(2,3) frame by simp
  qed
qed

text \<open>A connection on which the next \<open>n\<close> calls each move at least one byte.\<close>

definition flowing :: "nat \<Rightarrow> channel \<Rightarrow> bool" where
  "flowing n ch \<longleftrightarrow> n \<le> length (ch_plan ch) \<and> (\<forall>p \<in> set (ch_plan ch). 1 \<le> p)"

lemma os_recv_flowing:
  assumes "flowing n ch" "0 < n" "n \<le> length (ch_in ch)"
  shows "\<exists>k ch'. 0 < k \<and> k \<le> n \<and> os_recv n ch = (int k, take k (ch_in ch), ch') \<and> flowing (n - k) ch' \<and>
    ch_in ch' = drop k (ch_in ch) \<and> ch_out ch' = ch_out ch"
proof -
  obtain p ps where p: "ch_plan ch = p # ps" "1 \<le> p" "n \<le> Suc (length ps)" "\<forall>q \<in> set ps. 1 \<le> q"
    using assms(1,2) by (cases "ch_plan ch") (auto simp: flowing_def)
  let ?k = "min n (min (nat p) (length (ch_in ch)))"
  have "0 < ?k" using p(2) assms(2,3) by auto
  moreover from this have "n - ?k \<le> length ps" using p(3) by linarith
  ultimately show ?thesis using p
    by (intro exI [of _ ?k] exI [of _ "ch\<lparr>ch_in := drop ?k (ch_in ch), ch_plan := ps\<rparr>"])
      (simp add: os_recv_def flowing_def Let_def)
qed

lemma os_send_flowing:
  assumes "flowing (length bs) ch" "bs \<noteq> []"
  shows "\<exists>k ch'. 0 < k \<and> k \<le> length bs \<and> os_send bs ch = (int k, ch') \<and> flowing (length bs - k) ch' \<and>
    ch_out ch' = ch_out ch @ take k bs \<and> ch_in ch' = ch_in ch"
proof -
  obtain p ps where p: "ch_plan ch = p # ps" "1 \<le> p" "length bs \<le> Suc (length ps)" "\<forall>q \<in> set ps. 1 \<le> q"
    using assms by (cases "ch_plan ch") (auto simp: flowing_def)
  let ?k = "min (length bs) (nat p)"
  have "0 < ?k" using p(2) assms(2) by auto
  moreover from this have "length bs - ?k \<le> length ps" using p(3) by linarith
  ultimately show ?thesis using p
    by (intro exI [of _ ?k] exI [of _ "ch\<lparr>ch_out := ch_out ch @ take ?k bs, ch_plan := ps\<rparr>"])
      (simp add: os_send_def flowing_def Let_def)
qed

lemma receive_loop:
  assumes "flowing n ch" "n \<le> length (ch_in ch)" "ba_inv ba" "ss_isConnected ss"
  shows "\<exists>ch' ba'. fixSize_loop (ss_read_ba ss) len (int n) (ch, ba) = Inr (to_int32 (int len), ch', ba') \<and>
    ba_inv ba' \<and> (contents ba', m_position ba') = spec_write (take n (ch_in ch)) (contents ba, m_position ba) \<and>
    ch_in ch' = drop n (ch_in ch) \<and> ch_out ch' = ch_out ch"
  using assms
proof (induction n arbitrary: ch ba rule: less_induct)
  case (less n)
  have pos: "m_position ba \<le> length (contents ba)" by (rule chain.pos_le [OF less.prems(3)])
  show ?case
  proof (cases "n = 0")
    case True
    with less.prems(3) pos show ?thesis by (simp add: fixSize_loop.simps [of _ _ 0])
  next
    case False
    obtain k ch1 where k: "0 < k" "k \<le> n" "os_recv n ch = (int k, take k (ch_in ch), ch1)" "flowing (n - k) ch1"
      "ch_in ch1 = drop k (ch_in ch)" "ch_out ch1 = ch_out ch"
      using os_recv_flowing [OF less.prems(1) _ less.prems(2)] False by auto
    obtain ba1 where ba1: "ss_read_ba ss n (ch, ba) = Inr (int k, ch1, ba1)" "ba_inv ba1"
      "(contents ba1, m_position ba1) = spec_write (take k (ch_in ch)) (contents ba, m_position ba)"
      using ss_read_ba_correct [OF less.prems(3,4) _ k(3)] False k(1) by auto
    have left: "n - k \<le> length (ch_in ch1)" using less.prems(2) k(5) by (simp add: diff_le_mono)
    obtain ch' ba' where r: "fixSize_loop (ss_read_ba ss) len (int (n - k)) (ch1, ba1) = Inr (to_int32 (int len), ch', ba')"
      "ba_inv ba'" "(contents ba', m_position ba') = spec_write (take (n - k) (ch_in ch1)) (contents ba1, m_position ba1)"
      "ch_in ch' = drop (n - k) (ch_in ch1)" "ch_out ch' = ch_out ch1"
      using less.IH [OF _ k(4) left ba1(2) less.prems(4)] k(1) False by auto
    have "take k (ch_in ch) @ take (n - k) (drop k (ch_in ch)) = take n (ch_in ch)"
      using k(2) by (simp add: take_add [symmetric])
    then have "(contents ba', m_position ba') = spec_write (take n (ch_in ch)) (contents ba, m_position ba)"
      using r(3) ba1(3) k(5) spec_write_append [OF pos, of "take (n - k) (drop k (ch_in ch))" "take k (ch_in ch)"] by simp
    moreover have "fixSize_loop (ss_read_ba ss) len (int n) (ch, ba) = Inr (to_int32 (int len), ch', ba')"
      using False ba1(1) k(1,2) r(1) by (simp add: fixSize_loop.simps [of _ _ "int n"] of_nat_diff)
    ultimately show ?thesis using r k by simp
  qed
qed

lemma ss_write_ba_correct:
  assumes inv: "ba_inv ba" and conn: "ss_isConnected ss" and n: "0 < n" "m_position ba + n \<le> length (contents ba)"
    and os: "os_send (take n (drop (m_position ba) (contents ba))) ch = (int k, ch')" "0 < k" "k \<le> n"
  shows "\<exists>ba'. ss_write_ba ss n (ch, ba) = Inr (int k, ch', ba') \<and> ba_inv ba' \<and> contents ba' = contents ba \<and>
    m_position ba' = m_position ba + k"
proof -
  let ?bs = "take n (drop (m_position ba) (contents ba))"
  obtain iovs where g: "getReadBuffers n ba = Inr (min n (m_size ba - m_position ba), iovs)" "iov_gather iovs ba = Inr ?bs"
    using getReadBuffers_correct [OF inv] by blast
  have "?bs \<noteq> []" using n by auto
  then have "iovs \<noteq> []" using g(2) by auto
  moreover obtain ba' where "setPosition (m_position ba + k) ba = Inr ba'" "ba_inv ba'" "contents ba' = contents ba"
    "m_position ba' = m_position ba + k"
    using chain.seek_spec [OF inv, of "m_position ba + k"] n(2) os(3) by auto
  ultimately show ?thesis using conn g os by (simp add: ss_write_ba_def)
qed

lemma send_loop:
  assumes "flowing n ch" "m_position ba + n \<le> length (contents ba)" "ba_inv ba" "ss_isConnected ss"
  shows "\<exists>ch' ba'. fixSize_loop (ss_write_ba ss) len (int n) (ch, ba) = Inr (to_int32 (int len), ch', ba') \<and>
    ba_inv ba' \<and> contents ba' = contents ba \<and> m_position ba' = m_position ba + n \<and>
    ch_out ch' = ch_out ch @ take n (drop (m_position ba) (contents ba)) \<and> ch_in ch' = ch_in ch"
  using assms
proof (induction n arbitrary: ch ba rule: less_induct)
  case (less n)
  let ?bs = "take n (drop (m_position ba) (contents ba))"
  show ?case
  proof (cases "n = 0")
    case True
    with less.prems(3) show ?thesis by (simp add: fixSize_loop.simps [of _ _ 0])
  next
    case False
    have len: "length ?bs = n" using less.prems(2) by simp
    obtain k ch1 where k: "0 < k" "k \<le> n" "os_send ?bs ch = (int k, ch1)" "flowing (n - k) ch1"
      "ch_out ch1 = ch_out ch @ take k ?bs" "ch_in ch1 = ch_in ch"
      using os_send_flowing [of ?bs ch] less.prems(1) len False by (metis length_greater_0_conv neq0_conv)
    obtain ba1 where ba1: "ss_write_ba ss n (ch, ba) = Inr (int k, ch1, ba1)" "ba_inv ba1" "contents ba1 = contents ba"
      "m_position ba1 = m_position ba + k"
      using ss_write_ba_correct [OF less.prems(3,4) _ less.prems(2) k(3,1,2)] False by auto
    obtain ch' ba' where r: "fixSize_loop (ss_write_ba ss) len (int (n - k)) (ch1, ba1) = Inr (to_int32 (int len), ch', ba')"
      "ba_inv ba'" "contents ba' = contents ba1" "m_position ba' = m_position ba1 + (n - k)"
      "ch_out ch' = ch_out ch1 @ take (n - k) (drop (m_position ba1) (contents ba1))" "ch_in ch' = ch_in ch1"
      using less.IH [of "n - k" ch1 ba1] k less.prems(2,4) ba1 False by auto
    have "take k ?bs @ take (n - k) (drop (m_position ba + k) (contents ba)) = ?bs"
    proof -
      have "take n xs = take k (take n xs) @ take (n - k) (drop k xs)" for xs :: "byte list"
        using k(2) take_add [of k "n - k" xs] by (simp add: min_def)
      then show ?thesis by (metis add.commute drop_drop)
    qed
    moreover have "fixSize_loop (ss_write_ba ss) len (int n) (ch, ba) = Inr (to_int32 (int len), ch', ba')"
      using False ba1(1) k(1,2) r(1) by (simp add: fixSize_loop.simps [of _ _ "int n"] of_nat_diff)
    ultimately show ?thesis using r k ba1 by simp
  qed
qed

text \<open>
  C13: a message sent from one byte array with \<open>writeFixSize\<close> and received into another one with
  \<open>readFixSize\<close> arrives unchanged, whatever the block sizes of the arrays and however the system cuts
  the transfer into pieces: both calls return its length, the receiver's array is the one that a
  write of these bytes gives, and the sender's position moves behind them.
\<close>

theorem message_transfer:
  assumes "ba_inv src" "ba_inv dst" "ss_isConnected ss" "ss_isConnected ss'" "n < 2 ^ 31"
    and "m_position src + n \<le> length (contents src)" "ch_out ch = []" "flowing n ch" "flowing n ch2"
  shows "\<exists>ch' src'. writeFixSize_ba (ss_write_ba ss) n (ch, src) = Inr (int n, ch', src') \<and>
    contents src' = contents src \<and> m_position src' = m_position src + n \<and>
    (\<exists>ch2' dst'. readFixSize_ba (ss_read_ba ss') n (ch2\<lparr>ch_in := ch_out ch'\<rparr>, dst) = Inr (int n, ch2', dst') \<and>
       (contents dst', m_position dst') =
         spec_write (take n (drop (m_position src) (contents src))) (contents dst, m_position dst) \<and> ch_in ch2' = [])"
proof -
  have n: "to_int32 (int n) = int n" using assms(5) by (intro to_int32_small) auto
  obtain ch' src' where s: "writeFixSize_ba (ss_write_ba ss) n (ch, src) = Inr (int n, ch', src')"
    "contents src' = contents src" "m_position src' = m_position src + n"
    "ch_out ch' = take n (drop (m_position src) (contents src))"
    using send_loop [OF assms(8,6,1,3), of n] assms(7) n by (auto simp: writeFixSize_ba_def)
  have "flowing n (ch2\<lparr>ch_in := ch_out ch'\<rparr>)" "length (ch_out ch') = n" using assms(6,9) s(4) by (simp_all add: flowing_def)
  then have "\<exists>ch2' dst'. readFixSize_ba (ss_read_ba ss') n (ch2\<lparr>ch_in := ch_out ch'\<rparr>, dst) = Inr (int n, ch2', dst') \<and>
      (contents dst', m_position dst') = spec_write (ch_out ch') (contents dst, m_position dst) \<and> ch_in ch2' = []"
    using receive_loop [of n "ch2\<lparr>ch_in := ch_out ch'\<rparr>" dst ss' n] assms(2,4) n by (auto simp: readFixSize_ba_def)
  with s show ?thesis by auto
qed

theorem message_transfer_witness:
  "\<exists>src ch' src' ch2' dst'.
     writeFixSize_ba (ss_write_ba \<lparr>ss_socket = Some ((Socket_new 2 1 0 :: nat Socket)\<lparr>sk_isConnected := True\<rparr>), ss_owner = True\<rparr>) 3
       (\<lparr>ch_in = [], ch_out = [], ch_plan = [2, 2, 2]\<rparr>, src) = Inr (3, ch', src') \<and>
     readFixSize_ba (ss_read_ba \<lparr>ss_socket = Some ((Socket_new 2 1 0 :: nat Socket)\<lparr>sk_isConnected := True\<rparr>), ss_owner = True\<rparr>) 3
       (\<lparr>ch_in = ch_out ch', ch_out = [], ch_plan = [1, 1, 1]\<rparr>, ByteArray_new (\<lambda>_. 0) 2) = Inr (3, ch2', dst') \<and>
     contents dst' = [7, 8, 9]"
proof -
  let ?ss = "\<lparr>ss_socket = Some ((Socket_new 2 1 0 :: nat Socket)\<lparr>sk_isConnected := True\<rparr>), ss_owner = True\<rparr>"
  obtain a where a: "ba_write [7, 8, 9] (ByteArray_new (\<lambda>_. 0) 2) = Inr a" "ba_inv a" "contents a = [7, 8, 9]"
    using ba_write_correct [OF ba_inv_new [of 2 "\<lambda>_. 0"], of "[7, 8, 9]"] by (auto simp: spec_write_def contents_new)
  obtain src where src: "ba_inv src" "contents src = [7, 8, 9]" "m_position src = 0"
    using chain.seek_spec [OF a(2), of 0] a(3) by auto
  let ?dst = "ByteArray_new (\<lambda>_. 0) 2"
  have dst: "ba_inv ?dst" "contents ?dst = []" "m_position ?dst = 0"
    by (rule ba_inv_new, simp) (simp add: contents_new, simp add: ByteArray_new_def)
  have "ss_isConnected ?ss" by (simp add: ss_isConnected_def)
  from message_transfer [OF src(1) dst(1) this this, of 3 "\<lparr>ch_in = [], ch_out = [], ch_plan = [2, 2, 2]\<rparr>"
      "\<lparr>ch_in = [], ch_out = [], ch_plan = [1, 1, 1]\<rparr>"] src(2,3) dst(2,3)
  show ?thesis by (auto simp: flowing_def spec_write_def)
qed

end
