(* ===== verification/EpollBench.thy ===== *)
theory EpollBench
  imports SocketStream "HOL-Library.Sublist"
begin

text \<open>
  The echo server written directly over epoll that the benchmark compares the library with,
  \<open>benchmark/dag_model/dag_epoll_bench.cpp\<close>. Connections are those of \<open>SocketStream\<close>: a negative entry of the plan is a
  call that fails with that \<open>errno\<close>. The state has the descriptors with their flags, the interest list and the
  connections; those that have been closed are kept, so that what was sent on them can be stated.
\<close>

section \<open>Connections\<close>

lemma os_recv_plan: "os_recv n ch = (r, bs, ch') \<Longrightarrow> 0 < r \<Longrightarrow> length (ch_plan ch') < length (ch_plan ch)"
  by (auto simp: os_recv_def Let_def split: list.splits if_splits)

lemma os_send_plan: "length (ch_plan (snd (os_send bs ch))) \<le> length (ch_plan ch)"
  by (auto simp: os_send_def Let_def split: list.splits if_splits)


lemma os_recv_spec:
  "os_recv n ch = (r, bs, ch') \<Longrightarrow>
   length bs \<le> n \<and> - 1 \<le> r \<and> (0 < r \<longrightarrow> nat r = length bs) \<and> ch_out ch' = ch_out ch \<and> ch_in ch = bs @ ch_in ch'"
  by (auto simp: os_recv_def Let_def split: list.splits if_splits)

lemma os_send_spec:
  "os_send bs ch = (r, ch') \<Longrightarrow>
   - 1 \<le> r \<and> nat r \<le> length bs \<and> ch_out ch' = ch_out ch @ take (nat r) bs \<and> ch_in ch' = ch_in ch"
  by (auto simp: os_send_def Let_def split: list.splits if_splits)



text \<open>
  The loop that reads until nothing comes: the last return value, the \<open>errno\<close> that goes with it and the
  connection. Every call of \<open>recv\<close> that moves bytes takes an entry of the plan.
\<close>

definition BUFFER_SIZE :: nat where "BUFFER_SIZE = 10240"

definition recv_errno :: "channel \<Rightarrow> int" where
  "recv_errno ch = (case ch_plan ch of [] \<Rightarrow> 0 | p # _ \<Rightarrow> if p < 0 then - p else 0)"

function client_read_loop :: "channel \<Rightarrow> int \<times> int \<times> channel" where
  "client_read_loop ch =
     (case os_recv BUFFER_SIZE ch of (bytes_read, buffer, ch1) \<Rightarrow>
        if bytes_read > 0 then client_read_loop (snd (os_send buffer ch1))
        else (bytes_read, recv_errno ch, ch1))"
  by pat_completeness auto
termination
  by (relation "measure (\<lambda>ch. length (ch_plan ch))")
    (auto dest!: os_recv_plan [OF sym] intro: le_less_trans [OF os_send_plan])

declare client_read_loop.simps [simp del]

abbreviation echoed :: "channel \<Rightarrow> channel" where
  "echoed ch \<equiv> snd (snd (client_read_loop ch))"

lemma client_read_loop_parts:
  "\<exists>got sent. ch_in ch = got @ ch_in (echoed ch) \<and> ch_out (echoed ch) = ch_out ch @ sent \<and> subseq sent got"
proof (induction ch rule: client_read_loop.induct)
  case (1 ch)
  obtain r bs ch1 where rd: "os_recv BUFFER_SIZE ch = (r, bs, ch1)" by (metis prod_cases3)
  note got = os_recv_spec [OF rd]
  show ?case
  proof (cases "r \<le> 0")
    case True
    then have "echoed ch = ch1" using rd got by (auto simp: client_read_loop.simps [of ch])
    then show ?thesis using got by (intro exI [of _ bs] exI [of _ "[]"]) simp
  next
    case False
    obtain n ch2 where snt: "os_send bs ch1 = (n, ch2)" by fastforce
    obtain got' sent' where IH: "ch_in ch2 = got' @ ch_in (echoed ch2)" "ch_out (echoed ch2) = ch_out ch2 @ sent'"
      "subseq sent' got'" using "1.IH" [OF rd [symmetric] refl] False snt by auto
    have "subseq (take (nat n) bs) bs" using list_emb_append2 [of "(=)" "take (nat n) bs" "take (nat n) bs" "[]"]
      by (metis append_take_drop_id list_emb_append_mono list_emb_Nil append_Nil2 subseq_order.order_refl)
    then have "subseq (take (nat n) bs @ sent') (bs @ got')" using IH(3) by (rule list_emb_append_mono)
    moreover have "client_read_loop ch = client_read_loop ch2" using False rd snt by (simp add: client_read_loop.simps [of ch])
    ultimately show ?thesis using IH(1,2) got os_send_spec [OF snt]
      by (intro exI [of _ "bs @ got'"] exI [of _ "take (nat n) bs @ sent'"]) simp
  qed
qed

text \<open>
  A connection on which the pieces \<open>ps\<close> arrive, cut at the size of the buffer, and every \<open>send\<close> takes what it is
  given.
\<close>

definition echo_plan :: "int list \<Rightarrow> int list" where
  "echo_plan ps = concat (map (\<lambda>p. [p, 10240]) ps)"

definition taken :: "int list \<Rightarrow> nat" where
  "taken ps = sum_list (map (\<lambda>p. min 10240 (nat p)) ps)"

lemma client_read_loop_pieces:
  assumes "\<forall>p \<in> set ps. 1 \<le> p" "ch_plan ch = echo_plan ps @ rest" "taken ps \<le> length (ch_in ch)"
  shows "client_read_loop ch = client_read_loop (ch\<lparr>ch_in := drop (taken ps) (ch_in ch), ch_out := ch_out ch @ take (taken ps) (ch_in ch), ch_plan := rest\<rparr>)"
  using assms
proof (induction ps arbitrary: ch)
  case Nil
  then show ?case by (cases ch) (simp add: echo_plan_def taken_def)
next
  case (Cons p ps)
  let ?k = "min 10240 (nat p)" and ?in = "ch_in ch"
  let ?ch2 = "ch\<lparr>ch_in := drop ?k ?in, ch_out := ch_out ch @ take ?k ?in, ch_plan := echo_plan ps @ rest\<rparr>"
  have k: "0 < ?k" "?k \<le> length ?in" "?k + taken ps \<le> length ?in" using Cons.prems(1,3) by (auto simp: taken_def)
  have "os_recv BUFFER_SIZE ch = (int ?k, take ?k ?in, ch\<lparr>ch_in := drop ?k ?in, ch_plan := 10240 # echo_plan ps @ rest\<rparr>)"
    using Cons.prems(1,2) k(2) by (auto simp: os_recv_def echo_plan_def BUFFER_SIZE_def Let_def min_def split: if_splits)
  moreover have "snd (os_send (take ?k ?in) (ch\<lparr>ch_in := drop ?k ?in, ch_plan := 10240 # echo_plan ps @ rest\<rparr>)) = ?ch2"
    by (simp add: os_send_def Let_def min_def)
  ultimately have "client_read_loop ch = client_read_loop ?ch2" using Cons.prems(1) by (auto simp: client_read_loop.simps [of ch] min_def)
  also have "taken ps \<le> length (ch_in ?ch2)" using k(3) by simp
  then have "client_read_loop ?ch2 = client_read_loop (?ch2\<lparr>ch_in := drop (taken ps) (ch_in ?ch2), ch_out := ch_out ?ch2 @ take (taken ps) (ch_in ?ch2), ch_plan := rest\<rparr>)"
    using Cons.prems(1) by (intro Cons.IH) auto
  finally show ?case
    using take_add [of ?k "taken ps" ?in] by (simp add: taken_def add.commute)
qed

lemma client_read_loop_closed: "ch_plan ch = [] \<Longrightarrow> client_read_loop ch = (0, 0, ch)"
  by (simp add: client_read_loop.simps [of ch] os_recv_def recv_errno_def)

lemma client_read_loop_blocked: "ch_plan ch = - 11 # rest \<Longrightarrow> client_read_loop ch = (- 1, 11, ch\<lparr>ch_plan := rest\<rparr>)"
  by (simp add: client_read_loop.simps [of ch] os_recv_def recv_errno_def)

section \<open>The server\<close>

record epoll_server =
  es_listen :: int
  es_sys :: fd_table
  es_interest :: "nat \<rightharpoonup> events"
  es_conns :: "nat \<rightharpoonup> channel"
  es_closed :: "(nat \<times> channel) list"

text \<open>\<open>rt\<close> is the result of setting the flags; reading them fails exactly for a descriptor that is not open.\<close>

definition set_non_blocking :: "int \<Rightarrow> int \<Rightarrow> fd_table \<Rightarrow> fd_table res" where
  "set_non_blocking rt sockfd sys =
     (case (if sockfd < 0 then None else sys (nat sockfd)) of
        None \<Rightarrow> Inl (Exit_Failure ''fcntl F_GETFL'')
      | Some i \<Rightarrow>
          if rt = - 1 then Inl (Exit_Failure ''fcntl F_SETFL'')
          else Inr (sys(nat sockfd \<mapsto> i\<lparr>fl_flags := fl_flags i OR O_NONBLOCK\<rparr>)))"

text \<open>
  Up to the loop: \<open>listen_sock\<close> is what \<open>socket\<close> returns, \<open>sys\<close> the table of descriptors after that call; then the
  results of \<open>bind\<close>, \<open>listen\<close> and \<open>fcntl\<close>.
\<close>

definition bench_setup :: "int \<Rightarrow> int \<Rightarrow> int \<Rightarrow> int \<Rightarrow> fd_table \<Rightarrow> epoll_server res" where
  "bench_setup listen_sock bind_rt listen_rt rt sys =
     (if bind_rt = - 1 then Inl (Exit_Failure ''bind'')
      else if listen_rt = - 1 then Inl (Exit_Failure ''listen'')
      else rmap (\<lambda>sys1. \<lparr>es_listen = listen_sock, es_sys = sys1, es_interest = [nat listen_sock \<mapsto> EPOLLIN],
                         es_conns = Map.empty, es_closed = []\<rparr>)
             (set_non_blocking rt listen_sock sys))"

text \<open>
  One of the events that \<open>epoll_wait\<close> reports; for the listening socket, what \<open>accept\<close> returns, the connection behind
  the new descriptor and the result of setting its flags.
\<close>

record bench_event =
  ev_fd :: int
  ev_accept :: int
  ev_chan :: channel
  ev_setfl :: int

definition accepted :: "int \<Rightarrow> channel \<Rightarrow> epoll_server \<Rightarrow> epoll_server" where
  "accepted conn ch s =
     (if conn = - 1 then s
      else s\<lparr>es_sys := (es_sys s)(nat conn \<mapsto> \<lparr>S_ISSOCK = True, fl_flags = 0\<rparr>), es_conns := (es_conns s)(nat conn \<mapsto> ch)\<rparr>)"

definition new_connection :: "bench_event \<Rightarrow> epoll_server \<Rightarrow> epoll_server res" where
  "new_connection ev s =
     (let conn_sock = ev_accept ev; s1 = accepted conn_sock (ev_chan ev) s in
      rmap (\<lambda>sys. s1\<lparr>es_sys := sys, es_interest := (es_interest s1)(nat conn_sock \<mapsto> EPOLLIN OR EPOLLET)\<rparr>)
        (set_non_blocking (ev_setfl ev) conn_sock (es_sys s1)))"

text \<open>\<open>read\<close> on a descriptor that is not open fails with \<open>EBADF\<close>; \<open>epoll_ctl\<close> and \<open>close\<close> have no effect then.\<close>

definition client_data :: "nat \<Rightarrow> epoll_server \<Rightarrow> epoll_server" where
  "client_data client_fd s =
     (case es_conns s client_fd of
        None \<Rightarrow> s
      | Some ch \<Rightarrow>
          (case client_read_loop ch of (bytes_read, err, ch1) \<Rightarrow>
             if bytes_read = 0 \<or> (bytes_read = - 1 \<and> err \<noteq> EAGAIN)
             then s\<lparr>es_interest := (es_interest s)(client_fd := None), es_sys := (es_sys s)(client_fd := None),
                    es_conns := (es_conns s)(client_fd := None), es_closed := es_closed s @ [(client_fd, ch1)]\<rparr>
             else s\<lparr>es_conns := (es_conns s)(client_fd \<mapsto> ch1)\<rparr>))"

definition handle_event :: "bench_event \<Rightarrow> epoll_server \<Rightarrow> epoll_server res" where
  "handle_event ev s = (if ev_fd ev = es_listen s then new_connection ev s else Inr (client_data (nat (ev_fd ev)) s))"

text \<open>The event loop: each round serves what one call of \<open>epoll_wait\<close> reports, 64 events at most.\<close>

definition MAX_EVENTS :: nat where "MAX_EVENTS = 64"

definition bench_loop :: "bench_event list list \<Rightarrow> epoll_server \<Rightarrow> epoll_server res" where
  "bench_loop rounds s = rfold (\<lambda>events. rfold handle_event (take MAX_EVENTS events)) rounds s"

section \<open>The state of the server\<close>

text \<open>
  The epoll instance watches the listening socket and exactly the open connections; these are
  watched edge-triggered and do not block.
\<close>

definition bench_inv :: "epoll_server \<Rightarrow> bool" where
  "bench_inv s \<longleftrightarrow> 0 \<le> es_listen s \<and> nat (es_listen s) \<notin> dom (es_conns s) \<and>
     dom (es_sys s) \<supseteq> insert (nat (es_listen s)) (dom (es_conns s)) \<and>
     es_interest s = (\<lambda>fd. if fd \<in> dom (es_conns s) then Some (EPOLLIN OR EPOLLET)
                           else if fd = nat (es_listen s) then Some EPOLLIN else None) \<and>
     (\<forall>fd \<in> insert (nat (es_listen s)) (dom (es_conns s)). \<forall>i. es_sys s fd = Some i \<longrightarrow> fl_flags i AND O_NONBLOCK \<noteq> 0)"

text \<open>\<open>accept\<close> returns a descriptor that was not open, or -1.\<close>

definition fresh_accept :: "bench_event \<Rightarrow> epoll_server \<Rightarrow> bool" where
  "fresh_accept ev s \<longleftrightarrow> ev_accept ev = - 1 \<or> 0 \<le> ev_accept ev \<and> nat (ev_accept ev) \<notin> dom (es_sys s)"

lemma O_NONBLOCK_stays: "(x OR O_NONBLOCK) AND O_NONBLOCK \<noteq> 0"
proof -
  have "(x OR O_NONBLOCK) AND O_NONBLOCK = O_NONBLOCK"
    by (rule bit_word_eqI) (auto simp: bit_simps)
  then show ?thesis by (simp add: O_NONBLOCK_def)
qed

lemma set_non_blocking_cases:
  assumes "set_non_blocking rt fd sys = Inr sys'"
  shows "\<exists>i. 0 \<le> fd \<and> sys (nat fd) = Some i \<and> sys' = sys(nat fd \<mapsto> i\<lparr>fl_flags := fl_flags i OR O_NONBLOCK\<rparr>)"
  using assms by (auto simp: set_non_blocking_def split: if_splits option.splits)

lemma bench_setup_inv: "bench_setup sock brt lrt rt sys = Inr s \<Longrightarrow> bench_inv s"
  by (auto simp: bench_setup_def bench_inv_def fun_eq_iff O_NONBLOCK_stays O_NONBLOCK_def dag_bind split: if_splits dest!: set_non_blocking_cases)

lemma client_data_inv:
  assumes "bench_inv s" "fd \<noteq> nat (es_listen s)"
  shows "bench_inv (client_data fd s)"
  using assms by (auto simp: bench_inv_def client_data_def fun_eq_iff dom_def split: option.splits prod.splits)

lemma new_connection_inv:
  assumes inv: "bench_inv s" and fresh: "fresh_accept ev s" and new: "new_connection ev s = Inr s'"
  shows "bench_inv s'"
proof (cases "ev_accept ev = - 1")
  case True
  with new show ?thesis by (auto simp: new_connection_def Let_def dag_bind dest: set_non_blocking_cases)
next
  case False
  let ?c = "nat (ev_accept ev)"
  have c: "?c \<notin> dom (es_sys s)" "?c \<noteq> nat (es_listen s)" "?c \<notin> dom (es_conns s)"
    using fresh False inv by (auto simp: fresh_accept_def bench_inv_def)
  have s': "s' = s\<lparr>es_sys := (es_sys s)(?c \<mapsto> \<lparr>S_ISSOCK = True, fl_flags = 0 OR O_NONBLOCK\<rparr>),
      es_conns := (es_conns s)(?c \<mapsto> ev_chan ev), es_interest := (es_interest s)(?c \<mapsto> EPOLLIN OR EPOLLET)\<rparr>"
    using new False by (auto simp: new_connection_def accepted_def Let_def dag_bind dest!: set_non_blocking_cases)
  show ?thesis using inv c O_NONBLOCK_stays [of 0] unfolding s'
    by (auto simp: bench_inv_def fun_eq_iff)
qed

lemma handle_event_inv:
  assumes "bench_inv s" "fresh_accept ev s" "0 \<le> ev_fd ev" "handle_event ev s = Inr s'"
  shows "bench_inv s' \<and> es_listen s' = es_listen s"
proof (cases "ev_fd ev = es_listen s")
  case True
  then have "new_connection ev s = Inr s'" using assms(4) by (simp add: handle_event_def)
  with new_connection_inv [OF assms(1,2) this] show ?thesis
    by (auto simp: new_connection_def accepted_def Let_def dag_bind)
next
  case False
  then have "nat (ev_fd ev) \<noteq> nat (es_listen s)" using assms(1,3) by (auto simp: bench_inv_def)
  with client_data_inv [OF assms(1) this] assms(4) False show ?thesis
    by (auto simp: handle_event_def client_data_def split: option.splits prod.splits)
qed

text \<open>A failing \<open>accept\<close> ends the server: its result goes to \<open>fcntl\<close> unchecked.\<close>

lemma accept_failure_exits:
  "ev_fd ev = es_listen s \<Longrightarrow> ev_accept ev = - 1 \<Longrightarrow> handle_event ev s = Inl (Exit_Failure ''fcntl F_GETFL'')"
  by (simp add: handle_event_def new_connection_def accepted_def set_non_blocking_def Let_def)

section \<open>Serving a client\<close>

text \<open>
  Edge-triggered reports come only for new data, so that a client must be read until nothing is left:
  a connection stays open only if its last \<open>read\<close> has failed with \<open>EAGAIN\<close>.
\<close>

lemma client_data_drains:
  assumes "es_conns s fd = Some ch"
  shows "case es_conns (client_data fd s) fd of
      Some ch' \<Rightarrow> ch' = echoed ch \<and> fst (client_read_loop ch) = - 1 \<and> fst (snd (client_read_loop ch)) = EAGAIN
    | None \<Rightarrow> es_closed (client_data fd s) = es_closed s @ [(fd, echoed ch)]"
proof -
  have "fst (client_read_loop ch) \<le> 0 \<and> - 1 \<le> fst (client_read_loop ch)"
  proof (induction ch rule: client_read_loop.induct)
    case (1 ch)
    obtain r bs ch1 where rd: "os_recv BUFFER_SIZE ch = (r, bs, ch1)" by (metis prod_cases3)
    with "1.IH" [OF rd [symmetric] refl] os_recv_spec [OF rd] show ?case by (simp add: client_read_loop.simps [of ch])
  qed
  then show ?thesis using assms by (cases "client_read_loop ch") (auto simp: client_data_def)
qed

text \<open>The pieces that arrive in several bursts; after each of them \<open>read\<close> fails with \<open>EAGAIN\<close>.\<close>

definition bursts :: "int list list \<Rightarrow> int list" where
  "bursts pss = concat (map (\<lambda>ps. echo_plan ps @ [- 11]) pss)"

lemma taken_append: "taken (ps @ qs) = taken ps + taken qs"
  by (simp add: taken_def)

lemma client_burst:
  assumes "es_conns s fd = Some ch" "ch_plan ch = echo_plan ps @ - 11 # rest" "\<forall>p \<in> set ps. 1 \<le> p" "taken ps \<le> length (ch_in ch)"
  shows "client_data fd s = s\<lparr>es_conns := (es_conns s)(fd \<mapsto>
    ch\<lparr>ch_in := drop (taken ps) (ch_in ch), ch_out := ch_out ch @ take (taken ps) (ch_in ch), ch_plan := rest\<rparr>)\<rparr>"
  using client_read_loop_pieces [OF assms(3,2,4)] assms(1) by (simp add: client_data_def client_read_loop_blocked EAGAIN_def)

lemma client_bursts:
  assumes "es_conns s fd = Some ch" "ch_plan ch = bursts pss @ rest" "\<forall>p \<in> set (concat pss). 1 \<le> p"
    and "taken (concat pss) \<le> length (ch_in ch)"
  shows "(client_data fd ^^ length pss) s = s\<lparr>es_conns := (es_conns s)(fd \<mapsto>
    ch\<lparr>ch_in := drop (taken (concat pss)) (ch_in ch), ch_out := ch_out ch @ take (taken (concat pss)) (ch_in ch), ch_plan := rest\<rparr>)\<rparr>"
  using assms
proof (induction pss arbitrary: s ch)
  case Nil
  then show ?case by (cases s; cases ch) (auto simp: bursts_def taken_def)
next
  case (Cons ps pss)
  let ?ch1 = "ch\<lparr>ch_in := drop (taken ps) (ch_in ch), ch_out := ch_out ch @ take (taken ps) (ch_in ch), ch_plan := bursts pss @ rest\<rparr>"
  let ?s1 = "s\<lparr>es_conns := (es_conns s)(fd \<mapsto> ?ch1)\<rparr>"
  have "client_data fd s = ?s1" using Cons.prems by (intro client_burst) (auto simp: bursts_def taken_append)
  moreover have "(client_data fd ^^ length pss) ?s1 = ?s1\<lparr>es_conns := (es_conns ?s1)(fd \<mapsto>
      ?ch1\<lparr>ch_in := drop (taken (concat pss)) (ch_in ?ch1), ch_out := ch_out ?ch1 @ take (taken (concat pss)) (ch_in ?ch1), ch_plan := rest\<rparr>)\<rparr>"
    using Cons.prems by (intro Cons.IH) (auto simp: taken_append)
  ultimately show ?case
    by (simp add: taken_append take_add add.commute funpow_swap1 fun_upd_def cong: if_cong)
qed

text \<open>A client whose data comes in bursts and who then closes: after one report for each burst and one for the end.\<close>

lemma serve_reports:
  assumes "\<forall>ev \<in> set evs. ev_fd ev = int fd" "int fd \<noteq> es_listen s"
  shows "bench_loop (map (\<lambda>ev. [ev]) evs) s = Inr ((client_data fd ^^ length evs) s)"
  using assms
proof (induction evs arbitrary: s)
  case (Cons ev evs)
  have "es_listen (client_data fd s) = es_listen s"
    by (auto simp: client_data_def split: option.splits prod.splits)
  with Cons show ?case by (simp add: bench_loop_def handle_event_def MAX_EVENTS_def funpow_swap1)
qed (simp add: bench_loop_def)

lemma serve_client:
  assumes inv: "bench_inv s" and ch: "es_conns s fd = Some \<lparr>ch_in = input, ch_out = [], ch_plan = bursts pss\<rparr>"
    and ps: "\<forall>p \<in> set (concat pss). 1 \<le> p" "taken (concat pss) = length input"
    and evs: "\<forall>ev \<in> set evs. ev_fd ev = int fd" "length evs = Suc (length pss)"
  shows "\<exists>s'. bench_loop (map (\<lambda>ev. [ev]) evs) s = Inr s' \<and>
    es_closed s' = es_closed s @ [(fd, \<lparr>ch_in = [], ch_out = input, ch_plan = []\<rparr>)] \<and> es_conns s' fd = None \<and> es_interest s' fd = None"
proof -
  let ?s1 = "s\<lparr>es_conns := (es_conns s)(fd \<mapsto> \<lparr>ch_in = [], ch_out = input, ch_plan = []\<rparr>)\<rparr>"
  have "fd \<noteq> nat (es_listen s)" using inv ch by (auto simp: bench_inv_def)
  then have "int fd \<noteq> es_listen s" by auto
  moreover have "(client_data fd ^^ length pss) s = ?s1"
    using client_bursts [OF ch, of pss "[]"] ps by simp
  moreover have "client_data fd ?s1 = s\<lparr>es_interest := (es_interest s)(fd := None), es_sys := (es_sys s)(fd := None),
      es_conns := (es_conns s)(fd := None), es_closed := es_closed s @ [(fd, \<lparr>ch_in = [], ch_out = input, ch_plan = []\<rparr>)]\<rparr>"
    by (simp add: client_data_def client_read_loop_closed)
  ultimately show ?thesis using serve_reports [OF evs(1)] evs(2) by simp
qed

end
