(* ===== verification/EchoServer.thy ===== *)
theory EchoServer
  imports TcpServer EpollBench
begin

text \<open>
  The echo server of the benchmark, \<open>benchmark/dag_model/dag_1k_bench.cpp\<close>: a \<open>TcpServer\<close> whose handler sends back what
  it receives, through a \<open>SocketStream\<close> and a \<open>ByteArray\<close>. The handler is followed from the first read to the
  destruction of the stream; the end of the connection is the first call of \<open>recv\<close> that moves nothing. What the handler
  does to the connection is what the loop of the server over epoll does (\<open>EpollBench\<close>).
\<close>

section \<open>The handler\<close>

text \<open>As in \<open>client_read_loop\<close>, every call of \<open>recv\<close> that moves bytes takes an entry of the plan.\<close>

lemma ss_read_ba_plan:
  "ss_read_ba ss n (ch, ba) = Inr (r, ch', ba') \<Longrightarrow> 0 < r \<Longrightarrow> length (ch_plan ch') < length (ch_plan ch)"
  by (auto simp: ss_read_ba_def dag_bind split: if_splits prod.splits dest: os_recv_plan)

lemma ss_write_ba_plan:
  assumes "ss_write_ba ss n (ch, ba) = Inr (r, ch', ba')"
  shows "length (ch_plan ch') \<le> length (ch_plan ch)"
proof (cases "ch' = ch")
  case False
  then obtain bs where "ch' = snd (os_send bs ch)"
    using assms by (auto simp: ss_write_ba_def dag_bind split_beta split: if_splits)
  then show ?thesis by (simp add: os_send_plan)
qed simp

function handleClient_loop :: "'a SocketStream \<Rightarrow> channel \<times> ByteArray \<Rightarrow> (channel \<times> ByteArray) res" where
  "handleClient_loop ss (ch, ba) =
     rbind (setPosition 0 (ba_clear ba)) (\<lambda>ba1.
     rbind (ss_read_ba ss 10240 (ch, ba1)) (\<lambda>(rt, ch1, ba2).
       if rt = 0 then Inr (ch1, ba2)
       else if rt < 0 then Inr (ch1, ba2)
       else
         rbind (setPosition 0 ba2) (\<lambda>ba3.
         rbind (toString ba3) (\<lambda>data.
         rbind (setPosition 0 ba3) (\<lambda>ba4.
         rbind (ss_write_ba ss (nat rt) (ch1, ba4)) (\<lambda>(_, ch2, ba5).
           handleClient_loop ss (ch2, ba5)))))))"
  by pat_completeness auto
termination
  by (relation "measure (\<lambda>(_, ch, _). length (ch_plan ch))") (auto dest!: ss_read_ba_plan ss_write_ba_plan)

declare handleClient_loop.simps [simp del]

text \<open>
  The whole handler: the stream owns the socket, is closed after the loop and destroyed at the end. \<open>fresh\<close> is the
  contents of new memory, \<open>ctl\<close> the result of \<open>epoll_ctl\<close>.
\<close>

definition handleClient ::
  "(nat \<Rightarrow> byte) \<Rightarrow> int \<Rightarrow> 'a Socket \<Rightarrow> channel \<Rightarrow> hook_world \<Rightarrow> (channel \<times> 'a SocketStream \<times> hook_world) res" where
  "handleClient fresh ctl client ch w =
     (let stream = SocketStream_new (Some client) True;
          ba = ByteArray_new fresh 10240 in
      rbind (handleClient_loop stream (ch, ba)) (\<lambda>(ch1, _).
      rbind (ss_close ctl stream w) (\<lambda>(stream1, w1).
      rmap (\<lambda>(stream2, w2). (ch1, stream2, w2)) (SocketStream_delete ctl stream1 w1))))"

section \<open>Starting the server\<close>

text \<open>
  \<open>run_server\<close>: the results of the system calls for the address are those of a \<open>bind_try\<close>, whose address
  and family come from the lookup. A lookup that fails gives a null pointer, which \<open>bind\<close> follows once it has a
  descriptor. The result is the server, if it is bound.
\<close>

definition run_server ::
  "byte_order \<Rightarrow> resolver \<Rightarrow> int \<Rightarrow> Address bind_try \<Rightarrow> hook_world \<Rightarrow> (Address TcpServer option \<times> hook_world) res" where
  "run_server host gai ctl b w =
     (let server = TcpServer_new in
      case LookupAny host gai ''127.0.0.1:8000'' AF_INET 0 0 of
        None \<Rightarrow>
          rbind (ensure_sock (bt_fd b) (CreateTCPSocket :: Address Socket) w) (\<lambda>(s, w1).
            if isValid s then Inl Null_Deref else Inr (None, w1))
      | Some addr \<Rightarrow>
          rbind (server_bind_one ctl (b\<lparr>bt_addr := addr, bt_family := uint (getFamily addr)\<rparr>) server w) (\<lambda>(ok, server1, w1).
            if \<not> ok then Inr (None, w1) else Inr (Some (snd (server_start server1)), w1)))"

text \<open>\<open>main\<close>: the event loop with ten threads, of which the caller is one, gets \<open>run_server\<close> as its first task and is stopped.\<close>

definition bench_main ::
  "int \<Rightarrow> int \<Rightarrow> int list \<Rightarrow> int \<Rightarrow> 'f \<Rightarrow> ((nat, 'f) IOManager \<times> nat \<times> bool) res" where
  "bench_main now tid ids now' run =
     rbind (Scheduler_new False tid 10 True ''IOManager'') (\<lambda>s.
     rbind (IOManager_new now s ids) (\<lambda>iom.
       IOManager_stop now' True (io_schedule (SchedulerTask_cb (Some (Plain run)) (- 1)) iom)))"

section \<open>One round of the handler\<close>

text \<open>
  What a round does with the connection, whatever the block size of the array: the bytes received,
  at most 10240, are sent back with one call of \<open>send\<close>, whose result is not looked at.
\<close>

lemma ss_write_ba_any:
  assumes inv: "ba_inv ba" and conn: "ss_isConnected ss" and n: "0 < n" "m_position ba + n \<le> length (contents ba)"
    and os: "os_send (take n (drop (m_position ba) (contents ba))) ch = (r, ch')"
  shows "\<exists>ba'. ss_write_ba ss n (ch, ba) = Inr (r, ch', ba') \<and> ba_inv ba'"
proof (cases "0 < r")
  case True
  then have "0 < nat r" "nat r \<le> n" "int (nat r) = r" using os_send_spec [OF os] n(2) by auto
  with ss_write_ba_correct [OF inv conn n, of ch "nat r" ch'] os show ?thesis by auto
next
  case False
  obtain iovs where g: "getReadBuffers n ba = Inr (min n (m_size ba - m_position ba), iovs)"
    "iov_gather iovs ba = Inr (take n (drop (m_position ba) (contents ba)))"
    using getReadBuffers_correct [OF inv] by blast
  have "iovs \<noteq> []" using g(2) n by auto
  with False show ?thesis using conn g os inv by (simp add: ss_write_ba_def)
qed

lemma handleClient_round:
  assumes inv: "ba_inv ba" and conn: "ss_isConnected ss" and rd: "os_recv 10240 ch = (r, bs, ch1)"
  shows "\<exists>ba'. ba_inv ba' \<and> handleClient_loop ss (ch, ba) =
    (if r \<le> 0 then Inr (ch1, ba') else handleClient_loop ss (snd (os_send bs ch1), ba'))"
proof -
  have clear: "ba_inv (ba_clear ba)" using inv by (rule ba_inv_clear)
  obtain ba1 where ba1: "setPosition 0 (ba_clear ba) = Inr ba1" "ba_inv ba1" "contents ba1 = []" "m_position ba1 = 0"
    using chain.seek_spec [OF clear, of 0] by (auto simp: ba_clear_correct)
  obtain ba2 where ba2: "ss_read_ba ss 10240 (ch, ba1) = Inr (r, ch1, ba2)" "ba_inv ba2"
    "(contents ba2, m_position ba2) = (if r > 0 then spec_write bs (contents ba1, m_position ba1) else (contents ba1, m_position ba1))"
    using ss_read_ba_correct [OF ba1(2) conn _ rd] by auto
  show ?thesis
  proof (cases "r \<le> 0")
    case True
    then show ?thesis using ba1(1) ba2(1,2) by (auto simp: handleClient_loop.simps [of ss ch ba])
  next
    case False
    then have bs: "contents ba2 = bs" "nat r = length bs" "0 < nat r"
      using ba2(3) ba1(3,4) os_recv_spec [OF rd] by (auto simp: spec_write_def)
    obtain ba3 where ba3: "setPosition 0 ba2 = Inr ba3" "ba_inv ba3" "contents ba3 = bs" "m_position ba3 = 0"
      using chain.seek_spec [OF ba2(2), of 0] bs(1) by auto
    obtain ba4 where ba4: "setPosition 0 ba3 = Inr ba4" "ba_inv ba4" "contents ba4 = bs" "m_position ba4 = 0"
      using chain.seek_spec [OF ba3(2), of 0] ba3(3) by auto
    have "\<exists>ba5. ss_write_ba ss (nat r) (ch1, ba4) = Inr (fst (os_send bs ch1), snd (os_send bs ch1), ba5) \<and> ba_inv ba5"
      using bs(2,3) ba4(3,4) by (intro ss_write_ba_any [OF ba4(2) conn]) simp_all
    then show ?thesis using False ba1(1) ba2(1) ba3(1) ba4(1) toString_correct [OF ba3(2)]
      by (auto simp: handleClient_loop.simps [of ss ch ba])
  qed
qed

lemma handleClient_loop_echo:
  assumes "ba_inv ba" "ss_isConnected ss"
  shows "\<exists>ba'. handleClient_loop ss (ch, ba) = Inr (echoed ch, ba') \<and> ba_inv ba'"
  using assms
proof (induction ch arbitrary: ba rule: client_read_loop.induct)
  case (1 ch)
  obtain r bs ch1 where rd: "os_recv BUFFER_SIZE ch = (r, bs, ch1)" by (metis prod_cases3)
  obtain ba' where ba': "ba_inv ba'" "handleClient_loop ss (ch, ba) =
      (if r \<le> 0 then Inr (ch1, ba') else handleClient_loop ss (snd (os_send bs ch1), ba'))"
    using handleClient_round [OF "1.prems"] rd unfolding BUFFER_SIZE_def by blast
  show ?case
  proof (cases "0 < r")
    case True
    with "1.IH" [OF rd [symmetric] refl True ba'(1) "1.prems"(2)] ba'(2) rd show ?thesis by (simp add: client_read_loop.simps [of ch])
  qed (use ba' rd in \<open>simp add: client_read_loop.simps [of ch]\<close>)
qed

section \<open>The handler keeps what it promises\<close>

text \<open>What the handler needs of its client: a connected socket on an open descriptor that the event loop knows.\<close>

definition servable :: "hook_world \<Rightarrow> 'a Socket \<Rightarrow> bool" where
  "servable w s \<longleftrightarrow> sk_isConnected s \<and> server_world w \<and> stoppable w s"

lemma servable_connected: "servable w s \<Longrightarrow> ss_isConnected (SocketStream_new (Some s) True)"
  by (simp add: servable_def ss_isConnected_def SocketStream_new_def)

lemma handleClient_correct:
  assumes "servable w client"
  shows "\<exists>ss' w'. handleClient fresh 0 client ch w = Inr (echoed ch, ss', w') \<and> \<not> ss_isConnected ss' \<and>
    get_ctx (sk_sock client) w' = Inr None \<and> w_sys w' (nat (sk_sock client)) = None \<and> queue w' = queue w @ waiters w client"
proof -
  let ?fd = "sk_sock client" and ?ss = "SocketStream_new (Some client) True"
  obtain ctx where w: "io_reach (w_io w)" "0 \<le> ?fd" "t_hook_enable w" "has_iom w" "nat ?fd < length (w_fdm w)"
    "w_fdm w ! nat ?fd = Some ctx" "nat ?fd < length (m_fdContexts (w_io w))"
    using assms by (auto simp: servable_def server_world_def stoppable_def)
  obtain s' w' where c: "Socket_close 0 client w = Inr (False, s', w')" "\<not> isValid s'" "Socket_close 0 s' w' = Inr (True, s', w')"
    "get_ctx ?fd w' = Inr None" "w_sys w' (nat ?fd) = None" "queue w' = queue w @ waiters w client"
    using socket_close_releases [OF w, of "\<lambda>x. (0, x)" "()"] by (auto simp: waiters_def)
  have "\<not> sk_isConnected s'" using c(1) by (auto simp: Socket_close_def dag_bind Let_def split: if_splits)
  moreover obtain ba' where "handleClient_loop ?ss (ch, ByteArray_new fresh 10240) = Inr (echoed ch, ba')"
    using handleClient_loop_echo [OF ba_inv_new servable_connected [OF assms], of 10240 ch fresh] by auto
  moreover have "ss_close 0 ?ss w = Inr (?ss\<lparr>ss_socket := Some s'\<rparr>, w')"
    "SocketStream_delete 0 (?ss\<lparr>ss_socket := Some s'\<rparr>) w' = Inr (?ss\<lparr>ss_socket := Some s'\<rparr>, w')"
    using c(1,3) by (simp_all add: ss_close_def SocketStream_delete_def SocketStream_new_def)
  ultimately show ?thesis using c(4-6) by (simp add: handleClient_def Let_def ss_isConnected_def)
qed


lemma servable_example: "\<exists>w. servable w ((CreateTCPSocket :: nat Socket)\<lparr>sk_sock := 5, sk_isConnected := True\<rparr>)"
proof -
  obtain w :: hook_world and c where w: "w_io w = io_fresh" "has_iom w" "t_hook_enable w" "nat 5 < length (w_fdm w)"
    "w_fdm w ! nat 5 = Some c"
    using hook_example_socket [of 5] by auto
  then have "servable w ((CreateTCPSocket :: nat Socket)\<lparr>sk_sock := 5, sk_isConnected := True\<rparr>)"
    by (simp add: servable_def server_world_def stoppable_def io_fresh_reach) (simp add: io_fresh_def)
  then show ?thesis by blast
qed


text \<open>
  C22: whatever the system does to the calls, the handler ends with the connection closed and its descriptor
  released, and what it has sent is a subsequence of what it has received: nothing is invented,
  repeated or reordered.
\<close>

theorem echo_safe:
  assumes "servable w client"
  shows "\<exists>ch' ss' w' got sent. handleClient fresh 0 client ch w = Inr (ch', ss', w') \<and> \<not> ss_isConnected ss' \<and>
    get_ctx (sk_sock client) w' = Inr None \<and>
    ch_in ch = got @ ch_in ch' \<and> ch_out ch' = ch_out ch @ sent \<and> subseq sent got"
  using handleClient_correct [OF assms, of fresh ch] client_read_loop_parts [of ch] by blast

theorem echo_safe_witness:
  "\<exists>w ch' ss' w' got. handleClient (\<lambda>_. 0) 0 ((CreateTCPSocket :: nat Socket)\<lparr>sk_sock := 5, sk_isConnected := True\<rparr>)
     \<lparr>ch_in = [1, 2, 3], ch_out = [], ch_plan = [2, 1, -1]\<rparr> w = Inr (ch', ss', w') \<and>
     [1, 2, 3] = got @ ch_in ch' \<and> subseq (ch_out ch') got"
proof -
  obtain w where w: "servable w ((CreateTCPSocket :: nat Socket)\<lparr>sk_sock := 5, sk_isConnected := True\<rparr>)"
    using servable_example by blast
  from echo_safe [OF w, of "\<lambda>_. 0" "\<lparr>ch_in = [1, 2, 3], ch_out = [], ch_plan = [2, 1, -1]\<rparr>"] show ?thesis by fastforce
qed



text \<open>
  Bytes do get lost: what a \<open>send\<close> does not take is never sent, since its result is not looked at, and the
  next round clears the array.
\<close>

lemma echo_drops_unsent:
  assumes "servable w client" "length input \<le> 10240" "q < length input"
  shows "\<exists>ch' ss' w'. handleClient fresh 0 client \<lparr>ch_in = input, ch_out = [], ch_plan = [10240, int q]\<rparr> w = Inr (ch', ss', w') \<and>
      ch_in ch' = [] \<and> ch_out ch' = take q input"
proof -
  let ?ch = "\<lparr>ch_in = input, ch_out = [], ch_plan = [10240, int q]\<rparr>"
  have "input \<noteq> []" using assms(3) by auto
  then have "echoed ?ch = (\<lparr>ch_in = [], ch_out = take q input, ch_plan = []\<rparr>)"
    using assms(2,3) by (simp add: client_read_loop.simps [of ?ch] os_recv_def BUFFER_SIZE_def os_send_def Let_def min_def client_read_loop_closed)
  then show ?thesis using handleClient_correct [OF assms(1), of fresh ?ch] by auto
qed

section \<open>The server\<close>

text \<open>
  \<open>run_server\<close> leaves a running server with one listening socket and one accepting task, or nothing; it
  follows a null pointer when the lookup fails although a descriptor can be had.
\<close>

lemma run_server_started:
  assumes "run_server host gai ctl b w = Inr (r, w')"
  shows "case r of None \<Rightarrow> True
    | Some srv \<Rightarrow> \<not> ts_isStop srv \<and> (\<exists>s. isValid s \<and> ts_socks srv = [s] \<and> ts_accept_tasks srv = [Start_Accept s])"
proof (cases r)
  case (Some srv)
  then obtain addr srv1 w1 where b: "server_bind_one ctl (b\<lparr>bt_addr := addr, bt_family := uint (getFamily addr)\<rparr>) TcpServer_new w = Inr (True, srv1, w1)"
    and srv: "srv = snd (server_start srv1)"
    using assms by (auto simp: run_server_def Let_def dag_bind split: option.splits if_splits)
  have "ts_isStop srv1" "ts_accept_tasks srv1 = []"
    using b by (auto simp: server_bind_one_def server_bind_def TcpServer_new_def dag_bind simp del: bind_loop.simps split: if_splits)
  then show ?thesis using bind_one_cases [OF b] by (auto simp: Some srv server_start_def TcpServer_new_def)
qed simp

lemma run_server_null:
  assumes "LookupAny host gai ''127.0.0.1:8000'' AF_INET 0 0 = None" "t_hook_enable w" "0 \<le> bt_fd b"
    and "create_ctx (bt_fd b) w = Inr w1"
  shows "run_server host gai ctl b w = Inl Null_Deref"
  using assms by (simp add: run_server_def ensure_sock_def CreateTCPSocket_def Socket_new_def isValid_def newSock_eq hook_socket_def)

end
