(* ===== verification/Logger.thy ===== *)
theory Logger
  imports Dag_Prelude
begin

text \<open>
  Logging, \<open>dag/logger.h\<close> and \<open>dag/logger.cpp\<close>: levels, events, the formatter with the parser of its pattern,
  appenders, loggers and their manager. Loggers and appenders are shared objects: numbers that refer
  to the heaps in the record \<open>log_world\<close>. The conversion of a time stamp by \<open>localtime_r\<close> and \<open>strftime\<close>
  depends on the time zone and is an argument; so is the set of files that can be opened for
  writing. A file is written by one appender and holds what the appender has written since it was
  opened last. Every operation runs under the lock of its object.
\<close>

section \<open>Levels\<close>

datatype Level = DEBUG | INFO | ERROR | FATAL | UNKNOWN

primrec level_value :: "Level \<Rightarrow> nat" where
  "level_value DEBUG = 0"
| "level_value INFO = 1"
| "level_value ERROR = 2"
| "level_value FATAL = 3"
| "level_value UNKNOWN = 4"

lemma level_value_inj: "level_value l = level_value l' \<longleftrightarrow> l = l'"
  by (cases l; cases l'; simp)

instantiation Level :: linorder
begin

definition less_eq_Level :: "Level \<Rightarrow> Level \<Rightarrow> bool" where
  "less_eq_Level l l' \<longleftrightarrow> level_value l \<le> level_value l'"

definition less_Level :: "Level \<Rightarrow> Level \<Rightarrow> bool" where
  "less_Level l l' \<longleftrightarrow> level_value l < level_value l'"

instance
  by standard (auto simp: less_eq_Level_def less_Level_def level_value_inj)

end

definition ToString :: "Level \<Rightarrow> string" where
  "ToString level =
     (if level = DEBUG then ''DEBUG'' else if level = INFO then ''INFO''
      else if level = ERROR then ''ERROR'' else if level = FATAL then ''FATAL'' else ''UNKNOWN'')"

definition FromString :: "string \<Rightarrow> Level" where
  "FromString level =
     (if level = ''DEBUG'' then DEBUG else if level = ''INFO'' then INFO
      else if level = ''ERROR'' then ERROR else if level = ''FATAL'' then FATAL else UNKNOWN)"

section \<open>Events\<close>

record LogEvent =
  le_level :: Level
  le_logger_name :: string
  le_message :: string
  le_file :: string
  le_func_name :: string
  le_line :: nat
  le_thread_name :: string
  le_elapse :: nat
  le_time :: nat
  le_tid :: nat
  le_fid :: nat

section \<open>Format items\<close>

datatype FormatItem =
    MessageFormatItem | LogLevelFormatItem | LoggerNameFormatItem | DateFormatItem string | ElapseFormatItem
  | FileFormatItem | FuncNameFormatItem | LineFormatItem | TidFormatItem | FidFormatItem
  | ThreadNameFormatItem | TabFormatItem | NewLineFormatItem | StringFormatItem string

definition default_date :: string where
  "default_date = ''%Y-%m-%d %H:%M:%S''"

text \<open>The constructor of the date item replaces an empty format.\<close>

definition DateFormatItem_new :: "string \<Rightarrow> FormatItem" where
  "DateFormatItem_new str = DateFormatItem (if str = [] then default_date else str)"

fun item_format :: "(string \<Rightarrow> nat \<Rightarrow> string) \<Rightarrow> LogEvent \<Rightarrow> FormatItem \<Rightarrow> string" where
  "item_format strftime e MessageFormatItem = le_message e"
| "item_format strftime e LogLevelFormatItem = ToString (le_level e)"
| "item_format strftime e LoggerNameFormatItem = le_logger_name e"
| "item_format strftime e (DateFormatItem pat) = strftime pat (le_time e)"
| "item_format strftime e ElapseFormatItem = dec (le_elapse e)"
| "item_format strftime e FileFormatItem = le_file e"
| "item_format strftime e FuncNameFormatItem = le_func_name e"
| "item_format strftime e LineFormatItem = dec (le_line e)"
| "item_format strftime e TidFormatItem = dec (le_tid e)"
| "item_format strftime e FidFormatItem = dec (le_fid e)"
| "item_format strftime e ThreadNameFormatItem = le_thread_name e"
| "item_format strftime e TabFormatItem = [CHR 0x09]"
| "item_format strftime e NewLineFormatItem = [CHR 0x0A]"
| "item_format strftime e (StringFormatItem content) = content"

definition s_format_items :: "char \<Rightarrow> FormatItem option" where
  "s_format_items c =
     map_of [(CHR ''m'', MessageFormatItem), (CHR ''p'', LogLevelFormatItem), (CHR ''c'', LoggerNameFormatItem),
             (CHR ''r'', ElapseFormatItem), (CHR ''f'', FileFormatItem), (CHR ''a'', FuncNameFormatItem),
             (CHR ''l'', LineFormatItem), (CHR ''t'', TidFormatItem), (CHR ''b'', FidFormatItem),
             (CHR ''n'', ThreadNameFormatItem), (CHR ''N'', NewLineFormatItem), (CHR ''T'', TabFormatItem)] c"

section \<open>The formatter\<close>

record LogFormatter =
  fmt_error :: bool
  fmt_pattern :: string
  fmt_items :: "FormatItem list"

text \<open>
  The loop of \<open>init\<close>. The first argument is the rest of the pattern from position \<open>i\<close>; a parsed
  piece is a regular string or a conversion character. The result holds the flag \<open>error\<close>, the pieces,
  the pending string and the date format. After a \<open>%d\<close> that ends the pattern the code reads
  behind the terminating null character.
\<close>

lemma tl_dropWhile_shorter: "length (dropWhile P xs) - Suc 0 < Suc (Suc (length xs))"
  using length_dropWhile_le [of P xs] by linarith

datatype piece = Regular string | Conversion char

type_synonym init_result = "bool \<times> piece list \<times> string \<times> string"

function init_loop :: "string \<Rightarrow> bool \<Rightarrow> piece list \<Rightarrow> string \<Rightarrow> string \<Rightarrow> init_result res" where
  "init_loop [] parsing_string patterns tmp data_format = Inr (False, patterns, tmp, data_format)"
| "init_loop (c # cs) parsing_string patterns tmp data_format =
     (if c = CHR ''%'' then
        if parsing_string
        then init_loop cs False (if tmp \<noteq> [] then patterns @ [Regular tmp] else patterns) [] data_format
        else init_loop cs True (patterns @ [Conversion c]) tmp data_format
      else if parsing_string then init_loop cs True patterns (tmp @ [c]) data_format
      else if c \<noteq> CHR ''d'' then init_loop cs True (patterns @ [Conversion c]) tmp data_format
      else case cs of
          [] \<Rightarrow> Inl Out_Of_Bounds
        | x # cs1 \<Rightarrow>
            if x \<noteq> CHR ''{'' then init_loop cs True (patterns @ [Conversion c]) tmp data_format
            else let content = takeWhile (\<lambda>y. y \<noteq> CHR ''}'') cs1; rest = dropWhile (\<lambda>y. y \<noteq> CHR ''}'') cs1 in
              if rest = [] then Inr (True, patterns @ [Conversion c], tmp, data_format @ content)
              else init_loop (tl rest) True (patterns @ [Conversion c]) tmp (data_format @ content))"
  by pat_completeness auto
termination
  by (relation "measure (\<lambda>(cs, _). length cs)") (auto simp: tl_dropWhile_shorter)

text \<open>The items for the pieces, up to the first unknown conversion character, which is an error.\<close>

fun init_items :: "string \<Rightarrow> piece list \<Rightarrow> bool \<times> FormatItem list" where
  "init_items data_format [] = (False, [])"
| "init_items data_format (Regular s # vs) =
     (case init_items data_format vs of (err, items) \<Rightarrow> (err, StringFormatItem s # items))"
| "init_items data_format (Conversion c # vs) =
     (if c = CHR ''d''
      then (case init_items data_format vs of (err, items) \<Rightarrow> (err, DateFormatItem_new data_format # items))
      else case s_format_items c of
             None \<Rightarrow> (True, [])
           | Some it \<Rightarrow> (case init_items data_format vs of (err, items) \<Rightarrow> (err, it # items)))"

definition LogFormatter_new :: "string \<Rightarrow> LogFormatter res" where
  "LogFormatter_new pattern =
     rmap (\<lambda>(error, patterns, tmp, data_format).
       if error then \<lparr>fmt_error = True, fmt_pattern = pattern, fmt_items = []\<rparr>
       else case init_items data_format (if tmp \<noteq> [] then patterns @ [Regular tmp] else patterns) of
              (err, items) \<Rightarrow> \<lparr>fmt_error = err, fmt_pattern = pattern, fmt_items = items\<rparr>)
       (init_loop pattern True [] [] [])"

definition default_pattern :: string where
  "default_pattern = '' [%p] [%c] %d{%Y-%m-%d %H:%M:%S} %f:%l%T%m%N''"

definition fmt_format :: "(string \<Rightarrow> nat \<Rightarrow> string) \<Rightarrow> LogEvent \<Rightarrow> LogFormatter \<Rightarrow> string" where
  "fmt_format strftime e f = concat (map (item_format strftime e) (fmt_items f))"

section \<open>Appenders\<close>

record FileState =
  fs_filename :: string
  fs_open :: bool
  fs_reopen_error :: bool
  fs_last_open_time :: nat

datatype LogAppender =
    StdoutLogAppender (app_formatter: LogFormatter)
  | FileLogAppender (app_formatter: LogFormatter) (app_file: FileState)

text \<open>The outside world and the shared objects.\<close>

record Logger =
  lg_name :: string
  lg_level :: Level
  lg_appenders :: "nat list"
  lg_create_time :: nat

record log_world =
  lw_cout :: string
  lw_files :: "string \<rightharpoonup> string"
  lw_appenders :: "nat \<rightharpoonup> LogAppender"
  lw_loggers :: "nat \<rightharpoonup> Logger"
  lw_fresh :: nat

text \<open>\<open>ofstream::open\<close> in its default mode creates the file or cuts it to length zero.\<close>

definition reopen :: "(string \<Rightarrow> bool) \<Rightarrow> FileState \<Rightarrow> (string \<rightharpoonup> string) \<Rightarrow> FileState \<times> (string \<rightharpoonup> string)" where
  "reopen openable st files =
     (if openable (fs_filename st)
      then (st\<lparr>fs_open := True, fs_reopen_error := False\<rparr>, files(fs_filename st \<mapsto> []))
      else (st\<lparr>fs_open := False, fs_reopen_error := True\<rparr>, files))"

definition FileLogAppender_new ::
  "(string \<Rightarrow> bool) \<Rightarrow> string \<Rightarrow> (string \<rightharpoonup> string) \<Rightarrow> (LogAppender \<times> (string \<rightharpoonup> string)) res" where
  "FileLogAppender_new openable filename files =
     rmap (\<lambda>f. case reopen openable \<lparr>fs_filename = filename, fs_open = False, fs_reopen_error = False,
                                     fs_last_open_time = 0\<rparr> files of
                 (st, files') \<Rightarrow> (FileLogAppender f st, files'))
       (LogFormatter_new default_pattern)"

definition setFormatter :: "LogFormatter \<Rightarrow> LogAppender \<Rightarrow> LogAppender" where
  "setFormatter f a =
     (case a of StdoutLogAppender _ \<Rightarrow> StdoutLogAppender f | FileLogAppender _ st \<Rightarrow> FileLogAppender f st)"

definition file_log ::
  "(string \<Rightarrow> bool) \<Rightarrow> (string \<Rightarrow> nat \<Rightarrow> string) \<Rightarrow> LogEvent \<Rightarrow> LogFormatter \<Rightarrow> FileState \<Rightarrow> (string \<rightharpoonup> string)
     \<Rightarrow> FileState \<times> (string \<rightharpoonup> string)" where
  "file_log openable strftime e f st files =
     (let now = le_time e;
          (st1, files1) = (if now > (fs_last_open_time st + 3) mod 2 ^ 64
                           then (case reopen openable st files of (s, fl) \<Rightarrow> (s\<lparr>fs_last_open_time := now\<rparr>, fl))
                           else (st, files))
      in if fs_reopen_error st1 then (st1, files1)
         else (st1, files1(fs_filename st1 \<mapsto>
                 (case files1 (fs_filename st1) of None \<Rightarrow> [] | Some t \<Rightarrow> t) @ fmt_format strftime e f)))"

definition appender_log ::
  "(string \<Rightarrow> bool) \<Rightarrow> (string \<Rightarrow> nat \<Rightarrow> string) \<Rightarrow> LogEvent \<Rightarrow> nat \<Rightarrow> log_world \<Rightarrow> log_world res" where
  "appender_log openable strftime e a w =
     (case lw_appenders w a of
        None \<Rightarrow> Inl Null_Deref
      | Some (StdoutLogAppender f) \<Rightarrow> Inr (w\<lparr>lw_cout := lw_cout w @ fmt_format strftime e f\<rparr>)
      | Some (FileLogAppender f st) \<Rightarrow>
          (case file_log openable strftime e f st (lw_files w) of
             (st', files') \<Rightarrow> Inr (w\<lparr>lw_files := files',
                                    lw_appenders := (lw_appenders w)(a \<mapsto> FileLogAppender f st')\<rparr>)))"

section \<open>Loggers\<close>

definition Logger_new :: "string \<Rightarrow> Level \<Rightarrow> nat \<Rightarrow> Logger" where
  "Logger_new name level now = \<lparr>lg_name = name, lg_level = level, lg_appenders = [], lg_create_time = now\<rparr>"

definition addAppender :: "nat \<Rightarrow> Logger \<Rightarrow> Logger" where
  "addAppender a lg = lg\<lparr>lg_appenders := lg_appenders lg @ [a]\<rparr>"

definition delAppender :: "nat \<Rightarrow> Logger \<Rightarrow> Logger" where
  "delAppender a lg = lg\<lparr>lg_appenders := removeAll a (lg_appenders lg)\<rparr>"

definition clearAppender :: "Logger \<Rightarrow> Logger" where
  "clearAppender lg = lg\<lparr>lg_appenders := []\<rparr>"

definition setLoggerLevel :: "Level \<Rightarrow> Logger \<Rightarrow> Logger" where
  "setLoggerLevel level lg = lg\<lparr>lg_level := level\<rparr>"

definition Logger_log ::
  "(string \<Rightarrow> bool) \<Rightarrow> (string \<Rightarrow> nat \<Rightarrow> string) \<Rightarrow> LogEvent \<Rightarrow> Logger \<Rightarrow> log_world \<Rightarrow> log_world res" where
  "Logger_log openable strftime e lg w =
     (if le_level e \<ge> lg_level lg then rfold (appender_log openable strftime e) (lg_appenders lg) w else Inr w)"

text \<open>
  The place where a macro \<open>DAG_LOG\<close> stands: what \<open>__FILE__\<close>, \<open>__FUNCTION__\<close>, \<open>__LINE__\<close> and the calls for
  thread, fiber and times give there.
\<close>

record log_site =
  st_file :: string
  st_func :: string
  st_line :: nat
  st_thread_name :: string
  st_elapse_ms :: nat
  st_time :: nat
  st_tid :: nat
  st_fid :: nat

definition site_event :: "Level \<Rightarrow> log_site \<Rightarrow> string \<Rightarrow> Logger \<Rightarrow> LogEvent" where
  "site_event level site msg lg =
     \<lparr>le_level = level, le_logger_name = lg_name lg, le_message = msg, le_file = st_file site,
      le_func_name = st_func site, le_line = st_line site, le_thread_name = st_thread_name site,
      le_elapse = usub64 (st_elapse_ms site) (lg_create_time lg) mod 2 ^ 32, le_time = st_time site,
      le_tid = st_tid site, le_fid = st_fid site\<rparr>"

text \<open>The streaming macro logs the event when its wrapper is destroyed.\<close>

definition DAG_LOG ::
  "(string \<Rightarrow> bool) \<Rightarrow> (string \<Rightarrow> nat \<Rightarrow> string) \<Rightarrow> Level \<Rightarrow> log_site \<Rightarrow> string \<Rightarrow> nat \<Rightarrow> log_world \<Rightarrow> log_world res" where
  "DAG_LOG openable strftime level site msg l w =
     (case lw_loggers w l of
        None \<Rightarrow> Inl Null_Deref
      | Some lg \<Rightarrow> if level \<ge> lg_level lg then Logger_log openable strftime (site_event level site msg lg) lg w
                   else Inr w)"

text \<open>
  The formatting macro prints the message to the standard output at once, with \<open>vprintf\<close>, and logs
  an event whose own message stays empty.
\<close>

definition DAG_LOG_FMT ::
  "(string \<Rightarrow> bool) \<Rightarrow> (string \<Rightarrow> nat \<Rightarrow> string) \<Rightarrow> Level \<Rightarrow> log_site \<Rightarrow> string \<Rightarrow> nat \<Rightarrow> log_world \<Rightarrow> log_world res" where
  "DAG_LOG_FMT openable strftime level site printed l w =
     (case lw_loggers w l of
        None \<Rightarrow> Inl Null_Deref
      | Some lg \<Rightarrow> if level \<ge> lg_level lg
                   then Logger_log openable strftime (site_event level site [] lg) lg (w\<lparr>lw_cout := lw_cout w @ printed\<rparr>)
                   else Inr w)"

section \<open>The manager\<close>

record LoggerManager =
  root_logger :: nat
  loggers :: "string \<rightharpoonup> nat"

definition LoggerManager_new :: "nat \<Rightarrow> log_world \<Rightarrow> (LoggerManager \<times> log_world) res" where
  "LoggerManager_new now w =
     rmap (\<lambda>f.
       let l = lw_fresh w; a = Suc l in
       (\<lparr>root_logger = l, loggers = [''root'' \<mapsto> l]\<rparr>,
        w\<lparr>lw_appenders := (lw_appenders w)(a \<mapsto> StdoutLogAppender f),
          lw_loggers := (lw_loggers w)(l \<mapsto> addAppender a (Logger_new ''root'' DEBUG now)),
          lw_fresh := Suc a\<rparr>))
       (LogFormatter_new default_pattern)"

definition getRootLogger :: "LoggerManager \<Rightarrow> nat" where
  "getRootLogger m = root_logger m"

definition getLogger :: "string \<Rightarrow> nat \<Rightarrow> LoggerManager \<Rightarrow> log_world \<Rightarrow> nat \<times> LoggerManager \<times> log_world" where
  "getLogger name now m w =
     (case loggers m name of
        Some l \<Rightarrow> (l, m, w)
      | None \<Rightarrow> let l = lw_fresh w in
          (l, m\<lparr>loggers := (loggers m)(name \<mapsto> l)\<rparr>,
           w\<lparr>lw_loggers := (lw_loggers w)(l \<mapsto> Logger_new name INFO now), lw_fresh := Suc l\<rparr>))"

section \<open>Patterns and items\<close>

text \<open>The conversion character of an item, and how an item is written in a pattern.\<close>

fun item_char :: "FormatItem \<Rightarrow> char" where
  "item_char MessageFormatItem = CHR ''m''"
| "item_char LogLevelFormatItem = CHR ''p''"
| "item_char LoggerNameFormatItem = CHR ''c''"
| "item_char (DateFormatItem _) = CHR ''d''"
| "item_char ElapseFormatItem = CHR ''r''"
| "item_char FileFormatItem = CHR ''f''"
| "item_char FuncNameFormatItem = CHR ''a''"
| "item_char LineFormatItem = CHR ''l''"
| "item_char TidFormatItem = CHR ''t''"
| "item_char FidFormatItem = CHR ''b''"
| "item_char ThreadNameFormatItem = CHR ''n''"
| "item_char TabFormatItem = CHR ''T''"
| "item_char NewLineFormatItem = CHR ''N''"
| "item_char (StringFormatItem _) = CHR ''%''"

fun show_item :: "FormatItem \<Rightarrow> string" where
  "show_item (StringFormatItem s) = s"
| "show_item (DateFormatItem p) = ''%d{'' @ p @ ''}''"
| "show_item it = [CHR ''%'', item_char it]"

definition show_items :: "FormatItem list \<Rightarrow> string" where
  "show_items items = concat (map show_item items)"

fun item_piece :: "FormatItem \<Rightarrow> piece" where
  "item_piece (StringFormatItem s) = Regular s"
| "item_piece it = Conversion (item_char it)"

fun is_string :: "FormatItem \<Rightarrow> bool" where
  "is_string (StringFormatItem _) = True"
| "is_string _ = False"

fun item_date :: "FormatItem \<Rightarrow> string option" where
  "item_date (DateFormatItem p) = Some p"
| "item_date _ = None"

fun plain_item :: "FormatItem \<Rightarrow> bool" where
  "plain_item (StringFormatItem s) \<longleftrightarrow> s \<noteq> [] \<and> CHR ''%'' \<notin> set s"
| "plain_item (DateFormatItem p) \<longleftrightarrow> p \<noteq> [] \<and> CHR ''}'' \<notin> set p"
| "plain_item it \<longleftrightarrow> True"

text \<open>
  The items that a pattern can express: regular strings are not empty, have no percent sign and do
  not follow each other; there is at most one date, whose format has no closing brace.
\<close>

definition expressible :: "FormatItem list \<Rightarrow> bool" where
  "expressible items \<longleftrightarrow> (\<forall>it \<in> set items. plain_item it) \<and>
     successively (\<lambda>x y. \<not> (is_string x \<and> is_string y)) items \<and> length (List.map_filter item_date items) \<le> 1"

definition flush :: "piece list \<Rightarrow> string \<Rightarrow> piece list" where
  "flush ps tmp = (if tmp \<noteq> [] then ps @ [Regular tmp] else ps)"

lemma init_loop_regular:
  "CHR ''%'' \<notin> set s \<Longrightarrow> init_loop (s @ rest) True ps tmp d = init_loop rest True ps (tmp @ s) d"
  by (induction s arbitrary: tmp) auto

lemma init_loop_conversion:
  "c \<noteq> CHR ''%'' \<Longrightarrow> c \<noteq> CHR ''d'' \<Longrightarrow>
   init_loop (CHR ''%'' # c # rest) True ps tmp d = init_loop rest True (flush ps tmp @ [Conversion c]) [] d"
  by (simp add: flush_def)

lemma init_loop_date:
  "CHR ''}'' \<notin> set p \<Longrightarrow>
   init_loop (''%d{'' @ p @ CHR ''}'' # rest) True ps tmp d =
   init_loop rest True (flush ps tmp @ [Conversion CHR ''d'']) [] (d @ p)"
  by (simp add: flush_def takeWhile_append dropWhile_append Let_def)

lemma init_loop_item:
  assumes "plain_item it" "\<not> is_string it"
  shows "init_loop (show_item it @ rest) True ps tmp d =
    init_loop rest True (flush ps tmp @ [item_piece it]) [] (d @ (case item_date it of None \<Rightarrow> [] | Some p \<Rightarrow> p))"
proof (cases it)
  case (DateFormatItem p)
  with assms(1) init_loop_date [of p rest ps tmp d] show ?thesis by simp
qed (use assms init_loop_conversion [of "item_char it" rest ps tmp d] in simp_all)

lemma init_loop_items:
  assumes "\<forall>it \<in> set items. plain_item it" "successively (\<lambda>x y. \<not> (is_string x \<and> is_string y)) items"
    and "tmp \<noteq> [] \<Longrightarrow> items = [] \<or> \<not> is_string (hd items)"
  shows "\<exists>ps' tmp'. init_loop (show_items items) True ps tmp d =
      Inr (False, ps', tmp', d @ concat (List.map_filter item_date items)) \<and>
    flush ps' tmp' = flush ps tmp @ map item_piece items"
  using assms
proof (induction items arbitrary: ps tmp d)
  case Nil
  then show ?case by (simp add: show_items_def List.map_filter_simps)
next
  case (Cons it items)
  have rest: "\<forall>it \<in> set items. plain_item it" "successively (\<lambda>x y. \<not> (is_string x \<and> is_string y)) items"
    using Cons.prems by (auto simp: successively_Cons)
  show ?case
  proof (cases "is_string it")
    case True
    then obtain s where it: "it = StringFormatItem s" by (cases it) auto
    then have tmp: "tmp = []" and s: "CHR ''%'' \<notin> set s" "s \<noteq> []" using Cons.prems by auto
    have "items = [] \<or> \<not> is_string (hd items)" using Cons.prems(2) True by (cases items) auto
    then obtain ps' tmp' where "init_loop (show_items items) True ps s d =
        Inr (False, ps', tmp', d @ concat (List.map_filter item_date items))"
      "flush ps' tmp' = flush ps s @ map item_piece items"
      using Cons.IH [OF rest, of s ps d] by blast
    then show ?thesis using it tmp s init_loop_regular [OF s(1), of "show_items items" ps "[]" d]
      by (simp add: show_items_def List.map_filter_simps flush_def)
  next
    case False
    let ?d = "d @ (case item_date it of None \<Rightarrow> [] | Some p \<Rightarrow> p)"
    let ?ps = "flush ps tmp @ [item_piece it]"
    obtain ps' tmp' where "init_loop (show_items items) True ?ps [] ?d =
        Inr (False, ps', tmp', ?d @ concat (List.map_filter item_date items))"
      "flush ps' tmp' = flush ?ps [] @ map item_piece items"
      using Cons.IH [OF rest, of "[]" ?ps ?d] by auto
    then show ?thesis using init_loop_item [of it "show_items items" ps tmp d] Cons.prems(1) False
      by (auto simp: show_items_def List.map_filter_simps flush_def split: option.splits)
  qed
qed

lemma s_format_items_char:
  "\<not> is_string it \<Longrightarrow> item_date it = None \<Longrightarrow> s_format_items (item_char it) = Some it \<and> item_char it \<noteq> CHR ''d''"
  by (cases it) (simp_all add: s_format_items_def)

lemma init_items_pieces:
  assumes "\<forall>it \<in> set items. \<forall>p. item_date it = Some p \<longrightarrow> p = d \<and> p \<noteq> []"
  shows "init_items d (map item_piece items) = (False, items)"
  using assms
proof (induction items)
  case (Cons it items)
  then have IH: "init_items d (map item_piece items) = (False, items)" by simp
  show ?case
  proof (cases "is_string it \<or> item_date it \<noteq> None")
    case True
    with Cons.prems IH show ?thesis by (cases it) (auto simp: DateFormatItem_new_def)
  next
    case False
    then have "item_piece it = Conversion (item_char it)" by (cases it) auto
    with False s_format_items_char [of it] IH show ?thesis by auto
  qed
qed simp

lemma pattern_roundtrip_items:
  assumes "expressible items"
  shows "LogFormatter_new (show_items items) = Inr \<lparr>fmt_error = False, fmt_pattern = show_items items, fmt_items = items\<rparr>"
proof -
  let ?ds = "List.map_filter item_date items"
  obtain ps tmp where loop: "init_loop (show_items items) True [] [] [] = Inr (False, ps, tmp, concat ?ds)"
    "flush ps tmp = map item_piece items"
    using init_loop_items [of items "[]" "[]" "[]"] assms by (auto simp: expressible_def flush_def)
  have "\<forall>it \<in> set items. \<forall>p. item_date it = Some p \<longrightarrow> p = concat ?ds \<and> p \<noteq> []"
  proof (intro ballI allI impI)
    fix it p assume it: "it \<in> set items" "item_date it = Some p"
    then have "p \<in> set ?ds" by (force simp: List.map_filter_def)
    moreover have "length ?ds \<le> 1" using assms by (simp add: expressible_def)
    ultimately have "?ds = [p]" by (cases ?ds) auto
    moreover have "p \<noteq> []" using assms it by (cases it) (auto simp: expressible_def)
    ultimately show "p = concat ?ds \<and> p \<noteq> []" by simp
  qed
  from init_items_pieces [OF this] loop show ?thesis by (simp add: LogFormatter_new_def flush_def)
qed


text \<open>The items of the default pattern.\<close>

definition default_items :: "FormatItem list" where
  "default_items =
     [StringFormatItem '' ['', LogLevelFormatItem, StringFormatItem ''] ['', LoggerNameFormatItem, StringFormatItem ''] '',
      DateFormatItem default_date, StringFormatItem '' '', FileFormatItem, StringFormatItem '':'', LineFormatItem,
      TabFormatItem, MessageFormatItem, NewLineFormatItem]"

lemma default_expressible: "expressible default_items"
  by (simp add: expressible_def default_items_def default_date_def List.map_filter_simps)

lemma default_pattern_items: "show_items default_items = default_pattern"
  by (simp add: show_items_def default_items_def default_pattern_def default_date_def)


text \<open>
  Patterns that are not expressible: a doubled percent sign is an error, as is an unknown character;
  the items before it stay. A single percent sign at the end is dropped, \<open>%d\<close> at the end reads out of
  bounds, and several dates share the concatenation of their formats.
\<close>

lemma pattern_defects:
  assumes "CHR ''%'' \<notin> set p"
  shows "CHR ''%'' \<notin> set q \<Longrightarrow> LogFormatter_new (p @ ''%%'' @ q) =
      Inr \<lparr>fmt_error = True, fmt_pattern = p @ ''%%'' @ q, fmt_items = (if p = [] then [] else [StringFormatItem p])\<rparr>"
    and "LogFormatter_new (p @ ''%d'') = Inl Out_Of_Bounds"
    and "LogFormatter_new (p @ ''%'') =
      Inr \<lparr>fmt_error = False, fmt_pattern = p @ ''%'', fmt_items = (if p = [] then [] else [StringFormatItem p])\<rparr>"
    and "CHR ''}'' \<notin> set a \<Longrightarrow> CHR ''}'' \<notin> set b \<Longrightarrow> LogFormatter_new (''%d{'' @ a @ ''}%d{'' @ b @ ''}'') =
      Inr \<lparr>fmt_error = False, fmt_pattern = ''%d{'' @ a @ ''}%d{'' @ b @ ''}'',
           fmt_items = [DateFormatItem_new (a @ b), DateFormatItem_new (a @ b)]\<rparr>"
proof -
  show "LogFormatter_new (p @ ''%d'') = Inl Out_Of_Bounds"
    using init_loop_regular [OF assms, of "''%d''" "[]" "[]" "[]"] by (simp add: LogFormatter_new_def)
  show "LogFormatter_new (p @ ''%'') =
      Inr \<lparr>fmt_error = False, fmt_pattern = p @ ''%'', fmt_items = (if p = [] then [] else [StringFormatItem p])\<rparr>"
    using init_loop_regular [OF assms, of "''%''" "[]" "[]" "[]"] by (simp add: LogFormatter_new_def)
next
  assume q: "CHR ''%'' \<notin> set q"
  have "init_loop (p @ ''%%'' @ q) True [] [] [] = init_loop q True (flush [] p @ [Conversion CHR ''%'']) [] []"
    using init_loop_regular [OF assms, of "''%%'' @ q" "[]" "[]" "[]"] by (simp add: flush_def)
  also have "\<dots> = Inr (False, flush [] p @ [Conversion CHR ''%''], q, [])"
    using init_loop_regular [OF q, of "[]"] by simp
  finally show "LogFormatter_new (p @ ''%%'' @ q) =
      Inr \<lparr>fmt_error = True, fmt_pattern = p @ ''%%'' @ q, fmt_items = (if p = [] then [] else [StringFormatItem p])\<rparr>"
    by (simp add: LogFormatter_new_def flush_def s_format_items_def)
next
  assume a: "CHR ''}'' \<notin> set a" and b: "CHR ''}'' \<notin> set b"
  have "init_loop (''%d{'' @ a @ ''}%d{'' @ b @ ''}'') True [] [] [] =
      init_loop (''%d{'' @ b @ ''}'') True [Conversion CHR ''d''] [] a"
    using init_loop_date [OF a, of "''%d{'' @ b @ ''}''" "[]" "[]" "[]"] by (simp only: flush_def append.simps append_Nil) simp
  also have "\<dots> = Inr (False, [Conversion CHR ''d'', Conversion CHR ''d''], [], a @ b)"
    using init_loop_date [OF b, of "[]" "[Conversion CHR ''d'']" "[]" a] by (simp only: flush_def append.simps append_Nil) simp
  finally show "LogFormatter_new (''%d{'' @ a @ ''}%d{'' @ b @ ''}'') =
      Inr \<lparr>fmt_error = False, fmt_pattern = ''%d{'' @ a @ ''}%d{'' @ b @ ''}'',
           fmt_items = [DateFormatItem_new (a @ b), DateFormatItem_new (a @ b)]\<rparr>"
    by (simp add: LogFormatter_new_def)
qed

section \<open>Levels, loggers and files\<close>

lemma level_strings: "FromString (ToString l) = l"
  by (cases l) (simp_all add: ToString_def FromString_def)

lemma level_order: "DEBUG < INFO \<and> INFO < ERROR \<and> ERROR < FATAL \<and> FATAL < UNKNOWN"
  by (simp add: less_Level_def)

lemma default_formatter:
  "LogFormatter_new default_pattern = Inr \<lparr>fmt_error = False, fmt_pattern = default_pattern, fmt_items = default_items\<rparr>"
  using pattern_roundtrip_items [OF default_expressible] by (simp only: default_pattern_items)

text \<open>
  The root logger of a new manager prints every message of every level to the standard output, in
  the default layout: level, logger name, date, file, line and the message.
\<close>

lemma root_logger_line:
  "\<exists>m w1. LoggerManager_new now w = Inr (m, w1) \<and>
     DAG_LOG openable strftime level site msg (getRootLogger m) w1 =
       Inr (w1\<lparr>lw_cout := lw_cout w @ '' ['' @ ToString level @ ''] [root] '' @ strftime default_date (st_time site) @ '' '' @
         st_file site @ '':'' @ dec (st_line site) @ [CHR 0x09] @ msg @ [CHR 0x0A]\<rparr>)"
proof -
  let ?f = "\<lparr>fmt_error = False, fmt_pattern = default_pattern, fmt_items = default_items\<rparr>"
  let ?l = "lw_fresh w"
  let ?m = "\<lparr>root_logger = ?l, loggers = [''root'' \<mapsto> ?l]\<rparr>"
  let ?w = "w\<lparr>lw_appenders := (lw_appenders w)(Suc ?l \<mapsto> StdoutLogAppender ?f),
    lw_loggers := (lw_loggers w)(?l \<mapsto> addAppender (Suc ?l) (Logger_new ''root'' DEBUG now)), lw_fresh := Suc (Suc ?l)\<rparr>"
  have "LoggerManager_new now w = Inr (?m, ?w)" by (simp add: LoggerManager_new_def default_formatter Let_def)
  moreover have "DEBUG \<le> level" by (cases level) (simp_all add: less_eq_Level_def)
  ultimately show ?thesis
    by (intro exI [of _ ?m] exI [of _ ?w])
      (simp add: DAG_LOG_def getRootLogger_def addAppender_def Logger_new_def Logger_log_def site_event_def
        appender_log_def fmt_format_def default_items_def)
qed

text \<open>
  A file appender whose last event has reopened the file adds the events of the next three seconds to
  what the file holds.
\<close>

lemma file_log_appends:
  assumes "\<not> fs_reopen_error st" "files (fs_filename st) = Some old" "fs_last_open_time st + 3 < 2 ^ 64"
    and "\<forall>e \<in> set es. le_time e \<le> fs_last_open_time st + 3"
  shows "fold (\<lambda>e (st, files). file_log openable strftime e f st files) es (st, files) =
    (st, files(fs_filename st \<mapsto> old @ concat (map (\<lambda>e. fmt_format strftime e f) es)))"
  using assms
proof (induction es arbitrary: files old)
  case Nil
  then show ?case by (simp add: fun_upd_idem)
next
  case (Cons e es)
  then have "file_log openable strftime e f st files = (st, files(fs_filename st \<mapsto> old @ fmt_format strftime e f))"
    by (simp add: file_log_def)
  with Cons show ?case by (simp add: fun_eq_iff)
qed

text \<open>
  C37: an event more than three seconds after the last opening of the log file makes the appender open
  the file again, which cuts it: after this event and any number of events of the next three seconds
  the file holds exactly these events, in order, and whatever was logged before is lost. Other files
  are left alone.
\<close>

theorem file_log_truncates:
  assumes "openable (fs_filename st)" "fs_last_open_time st + 3 < le_time e" "le_time e + 3 < 2 ^ 64"
    and "\<forall>e' \<in> set es. le_time e' \<le> le_time e + 3"
  shows "snd (fold (\<lambda>e (st, files). file_log openable strftime e f st files) (e # es) (st, files)) =
    files(fs_filename st \<mapsto> concat (map (\<lambda>e. fmt_format strftime e f) (e # es)))"
proof -
  let ?st = "st\<lparr>fs_open := True, fs_reopen_error := False, fs_last_open_time := le_time e\<rparr>"
  have "file_log openable strftime e f st files = (?st, files(fs_filename st \<mapsto> fmt_format strftime e f))"
    using assms(1-3) by (simp add: file_log_def reopen_def)
  then show ?thesis
    using file_log_appends [of ?st "files(fs_filename st \<mapsto> fmt_format strftime e f)" "fmt_format strftime e f" es] assms(3,4)
    by simp
qed

theorem file_log_truncates_witness:
  "snd (fold (\<lambda>e (st, files). file_log (\<lambda>_. True) (\<lambda>_ _. []) e \<lparr>fmt_error = False, fmt_pattern = ''%m'', fmt_items = [MessageFormatItem]\<rparr> st files)
     [site_event INFO \<lparr>st_file = [], st_func = [], st_line = 1, st_thread_name = [], st_elapse_ms = 0, st_time = 104, st_tid = 0, st_fid = 0\<rparr>
        ''second'' (Logger_new ''a'' INFO 0)]
     (\<lparr>fs_filename = ''log'', fs_open = True, fs_reopen_error = False, fs_last_open_time = 100\<rparr>, [''log'' \<mapsto> ''first''])) =
   [''log'' \<mapsto> ''second'']"
proof -
  let ?st = "\<lparr>fs_filename = ''log'', fs_open = True, fs_reopen_error = False, fs_last_open_time = 100\<rparr>"
  let ?e = "site_event INFO \<lparr>st_file = [], st_func = [], st_line = 1, st_thread_name = [], st_elapse_ms = 0, st_time = 104,
    st_tid = 0, st_fid = 0\<rparr> ''second'' (Logger_new ''a'' INFO 0)"
  let ?f = "\<lparr>fmt_error = False, fmt_pattern = ''%m'', fmt_items = [MessageFormatItem]\<rparr>"
  have "fmt_format (\<lambda>_ _. []) ?e ?f = ''second''" by (simp add: fmt_format_def site_event_def)
  with file_log_truncates [of "\<lambda>_. True" ?st ?e "[]" "\<lambda>_ _. []" ?f "[''log'' \<mapsto> ''first'']"]
  show ?thesis by (simp add: site_event_def)
qed

text \<open>Loggers of the manager are known by their names.\<close>

definition lm_inv :: "LoggerManager \<Rightarrow> log_world \<Rightarrow> bool" where
  "lm_inv m w \<longleftrightarrow> (\<forall>name l. loggers m name = Some l \<longrightarrow>
     l < lw_fresh w \<and> (\<exists>lg. lw_loggers w l = Some lg \<and> lg_name lg = name)) \<and> loggers m ''root'' = Some (root_logger m)"

lemma lm_inv_new: "LoggerManager_new now w = Inr (m, w1) \<Longrightarrow> lm_inv m w1"
  by (auto simp: LoggerManager_new_def default_formatter lm_inv_def addAppender_def Logger_new_def Let_def split: if_splits)

lemma getLogger_stable:
  assumes "lm_inv m w" "getLogger name now m w = (l, m1, w1)"
  shows "lm_inv m1 w1 \<and> getLogger name now' m1 w1 = (l, m1, w1) \<and>
    (\<exists>lg. lw_loggers w1 l = Some lg \<and> lg_name lg = name) \<and> (\<forall>n. n \<noteq> name \<longrightarrow> loggers m1 n = loggers m n)"
proof (cases "loggers m name")
  case None
  then have r: "l = lw_fresh w" "m1 = m\<lparr>loggers := (loggers m)(name \<mapsto> l)\<rparr>"
    "w1 = w\<lparr>lw_loggers := (lw_loggers w)(l \<mapsto> Logger_new name INFO now), lw_fresh := Suc l\<rparr>"
    using assms(2) by (auto simp: getLogger_def Let_def)
  have old: "l' < l \<and> (\<exists>lg. lw_loggers w l' = Some lg \<and> lg_name lg = n)" if "loggers m n = Some l'" for n l'
    using assms(1) that r(1) unfolding lm_inv_def by blast
  have "loggers m ''root'' = Some (root_logger m)" using assms(1) by (simp add: lm_inv_def)
  then have "name \<noteq> ''root''" using None by auto
  then have "lm_inv m1 w1"
    using old \<open>loggers m ''root'' = _\<close> unfolding lm_inv_def r(2,3)
    by (auto simp: Logger_new_def less_Suc_eq split: if_splits)
  with r show ?thesis by (simp add: getLogger_def Logger_new_def)
next
  case (Some l')
  with assms show ?thesis by (auto simp: getLogger_def lm_inv_def)
qed

text \<open>A logger that the manager has just made has no appender: what is logged to it disappears.\<close>

lemma new_logger_silent:
  assumes "loggers m name = None" "getLogger name now m w = (l, m1, w1)"
  shows "DAG_LOG openable strftime level site msg l w1 = Inr w1"
  using assms by (auto simp: getLogger_def DAG_LOG_def Logger_log_def Logger_new_def Let_def)

text \<open>The formatting macro bypasses the appenders: its message goes to the standard output only.\<close>

lemma fmt_message_not_in_event:
  "lw_loggers w l = Some lg \<Longrightarrow> lg_level lg \<le> level \<Longrightarrow>
   DAG_LOG_FMT openable strftime level site printed l w =
   DAG_LOG openable strftime level site [] l (w\<lparr>lw_cout := lw_cout w @ printed\<rparr>)"
  by (simp add: DAG_LOG_FMT_def DAG_LOG_def)

end
