(* ===== verification/Util.thy ===== *)
theory Util
  imports Fiber Logger
begin

text \<open>
  The utilities of \<open>dag/utils/util.cpp\<close> and the assertion macros of \<open>dag/utils/asserts.h\<close>. Clock readings,
  the number of the thread and the frames of the stack are arguments; the name that the kernel keeps
  for a thread is its state.
\<close>

section \<open>Clocks and identifiers\<close>

text \<open>Nanoseconds of the steady clock, and seconds with microseconds of the day, to milliseconds.\<close>

definition getElapseMs :: "int \<Rightarrow> nat" where
  "getElapseMs ns = nat (tquot ns 1000000 mod 2 ^ 64)"

definition getCurrentTime :: "int \<Rightarrow> int \<Rightarrow> nat" where
  "getCurrentTime tv_sec tv_usec = nat ((tv_sec * 1000 + tquot tv_usec 1000) mod 2 ^ 64)"

definition getThreadId :: "int \<Rightarrow> nat" where
  "getThreadId tid = nat (tid mod 2 ^ 32)"

definition getFiberId :: "'cb fiber_thread \<Rightarrow> nat" where
  "getFiberId th = GetFiberId th mod 2 ^ 32"

section \<open>Names of threads\<close>

text \<open>
  The string that a \<open>const char *\<close> stands for, and the kernel's names: \<open>pthread_setname_np\<close> refuses a name
  of more than 15 characters.
\<close>

definition c_str :: "string \<Rightarrow> string" where
  "c_str s = takeWhile (\<lambda>c. c \<noteq> char_of (0 :: nat)) s"

definition pthread_setname_np :: "string \<Rightarrow> string \<Rightarrow> string" where
  "pthread_setname_np name kernel_name = (if length name \<le> 15 then name else kernel_name)"

definition setThreadName :: "string \<Rightarrow> string \<Rightarrow> string" where
  "setThreadName name kernel_name = pthread_setname_np (c_str (take 15 name)) kernel_name"

definition getThreadName :: "string \<Rightarrow> string" where
  "getThreadName kernel_name = c_str kernel_name"

section \<open>Back traces\<close>

text \<open>
  \<open>frames\<close> are the return addresses on the stack and \<open>rest\<close> what the memory behind those that fit
  happens to hold: the whole array is handed to \<open>backtrace_symbols\<close>, of whose strings those from \<open>skip\<close> on
  that belong to frames are taken. A null result is reported and then used.
\<close>

definition util_backtrace ::
  "('a list \<Rightarrow> string list option) \<Rightarrow> 'a list \<Rightarrow> 'a list \<Rightarrow> nat \<Rightarrow> nat \<Rightarrow> string list \<Rightarrow> string list res" where
  "util_backtrace backtrace_symbols frames rest depth skip bt =
     (let s = min depth (length frames); array = take s frames @ take (depth - s) rest in
      case backtrace_symbols array of
        None \<Rightarrow> if skip < s then Inl Null_Deref else Inr bt
      | Some strings \<Rightarrow> Inr (bt @ map (\<lambda>i. strings ! i) [skip..<s]))"

definition backtraceToString ::
  "('a list \<Rightarrow> string list option) \<Rightarrow> 'a list \<Rightarrow> 'a list \<Rightarrow> nat \<Rightarrow> nat \<Rightarrow> string \<Rightarrow> string res" where
  "backtraceToString backtrace_symbols frames rest depth skip pre =
     rmap (\<lambda>bt. concat (map (\<lambda>i. pre @ '' '' @ i @ ''\<newline>'') bt)) (util_backtrace backtrace_symbols frames rest depth skip [])"

section \<open>The place of a message and assertions\<close>

text \<open>What the logging macros gather at the place where they stand.\<close>

definition log_here :: "string \<Rightarrow> string \<Rightarrow> nat \<Rightarrow> string \<Rightarrow> int \<Rightarrow> nat \<Rightarrow> int \<Rightarrow> 'cb fiber_thread \<Rightarrow> log_site" where
  "log_here file func line kernel_name ns time tid th =
     \<lparr>st_file = file, st_func = func, st_line = line, st_thread_name = getThreadName kernel_name,
      st_elapse_ms = getElapseMs ns, st_time = time, st_tid = getThreadId tid, st_fid = getFiberId th\<rparr>"

text \<open>
  A failed condition, given by its text, is logged with the back trace \<open>trace\<close>; then the program stops. The second macro
  adds a remark.
\<close>

definition dag_assert ::
  "(string \<Rightarrow> bool) \<Rightarrow> (string \<Rightarrow> nat \<Rightarrow> string) \<Rightarrow> log_site \<Rightarrow> string \<Rightarrow> string \<Rightarrow> bool \<Rightarrow> nat \<Rightarrow> string \<Rightarrow> log_world \<Rightarrow> log_world \<times> unit res" where
  "dag_assert openable strftime site x msg holds root trace w =
     (if holds then (w, Inr ())
      else case DAG_LOG openable strftime ERROR site (''DAG_ASSERT:'' @ msg @ ''\<newline>backtrace:\<newline>'' @ trace) root w of
             Inl e \<Rightarrow> (w, Inl e)
           | Inr w' \<Rightarrow> (w', Inl (Assertion x)))"

definition DAG_ASSERT ::
  "(string \<Rightarrow> bool) \<Rightarrow> (string \<Rightarrow> nat \<Rightarrow> string) \<Rightarrow> log_site \<Rightarrow> string \<Rightarrow> bool \<Rightarrow> nat \<Rightarrow> string \<Rightarrow> log_world \<Rightarrow> log_world \<times> unit res" where
  "DAG_ASSERT openable strftime site x holds root trace w = dag_assert openable strftime site x x holds root trace w"

definition DAG_ASSERT2 ::
  "(string \<Rightarrow> bool) \<Rightarrow> (string \<Rightarrow> nat \<Rightarrow> string) \<Rightarrow> log_site \<Rightarrow> string \<Rightarrow> string \<Rightarrow> bool \<Rightarrow> nat \<Rightarrow> string \<Rightarrow> log_world \<Rightarrow> log_world \<times> unit res" where
  "DAG_ASSERT2 openable strftime site x remark holds root trace w =
     dag_assert openable strftime site x (x @ ''\<newline>'' @ remark) holds root trace w"

section \<open>Facts\<close>

text \<open>A name is cut to 15 characters and read back as it was set; the kernel never refuses it.\<close>

lemma thread_name_roundtrip: "getThreadName (setThreadName name kernel_name) = take 15 (c_str name)"
proof -
  have "c_str (take n xs) = take n (c_str xs)" for n and xs :: string
    unfolding c_str_def by (induction xs arbitrary: n) (auto simp: take_Cons split: nat.splits)
  moreover have "c_str (c_str name) = c_str name" by (simp add: c_str_def)
  ultimately show ?thesis by (simp add: getThreadName_def setThreadName_def pthread_setname_np_def)
qed

text \<open>The milliseconds of the clock are exact and do not wrap before the year 500 million.\<close>

lemma getCurrentTime_exact:
  assumes "0 \<le> tv_sec" "tv_sec < 18446744073709551" "0 \<le> tv_usec" "tv_usec < 1000000"
  shows "int (getCurrentTime tv_sec tv_usec) = (tv_sec * 1000000 + tv_usec) div 1000"
proof -
  have "(tv_sec * 1000000 + tv_usec) div 1000 = tv_sec * 1000 + tv_usec div 1000"
    using div_mult_self1 [of 1000 tv_usec "tv_sec * 1000"] by (simp add: algebra_simps)
  moreover have "0 \<le> tv_sec * 1000 + tv_usec div 1000" "tv_sec * 1000 + tv_usec div 1000 < 18446744073709551616"
    using assms by linarith+
  ultimately show ?thesis using assms(3) by (simp add: getCurrentTime_def)
qed

lemma entries_from: "map ((!) (map name A @ R)) [k..<length A] = map name (drop k A)"
proof (rule nth_equalityI)
  fix i assume "i < length (map ((!) (map name A @ R)) [k..<length A])"
  then have "k + i < length A" by simp
  then show "map ((!) (map name A @ R)) [k..<length A] ! i = map name (drop k A) ! i" by (simp add: nth_append)
qed simp

text \<open>
  If \<open>backtrace_symbols\<close> gives a string for every address, the trace has the names of the frames that were asked for, in order,
  whatever the memory behind them held; if it fails the null pointer is used.
\<close>

lemma backtrace_frames:
  assumes "\<And>xs. backtrace_symbols xs = Some (map name xs)"
  shows "util_backtrace backtrace_symbols frames rest depth skip bt = Inr (bt @ map name (drop skip (take depth frames)))"
proof -
  let ?s = "min depth (length frames)"
  have "take ?s frames = take depth frames" "?s = length (take depth frames)" by (auto simp: min_def)
  then show ?thesis using assms entries_from [of name "take depth frames" _ skip] by (simp add: util_backtrace_def Let_def)
qed

lemma backtrace_symbols_failure:
  "skip < depth \<Longrightarrow> skip < length frames \<Longrightarrow> util_backtrace (\<lambda>_. None) frames rest depth skip bt = Inl Null_Deref"
  by (simp add: util_backtrace_def)

text \<open>The number of a fiber is cut to 32 bits, so that fibers whose numbers differ by \<open>2 ^ 32\<close> look the same in the log.\<close>

lemma fiber_ids_collide:
  assumes "t_fiber th = Some f" "t_fiber th' = Some (f + 2 ^ 32)"
  shows "getFiberId th = getFiberId th'"
  using assms by (simp add: getFiberId_def GetFiberId_def)

end
