(* ===== verification/Example.thy ===== *)
theory Example
  imports Fiber
begin

text \<open>
  The program \<open>example/Scheduler.cpp\<close>: a small scheduler on one thread that resumes each of its fibers
  once. A fiber is given by its number, the function it runs by the argument that the function
  prints.
\<close>

section \<open>The program\<close>

definition scheduelr :: "nat \<Rightarrow> nat list \<Rightarrow> nat list" where
  "scheduelr task m_tasks = m_tasks @ [task]"

text \<open>
  The loop of \<open>run\<close>. The iterator stands at the first of the tasks or behind the last; erasing the task
  moves it on before the task is resumed, so that it is at the end already when the last task runs. \<open>pushes\<close>
  are the tasks that a fiber adds while it runs, which then ends. The result is what is left in the list
  and what the functions have printed.
\<close>

partial_function (option) demo_run ::
  "(nat \<Rightarrow> nat list) \<Rightarrow> bool \<Rightarrow> nat list \<Rightarrow> 'cb list \<Rightarrow> 'cb fiber_thread \<Rightarrow> (nat list \<times> 'cb list \<times> 'cb fiber_thread) res option" where
  "demo_run pushes at_end m_tasks out th =
     (if at_end then Some (Inr (m_tasks, out, th))
      else case m_tasks of
        [] \<Rightarrow> Some (Inl Out_Of_Bounds)
      | task # rest \<Rightarrow>
          (case resume task th of
             Inl e \<Rightarrow> Some (Inl e)
           | Inr th1 \<Rightarrow>
               (case MainFunc_end th1 of
                  Inl e \<Rightarrow> Some (Inl e)
                | Inr th2 \<Rightarrow>
                    demo_run pushes (rest = []) (fold scheduelr (pushes task) rest)
                      (out @ [the (m_cb (the (fibers th task)))]) th2)))"

definition demo_start :: "nat list \<Rightarrow> nat list \<times> nat fiber_thread \<Rightarrow> nat list \<times> nat fiber_thread" where
  "demo_start is st =
     fold (\<lambda>i (ts, th). case Fiber_new i 0 True th of (f, th') \<Rightarrow> (scheduelr f ts, th')) is st"

definition demo_main :: "bool \<Rightarrow> nat \<Rightarrow> (nat list \<times> nat list \<times> nat fiber_thread) res option" where
  "demo_main junk n =
     (case GetThis junk (fiber_thread_new 0) of
        Inl e \<Rightarrow> Some (Inl e)
      | Inr (_, th) \<Rightarrow>
          (case demo_start [0..<n] ([], th) of (ts, th1) \<Rightarrow> demo_run (\<lambda>_. []) (ts = []) ts [] th1))"

section \<open>What it does\<close>

text \<open>A list of fibers that can be run, with what they print.\<close>

definition runnable :: "nat list \<Rightarrow> 'cb list \<Rightarrow> 'cb fiber_thread \<Rightarrow> bool" where
  "runnable ts cbs th \<longleftrightarrow> fiber_inv th \<and> t_scheduler_fiber th = Some (flow th) \<and> distinct ts \<and>
     list_all2 (\<lambda>f cb. \<exists>x. fibers th f = Some x \<and> m_state x = READY \<and> m_runInScheduler x \<and> m_cb x = Some cb) ts cbs"

lemma demo_run_all:
  assumes "runnable ts cbs th"
  shows "\<exists>th'. demo_run (\<lambda>_. []) (ts = []) ts out th = Some (Inr ([], out @ cbs, th')) \<and> fiber_inv th' \<and> flow th' = flow th"
  using assms
proof (induction ts arbitrary: cbs out th)
  case Nil
  then show ?case by (subst demo_run.simps) (auto simp: runnable_def)
next
  case (Cons f ts)
  obtain cb cbs' x where cbs: "cbs = cb # cbs'" and x: "fibers th f = Some x" "m_state x = READY" "m_runInScheduler x" "m_cb x = Some cb"
    using Cons.prems by (auto simp: runnable_def list_all2_Cons1)
  have inv: "fiber_inv th" "t_scheduler_fiber th = Some (flow th)" using Cons.prems by (auto simp: runnable_def)
  obtain th1 th2 where th: "resume f th = Inr th1" "MainFunc_end th1 = Inr th2" "fiber_inv th2" "flow th2 = flow th"
    "t_scheduler_fiber th2 = t_scheduler_fiber th" "fibers th2 = (fibers th)(f \<mapsto> x\<lparr>m_cb := None, m_state := TERM_STATE\<rparr>)"
    using resume_end_correct [OF inv x(1-3)] by blast
  have "runnable ts cbs' th2"
    using Cons.prems th(3-6) inv(2) by (auto simp: runnable_def cbs elim!: list_all2_mono list.rel_mono_strong)
  from Cons.IH [OF this, of "out @ [cb]"] th x(1,4) show ?case by (subst demo_run.simps) (simp add: cbs)
qed

lemma demo_start_runnable:
  assumes "runnable ts cbs th" "\<forall>f \<in> set ts. f < s_fiber_id th"
  shows "\<exists>ts' th'. demo_start is (ts, th) = (ts', th') \<and> runnable ts' (cbs @ is) th'"
  using assms
proof (induction "is" arbitrary: ts cbs th)
  case (Cons i "is")
  obtain f th1 where new: "Fiber_new i 0 True th = (f, th1)" by fastforce
  have f: "f = s_fiber_id th" "s_fiber_id th1 = Suc f" "\<exists>x. fibers th1 = (fibers th)(f \<mapsto> x) \<and> m_state x = READY \<and> m_runInScheduler x \<and> m_cb x = Some i"
    "t_scheduler_fiber th1 = t_scheduler_fiber th" "flow th1 = flow th"
    using new by (auto simp: Fiber_new_def Let_def)
  have "f \<notin> set ts" using Cons.prems(2) f(1) by auto
  then have "runnable (scheduelr f ts) (cbs @ [i]) th1"
    using Cons.prems(1) f fiber_inv_new [OF _ new]
    by (auto simp: runnable_def scheduelr_def intro!: list_all2_appendI elim!: list.rel_mono_strong)
  moreover have "\<forall>g \<in> set (scheduelr f ts). g < s_fiber_id th1" using Cons.prems(2) f by (auto simp: scheduelr_def)
  ultimately show ?case using Cons.IH [of "scheduelr f ts" "cbs @ [i]" th1] by (simp add: demo_start_def new)
qed (simp add: demo_start_def)

text \<open>
  The program resumes every fiber once and in order, prints one line for each, leaves no task behind
  and ends in the main fiber, for any number of fibers.
\<close>

lemma demo_runs_all: "\<exists>th'. demo_main junk n = Some (Inr ([], [0..<n], th')) \<and> fiber_inv th' \<and> flow th' = 0"
proof -
  obtain th :: "nat fiber_thread" where th: "GetThis junk (fiber_thread_new 0) = Inr (0, th)" "flow th = 0" "t_scheduler_fiber th = Some 0"
    by (simp add: GetThis_def fiber_thread_new_def Fiber_main_def Let_def)
  have inv: "fiber_inv th" by (rule fiber_reach_inv [OF freach_start [OF th(1)]])
  then have "runnable [] [] th" using th by (simp add: runnable_def)
  from demo_start_runnable [OF this, of "[0..<n]"] obtain ts th1 where
    st: "demo_start [0..<n] ([], th) = (ts, th1)" "runnable ts [0..<n] th1" by auto
  have "flow (snd (demo_start is st)) = flow (snd st)" for "is" st
    by (induction "is" arbitrary: st) (auto simp: demo_start_def Fiber_new_def Let_def)
  from this [of "[0..<n]" "([], th)"] have "flow th1 = 0" using st(1) th(2) by simp
  with demo_run_all [OF st(2), of "[]"] st(1) th(1) show ?thesis by (simp add: demo_main_def)
qed

text \<open>A task that the last fiber adds while it runs stays in the list: the iterator is at the end already.\<close>

lemma last_push_not_run:
  assumes "runnable [f] [cb] th"
  shows "\<exists>th'. demo_run (\<lambda>g. if g = f then [h] else []) False [f] [] th = Some (Inr ([h], [cb], th'))"
proof -
  obtain x where x: "fibers th f = Some x" "m_state x = READY" "m_runInScheduler x" "m_cb x = Some cb"
    using assms by (auto simp: runnable_def)
  have inv: "fiber_inv th" "t_scheduler_fiber th = Some (flow th)" using assms by (auto simp: runnable_def)
  obtain th1 th2 where th: "resume f th = Inr th1" "MainFunc_end th1 = Inr th2"
    using resume_end_correct [OF inv x(1-3)] by blast
  have "demo_run (\<lambda>g. if g = f then [h] else []) True [h] [cb] th2 = Some (Inr ([h], [cb], th2))"
    by (subst demo_run.simps) simp
  then show ?thesis using th x(1,4) by (subst demo_run.simps) (simp add: scheduelr_def)
qed

end
